(* ===== verification/Prelude.thy ===== *)
theory Prelude
  imports Main "HOL-Library.Word"
begin

text \<open>
  Shared vocabulary of the development: the types that name the values crossing the
  Mono/Godot boundary (native addresses, Godot \<open>String\<close>s as lists of 32-bit code
  points, Mono strings as lists of UTF-16 code units or NULL, \<open>MonoBoolean\<close> as a
  byte), the engine allocator \<open>memnew\<close> as a bump allocator on an extensible record,
  the word lemmas the UTF-16 codec needs, and the counting of the holders of a value in
  a partial map, on which the reference-count invariant of the interning table rests.
\<close>

unbundle bit_operations_syntax

named_theorems icall_defs "definitions of the native entry points of the StringName glue"

section \<open>Types of the model\<close>

type_synonym addr = nat \<comment> \<open>a native address; 0 is \<open>nullptr\<close>\<close>

abbreviation nullptr :: addr where
  "nullptr \<equiv> 0"

type_synonym char32 = "32 word" \<comment> \<open>Godot \<open>CharType\<close>: a 32-bit code point\<close>
type_synonym gstring = "char32 list" \<comment> \<open>Godot \<open>String\<close>\<close>
type_synonym utf16 = "16 word list" \<comment> \<open>the UTF-16 code units of a managed string\<close>
type_synonym mono_string = "utf16 option" \<comment> \<open>\<open>MonoString *\<close>; \<open>None\<close> is NULL\<close>
type_synonym mono_boolean = "8 word" \<comment> \<open>\<open>MonoBoolean\<close> (\<open>uint8_t\<close>)\<close>

section \<open>The engine allocator\<close>

text \<open>
  \<open>memnew\<close> returns fresh, non-null storage. The model hands out addresses from a
  counter that starts above \<open>nullptr\<close> and never reuses one, so that every access
  through a pointer whose object was deleted is visible as a missing heap cell.
\<close>

record alloc_state =
  next_addr :: addr

definition memnew :: "'a alloc_state_scheme \<Rightarrow> addr \<times> 'a alloc_state_scheme" where
  "memnew s = (next_addr s, s\<lparr>next_addr := Suc (next_addr s)\<rparr>)"

lemma memnew_fst [simp]: "fst (memnew s) = next_addr s"
  and memnew_next [simp]: "next_addr (snd (memnew s)) = Suc (next_addr s)"
  by (simp_all add: memnew_def)

section \<open>Holders of a value in a partial map\<close>

definition holders :: "('k \<rightharpoonup> 'v) \<Rightarrow> 'v \<Rightarrow> 'k set" where
  "holders m v = {k. m k = Some v}"

lemma holders_subset_dom: "holders m v \<subseteq> dom m"
  by (auto simp: holders_def)

lemma finite_holders [intro]: "finite (dom m) \<Longrightarrow> finite (holders m v)"
  by (rule finite_subset [OF holders_subset_dom])

lemma holders_upd:
  "holders (m(k \<mapsto> v)) v' = (if v = v' then insert k (holders m v') else holders m v' - {k})"
  by (simp add: holders_def set_eq_iff)

lemma holders_del: "holders (m(k := None)) v = holders m v - {k}"
  by (auto simp: holders_def)

lemma card_holders_upd_new:
  assumes "finite (dom m)" and "m k = None"
  shows "card (holders (m(k \<mapsto> v)) v') = (if v = v' then Suc (card (holders m v')) else card (holders m v'))"
proof -
  have k: "k \<notin> holders m v'" using assms(2) by (simp add: holders_def)
  then have "holders m v' - {k} = holders m v'" by simp
  with k assms(1) show ?thesis by (simp add: holders_upd finite_holders)
qed

lemma card_holders_del:
  assumes "finite (dom m)" and "m k = Some v"
  shows "card (holders (m(k := None)) v') = (if v = v' then card (holders m v') - 1 else card (holders m v'))"
proof (cases "v = v'")
  case True
  then have "k \<in> holders m v'" using assms(2) by (simp add: holders_def)
  with assms(1) True show ?thesis by (simp add: holders_del finite_holders card_Diff_singleton)
next
  case False
  then have "holders m v' - {k} = holders m v'" using assms(2) by (auto simp: holders_def)
  with False show ?thesis by (simp add: holders_del)
qed

section \<open>Association lists as partial maps\<close>

lemma fold_upd_map_add: "fold (\<lambda>(k, v) m. m(k \<mapsto> v)) ps m = m ++ map_of (rev ps)"
  by (induction ps arbitrary: m) auto

lemma map_of_rev_distinct: "distinct (map fst ps) \<Longrightarrow> map_of (rev ps) = map_of ps"
proof (induction ps)
  case (Cons p ps)
  have "dom (map_of [p]) \<inter> dom (map_of ps) = {}"
    using Cons.prems by (cases p) (simp add: dom_map_of_conv_image_fst)
  then have "map_of [p] ++ map_of ps = map_of ps ++ map_of [p]" by (rule map_add_comm)
  then show ?case using Cons by (simp flip: map_of_append[of "[p]" ps, simplified])
qed simp

section \<open>Words\<close>

lemma unat_ucast_16_32: "unat (ucast (x :: 16 word) :: 32 word) = unat x"
  by (simp add: unsigned_ucast_eq take_bit_nat_eq_self_iff less_le_trans[OF unsigned_less[of x]])

lemma unat_ucast_32_16: "unat v < 65536 \<Longrightarrow> unat (ucast (v :: 32 word) :: 16 word) = unat v"
  by (simp add: unsigned_ucast_eq take_bit_nat_eq_self_iff)

lemma unat_and_0x3FF: "unat ((v :: 32 word) AND 0x3FF) = unat v mod 1024"
proof -
  have "(0x3FF :: 32 word) = mask 10" by (simp add: mask_eq_exp_minus_1)
  then have "v AND 0x3FF = take_bit 10 v" by (simp only: take_bit_eq_mask)
  then show ?thesis by (simp add: unsigned_take_bit_eq take_bit_eq_mod unat_mod_distrib)
qed

lemma unat_drop_bit_10: "unat (drop_bit 10 (v :: 32 word)) = unat v div 1024"
  by (simp add: unat_drop_bit_eq drop_bit_eq_div unat_div_distrib)

lemma unat_minus_const:
  "n \<le> unat (x :: 'a::len word) \<Longrightarrow> n < 2 ^ LENGTH('a) \<Longrightarrow> unat (x - of_nat n) = unat x - n"
  by (subst unat_sub) (simp_all add: word_le_nat_alt unat_of_nat)

lemmas word_le_unat = word_le_nat_alt word_less_nat_alt

end
