(* ===== verification/Marshal.thy ===== *)
theory Marshal
  imports Prelude
begin

text \<open>
  The string marshaling the glue calls, \<open>GDMonoMarshal::mono_string_to_godot\<close> and
  \<open>GDMonoMarshal::mono_string_from_godot\<close>. Their code lives outside the repository
  (the Mono module and the Mono runtime); they are modelled from the spec's
  "conversion interface with two pure functions", made concrete as the conversions a
  managed string really undergoes: UTF-16 code units to code points and back, a NULL
  managed string read as the empty String, an ill-formed UTF-16 sequence (a lone
  surrogate) read as the empty String (the conversion reports an error and returns
  \<open>String()\<close>), and the C-string boundary of the UTF-8 hand-over, which ends a
  string at its first U+0000. Code points that are not Unicode scalar values cannot be
  handed back: the managed string comes back NULL.

  This is the conversion of a build whose \<open>CharType\<close> is four bytes wide (\<open>char32_t\<close>,
  the usual case outside Windows), which goes through UTF-8. A build with a two-byte
  \<open>CharType\<close> (\<open>wchar_t\<close> on Windows) copies the UTF-16 code units as they are: no cut at
  U+0000 and no empty text for a lone surrogate. That path is not modelled, and the
  lemmas that rest on the cut or on the scalar-value range hold of the four-byte build only.
\<close>

unbundle bit_operations_syntax

section \<open>Code points and surrogates\<close>

definition is_scalar_value :: "char32 \<Rightarrow> bool" where
  "is_scalar_value c \<longleftrightarrow> c < 0x110000 \<and> \<not> (0xD800 \<le> c \<and> c \<le> 0xDFFF)"

definition surrogate_value :: "16 word \<Rightarrow> 16 word \<Rightarrow> char32" where
  "surrogate_value h l = (ucast h - 0xD800) * 0x400 + (ucast l - 0xDC00) + 0x10000"

section \<open>The UTF-16 codec\<close>

text \<open>
  Encoding: a code point below U+10000 is one code unit; above it, \<open>c - 0x10000\<close> is
  split into its high ten bits (\<open>>> 10\<close>, plus 0xD800) and its low ten bits
  (\<open>& 0x3FF\<close>, plus 0xDC00).
\<close>

fun utf16_encode :: "gstring \<Rightarrow> utf16" where
  "utf16_encode [] = []"
| "utf16_encode (c # cs) =
     (if c < 0x10000 then ucast c # utf16_encode cs
      else (ucast (drop_bit 10 (c - 0x10000)) + 0xD800)
           # (ucast ((c - 0x10000) AND 0x3FF) + 0xDC00)
           # utf16_encode cs)"

text \<open>
  Decoding: a high surrogate must be followed by a low one, and the pair is the code
  point \<open>surrogate_value h l\<close>; a lone surrogate of either
  kind, or a high surrogate at the end, makes the sequence ill-formed (\<open>None\<close>).
\<close>

fun utf16_decode :: "utf16 \<Rightarrow> gstring option" where
  "utf16_decode [] = Some []"
| "utf16_decode [u] = (if 0xD800 \<le> u \<and> u \<le> 0xDFFF then None else Some [ucast u])"
| "utf16_decode (u # u2 # us) =
     (if 0xD800 \<le> u \<and> u \<le> 0xDBFF then
        (if 0xDC00 \<le> u2 \<and> u2 \<le> 0xDFFF
         then map_option (Cons (surrogate_value u u2)) (utf16_decode us)
         else None)
      else if 0xDC00 \<le> u \<and> u \<le> 0xDFFF then None
      else map_option (Cons (ucast u)) (utf16_decode (u2 # us)))"

section \<open>The marshaling functions\<close>

definition mono_string_to_godot :: "mono_string \<Rightarrow> gstring" where
  "mono_string_to_godot ms =
     (case ms of
        None \<Rightarrow> []
      | Some us \<Rightarrow>
          (case utf16_decode us of
             None \<Rightarrow> []
           | Some s \<Rightarrow> takeWhile (\<lambda>c. c \<noteq> 0) s))"

definition mono_string_from_godot :: "gstring \<Rightarrow> mono_string" where
  "mono_string_from_godot s =
     (let s' = takeWhile (\<lambda>c. c \<noteq> 0) s
      in if list_all is_scalar_value s' then Some (utf16_encode s') else None)"

text \<open>A text the engine can hand back unchanged: scalar values, and no U+0000.\<close>

definition text_ok :: "gstring \<Rightarrow> bool" where
  "text_ok s \<longleftrightarrow> list_all is_scalar_value s \<and> 0 \<notin> set s"

section \<open>Properties of the codec\<close>

lemma utf16_decode_bmp:
  "\<not> (0xD800 \<le> u \<and> u \<le> 0xDFFF) \<Longrightarrow> utf16_decode (u # us) = map_option (Cons (ucast u)) (utf16_decode us)"
  by (cases us) (auto simp: word_le_unat)

lemma bmp_scalar:
  assumes "is_scalar_value c" "c < 0x10000"
  shows "\<not> (0xD800 \<le> (ucast c :: 16 word) \<and> (ucast c :: 16 word) \<le> 0xDFFF)"
    and "ucast (ucast c :: 16 word) = c"
proof -
  have u: "unat (ucast c :: 16 word) = unat c" using assms(2) by (simp add: unat_ucast_32_16 word_le_unat)
  have "\<not> (55296 \<le> unat c \<and> unat c \<le> 57343)" using assms(1) by (simp add: is_scalar_value_def word_le_unat)
  then show "\<not> (0xD800 \<le> (ucast c :: 16 word) \<and> (ucast c :: 16 word) \<le> 0xDFFF)"
    using u by (simp add: word_le_unat)
  show "ucast (ucast c :: 16 word) = c" using u by (simp add: word_unat_eq_iff unat_ucast_16_32)
qed

lemma unit_scalar:
  assumes "\<not> (0xD800 \<le> u \<and> u \<le> 0xDFFF)"
  shows "is_scalar_value (ucast (u :: 16 word))" and "(ucast u :: 32 word) < 0x10000"
    and "ucast (ucast u :: 32 word) = u"
proof -
  have u: "unat (ucast u :: 32 word) = unat u" by (rule unat_ucast_16_32)
  have lt: "unat u < 65536" using unsigned_less[of u] by simp
  show "(ucast u :: 32 word) < 0x10000" using u lt by (simp add: word_le_unat)
  show "is_scalar_value (ucast u)" using u lt assms by (simp add: is_scalar_value_def word_le_unat)
  show "ucast (ucast u :: 32 word) = u" using u lt by (simp add: word_unat_eq_iff unat_ucast_32_16)
qed

lemma unat_surrogate_value:
  fixes h l :: "16 word"
  assumes "0xD800 \<le> h" "h \<le> 0xDBFF" "0xDC00 \<le> l" "l \<le> 0xDFFF"
  shows "unat (surrogate_value h l)
         = (unat h - 55296) * 1024 + (unat l - 56320) + 65536"
proof -
  have h1: "55296 \<le> unat h" "unat h \<le> 56319" using assms(1,2) by (simp_all add: word_le_unat)
  have l1: "56320 \<le> unat l" "unat l \<le> 57343" using assms(3,4) by (simp_all add: word_le_unat)
  define A where "A = (ucast h - 0xD800 :: 32 word)"
  define B where "B = (ucast l - 0xDC00 :: 32 word)"
  have a: "unat A = unat h - 55296"
    using h1 unat_minus_const[of 55296 "ucast h :: 32 word"] by (simp add: A_def unat_ucast_16_32)
  have b: "unat B = unat l - 56320"
    using l1 unat_minus_const[of 56320 "ucast l :: 32 word"] by (simp add: B_def unat_ucast_16_32)
  have "unat (A * 0x400 + B + 0x10000) = unat A * 1024 + unat B + 65536"
    using a b h1 l1 by (simp add: unat_word_ariths)
  then show ?thesis using a b by (simp add: A_def B_def surrogate_value_def)
qed

lemma surrogate_pair_scalar:
  fixes h l :: "16 word"
  assumes "0xD800 \<le> h" "h \<le> 0xDBFF" "0xDC00 \<le> l" "l \<le> 0xDFFF"
  shows "is_scalar_value (surrogate_value h l)"
    and "\<not> surrogate_value h l < 0x10000"
proof -
  have h1: "55296 \<le> unat h" "unat h \<le> 56319" using assms(1,2) by (simp_all add: word_le_unat)
  have l1: "56320 \<le> unat l" "unat l \<le> 57343" using assms(3,4) by (simp_all add: word_le_unat)
  note u = unat_surrogate_value[OF assms]
  show "is_scalar_value (surrogate_value h l)"
    using u h1 l1 by (simp add: is_scalar_value_def word_le_unat)
  show "\<not> surrogate_value h l < 0x10000"
    using u by (simp add: word_le_unat)
qed

lemma surrogate_pair_encode:
  fixes h l :: "16 word"
  assumes "0xD800 \<le> h" "h \<le> 0xDBFF" "0xDC00 \<le> l" "l \<le> 0xDFFF"
  defines "c \<equiv> surrogate_value h l"
  shows "ucast (drop_bit 10 (c - 0x10000)) + 0xD800 = h"
    and "ucast ((c - 0x10000) AND 0x3FF) + 0xDC00 = l"
proof -
  have h1: "55296 \<le> unat h" "unat h \<le> 56319" using assms(1,2) by (simp_all add: word_le_unat)
  have l1: "56320 \<le> unat l" "unat l \<le> 57343" using assms(3,4) by (simp_all add: word_le_unat)
  define H where "H = unat h - 55296"
  define L where "L = unat l - 56320"
  have HL: "H < 1024" "L < 1024" using h1 l1 by (simp_all add: H_def L_def)
  have v: "unat (c - 0x10000) = H * 1024 + L"
    using unat_surrogate_value[OF assms(1-4)] unat_minus_const[of 65536 c]
    by (simp add: H_def L_def c_def)
  have d: "unat (c - 0x10000) div 1024 = H" and m: "unat (c - 0x10000) mod 1024 = L"
    using v HL by simp_all
  have "unat (ucast (drop_bit 10 (c - 0x10000)) + (0xD800 :: 16 word)) = unat h"
    using d h1 HL by (simp add: unat_word_ariths unat_ucast_32_16 unat_drop_bit_10 H_def)
  then show "ucast (drop_bit 10 (c - 0x10000)) + 0xD800 = h" by (simp add: word_unat_eq_iff)
  have "unat (ucast ((c - 0x10000) AND 0x3FF) + (0xDC00 :: 16 word)) = unat l"
    using m l1 HL by (simp add: unat_word_ariths unat_ucast_32_16 unat_and_0x3FF L_def)
  then show "ucast ((c - 0x10000) AND 0x3FF) + 0xDC00 = l" by (simp add: word_unat_eq_iff)
qed

lemma supplementary_split:
  assumes "is_scalar_value c" "\<not> c < 0x10000"
  defines "h \<equiv> ucast (drop_bit 10 (c - 0x10000)) + (0xD800 :: 16 word)"
      and "l \<equiv> ucast ((c - 0x10000) AND 0x3FF) + (0xDC00 :: 16 word)"
  shows "0xD800 \<le> h" "h \<le> 0xDBFF" "0xDC00 \<le> l" "l \<le> 0xDFFF"
    and "surrogate_value h l = c"
proof -
  have c1: "65536 \<le> unat c" "unat c < 1114112"
    using assms(1,2) by (simp_all add: is_scalar_value_def word_le_unat)
  have v: "unat (c - 0x10000) = unat c - 65536"
    using c1 unat_minus_const[of 65536 c] by simp
  have hd: "unat (drop_bit 10 (c - 0x10000)) < 1024" using v c1 by (simp add: unat_drop_bit_10)
  have ld: "unat ((c - 0x10000) AND 0x3FF) < 1024" by (simp add: unat_and_0x3FF)
  have uh: "unat h = (unat c - 65536) div 1024 + 55296"
    using hd v by (simp add: h_def unat_word_ariths unat_ucast_32_16 unat_drop_bit_10)
  have ul: "unat l = (unat c - 65536) mod 1024 + 56320"
    using ld v by (simp add: l_def unat_word_ariths unat_ucast_32_16 unat_and_0x3FF)
  have r: "(unat c - 65536) div 1024 < 1024" using c1 by simp
  show h2: "0xD800 \<le> h" "h \<le> 0xDBFF" using uh r by (simp_all add: word_le_unat)
  show l2: "0xDC00 \<le> l" "l \<le> 0xDFFF" using ul by (simp_all add: word_le_unat)
  have "unat (surrogate_value h l) = unat c"
    using unat_surrogate_value[OF h2 l2] uh ul c1 by simp
  then show "surrogate_value h l = c"
    by (simp add: word_unat_eq_iff)
qed


lemma utf16_decode_pair:
  fixes h l :: "16 word"
  assumes "0xD800 \<le> h" "h \<le> 0xDBFF" "0xDC00 \<le> l" "l \<le> 0xDFFF"
  shows "utf16_decode (h # l # us) =
           map_option (Cons (surrogate_value h l)) (utf16_decode us)"
  using assms by simp

lemma utf16_decode_encode:
  "list_all is_scalar_value s \<Longrightarrow> utf16_decode (utf16_encode s) = Some s"
proof (induction s)
  case Nil
  then show ?case by simp
next
  case (Cons c cs)
  then have c: "is_scalar_value c" and IH: "utf16_decode (utf16_encode cs) = Some cs" by simp_all
  show ?case
  proof (cases "c < 0x10000")
    case True
    then show ?thesis using bmp_scalar[OF c True] IH by (simp add: utf16_decode_bmp)
  next
    case False
    note sp = supplementary_split[OF c False]
    show ?thesis using False IH
      by (simp add: utf16_decode_pair[OF sp(1-4)] sp(5) del: utf16_decode.simps)
  qed
qed

lemma utf16_encode_decode:
  "utf16_decode us = Some s \<Longrightarrow> utf16_encode s = us"
proof (induction us arbitrary: s rule: utf16_decode.induct)
  case 1
  then show ?case by simp
next
  case (2 u)
  then show ?case by (auto simp: unit_scalar split: if_splits)
next
  case (3 u u2 us)
  show ?case
  proof (cases "0xD800 \<le> u \<and> u \<le> 0xDBFF")
    case True
    with "3.prems" have l: "0xDC00 \<le> u2 \<and> u2 \<le> 0xDFFF" by (auto split: if_splits)
    with True "3.prems" obtain s' where s': "utf16_decode us = Some s'"
      and s: "s = (surrogate_value u u2) # s'" by auto
    have "utf16_encode s' = us" using "3.IH"(1)[OF True l s'] .
    then show ?thesis using True l
      by (simp add: s surrogate_pair_scalar(2) surrogate_pair_encode)
  next
    case False
    with "3.prems" have nl: "\<not> (0xDC00 \<le> u \<and> u \<le> 0xDFFF)" by (auto split: if_splits)
    with False have ns: "\<not> (0xD800 \<le> u \<and> u \<le> 0xDFFF)" by (auto simp: word_le_unat)
    with False nl "3.prems" obtain s' where s': "utf16_decode (u2 # us) = Some s'"
      and s: "s = ucast u # s'" by auto
    have "utf16_encode s' = u2 # us" using "3.IH"(2)[OF False nl s'] .
    then show ?thesis by (simp add: s unit_scalar[OF ns])
  qed
qed

lemma utf16_decode_scalar:
  "utf16_decode us = Some s \<Longrightarrow> list_all is_scalar_value s"
proof (induction us arbitrary: s rule: utf16_decode.induct)
  case 1
  then show ?case by simp
next
  case (2 u)
  then show ?case by (auto simp: unit_scalar split: if_splits)
next
  case (3 u u2 us)
  then show ?case
    by (auto simp: unit_scalar surrogate_pair_scalar word_le_unat split: if_splits)
qed


lemma utf16_encode_zero:
  "list_all is_scalar_value s \<Longrightarrow> (0 \<in> set (utf16_encode s)) = (0 \<in> set s)"
proof (induction s)
  case Nil
  then show ?case by simp
next
  case (Cons c cs)
  then have c: "is_scalar_value c" and IH: "(0 \<in> set (utf16_encode cs)) = (0 \<in> set cs)" by simp_all
  show ?case
  proof (cases "c < 0x10000")
    case True
    have "(ucast c = (0 :: 16 word)) = (c = 0)"
      using bmp_scalar(2)[OF c True] by (metis ucast_0)
    then show ?thesis using True IH by auto
  next
    case False
    note sp = supplementary_split[OF c False]
    have "ucast (drop_bit 10 (c - 0x10000)) + (0xD800 :: 16 word) \<noteq> 0"
      using sp(1) by (auto simp: word_le_unat)
    moreover have "ucast ((c - 0x10000) AND 0x3FF) + (0xDC00 :: 16 word) \<noteq> 0"
      using sp(3) by (auto simp: word_le_unat)
    moreover have "c \<noteq> 0" using False by auto
    ultimately show ?thesis using False IH by auto
  qed
qed

lemma mono_string_roundtrip:
  assumes "utf16_decode us = Some s" and "0 \<notin> set us"
  shows "mono_string_from_godot (mono_string_to_godot (Some us)) = Some us"
proof -
  have sc: "list_all is_scalar_value s" using assms(1) by (rule utf16_decode_scalar)
  have e: "utf16_encode s = us" using assms(1) by (rule utf16_encode_decode)
  have "0 \<notin> set s" using assms(2) utf16_encode_zero[OF sc] e by simp
  then have tw: "takeWhile (\<lambda>c. c \<noteq> 0) s = s" by (auto simp: takeWhile_eq_all_conv)
  show ?thesis using assms(1) sc e
    by (simp add: mono_string_to_godot_def mono_string_from_godot_def tw)
qed

lemma godot_string_roundtrip:
  assumes "list_all is_scalar_value s" and "0 \<notin> set s"
  shows "mono_string_to_godot (mono_string_from_godot s) = s"
proof -
  have tw: "takeWhile (\<lambda>c. c \<noteq> 0) s = s" using assms(2) by (auto simp: takeWhile_eq_all_conv)
  show ?thesis using assms(1)
    by (simp add: mono_string_to_godot_def mono_string_from_godot_def utf16_decode_encode tw)
qed

lemma mono_string_to_godot_truncates: "mono_string_to_godot (Some [0x41, 0, 0x42]) = [0x41]"
  by (simp add: mono_string_to_godot_def)

lemma mono_string_to_godot_lone_surrogate: "mono_string_to_godot (Some [0xD800, 0x41]) = []"
  by (simp add: mono_string_to_godot_def)

lemma utf16_encode_length:
  "length s \<le> length (utf16_encode s) \<and> length (utf16_encode s) \<le> 2 * length s"
  by (induction s) auto

text \<open>What the engine receives: scalar values only, and the empty text for ill-formed UTF-16.\<close>

lemma mono_string_to_godot_scalar: "list_all is_scalar_value (mono_string_to_godot m)"
proof -
  have "list_all is_scalar_value (takeWhile (\<lambda>c. c \<noteq> 0) s)" if "list_all is_scalar_value s" for s
    using that by (auto simp: list_all_iff dest: set_takeWhileD)
  then show ?thesis using utf16_decode_scalar
    by (auto simp: mono_string_to_godot_def split: option.splits)
qed

lemma mono_string_to_godot_ill_formed: "utf16_decode us = None \<Longrightarrow> mono_string_to_godot (Some us) = []"
  by (simp add: mono_string_to_godot_def)

lemma scalar_unat:
  "is_scalar_value c \<longleftrightarrow> unat c < 0x110000 \<and> (unat c < 0xD800 \<or> 0xDFFF < unat c)"
  by (auto simp: is_scalar_value_def word_le_unat)

lemma text_ok_conv: "text_ok (mono_string_to_godot m)"
proof -
  have "0 \<notin> set (takeWhile (\<lambda>c. c \<noteq> 0) s)" for s :: gstring
    by (auto dest: set_takeWhileD)
  then have "0 \<notin> set (mono_string_to_godot m)"
    by (simp add: mono_string_to_godot_def split: option.splits)
  then show ?thesis using mono_string_to_godot_scalar by (simp add: text_ok_def)
qed

lemma text_ok_Nil: "text_ok []"
  by (simp add: text_ok_def)

end
