(* ===== verification/StringName.thy ===== *)
theory StringName
  imports Prelude "HOL-Library.Multiset"
begin

text \<open>
  The engine's string interning, \<open>core/string/string_name.cpp\<close>, which the glue calls
  and which is not part of this repository; modelled from the spec's data model
  ("an opaque reference to a deduplicated, immutable string value held in a
  process-wide interning table; equality is by value, not by address") in the shape the
  engine gives it. A \<open>StringName\<close> is its \<open>_data\<close> pointer, null for the empty name;
  \<open>_data\<close> points at a \<open>_Data\<close> node holding the text and a reference count; the
  nodes are kept in the table \<open>_table\<close>, a new node linked in at the head of its
  chain and unlinked when its count drops to zero. The hash buckets are merged into one
  chain: as no two nodes hold the same text, the bucket index changes the cost of a
  lookup and not its result (\<open>StringName_Table\<close> models the buckets and proves the merge
  sound). The table's mutex is not modelled (the calls of the model
  are atomic), nor the static \<open>cname\<close> names of engine-internal names.
\<close>

section \<open>Data\<close>

record sn_data =
  sd_name :: gstring
  sd_refcount :: nat

record sn_state = alloc_state +
  sn_table :: "(addr \<times> sn_data) list"

type_synonym string_name = "addr option"

section \<open>Operations\<close>

text \<open>The scan of a chain for a node holding the text (\<open>_data->get_name() == p_name\<close>).\<close>

fun sn_lookup :: "gstring \<Rightarrow> (addr \<times> sn_data) list \<Rightarrow> (addr \<times> sn_data) option" where
  "sn_lookup s [] = None"
| "sn_lookup s ((d, e) # t) = (if sd_name e = s then Some (d, e) else sn_lookup s t)"

text \<open>An in-place change of the node at \<open>d\<close> (\<open>refcount.ref()\<close>, \<open>refcount.unref()\<close>).\<close>

definition update_node :: "addr \<Rightarrow> ('e \<Rightarrow> 'e) \<Rightarrow> (addr \<times> 'e) list \<Rightarrow> (addr \<times> 'e) list" where
  "update_node d f t = map (\<lambda>(a, e). if a = d then (a, f e) else (a, e)) t"

text \<open>
  \<open>StringName(const String &)\<close>: the empty text is the null name; otherwise a node
  holding the text whose count can still be raised is shared, and else a new node with
  count one is allocated and linked in at the head of the table.
\<close>

definition string_name_from_string :: "gstring \<Rightarrow> 'a sn_state_scheme \<Rightarrow> string_name \<times> 'a sn_state_scheme" where
  "string_name_from_string s st =
     (if s = [] then (None, st)
      else
        (let fresh = (let (d, st') = memnew st
                      in (Some d, st'\<lparr>sn_table := (d, \<lparr>sd_name = s, sd_refcount = 1\<rparr>) # sn_table st'\<rparr>))
         in case sn_lookup s (sn_table st) of
              Some (d, e) \<Rightarrow>
                (if sd_refcount e \<noteq> 0
                 then (Some d, st\<lparr>sn_table := update_node d (\<lambda>e. e\<lparr>sd_refcount := Suc (sd_refcount e)\<rparr>) (sn_table st)\<rparr>)
                 else fresh)
            | None \<Rightarrow> fresh))"

text \<open>
  \<open>StringName(const StringName &)\<close>: share the node if the count can be raised, else
  become the null name. Reading the count of a node that is no longer in the table is
  undefined behaviour, \<open>None\<close>.
\<close>

definition string_name_copy :: "string_name \<Rightarrow> 'a sn_state_scheme \<Rightarrow> (string_name \<times> 'a sn_state_scheme) option" where
  "string_name_copy n st =
     (case n of
        None \<Rightarrow> Some (None, st)
      | Some d \<Rightarrow>
          (case map_of (sn_table st) d of
             None \<Rightarrow> None
           | Some e \<Rightarrow>
               (if sd_refcount e \<noteq> 0
                then Some (Some d, st\<lparr>sn_table := update_node d (\<lambda>e. e\<lparr>sd_refcount := Suc (sd_refcount e)\<rparr>) (sn_table st)\<rparr>)
                else Some (None, st))))"

text \<open>
  \<open>StringName::unref()\<close>, run by the destructor: drop one reference; the last one
  unlinks the node from the table and deletes it.
\<close>

definition string_name_unref :: "string_name \<Rightarrow> 'a sn_state_scheme \<Rightarrow> 'a sn_state_scheme option" where
  "string_name_unref n st =
     (case n of
        None \<Rightarrow> Some st
      | Some d \<Rightarrow>
          (case map_of (sn_table st) d of
             None \<Rightarrow> None
           | Some e \<Rightarrow>
               (if sd_refcount e = 1
                then Some (st\<lparr>sn_table := filter (\<lambda>(a, _). a \<noteq> d) (sn_table st)\<rparr>)
                else Some (st\<lparr>sn_table := update_node d (\<lambda>e. e\<lparr>sd_refcount := sd_refcount e - 1\<rparr>) (sn_table st)\<rparr>))))"

text \<open>\<open>StringName::operator String()\<close>: the null name reads as the empty String.\<close>

definition string_name_to_string :: "string_name \<Rightarrow> 'a sn_state_scheme \<Rightarrow> gstring option" where
  "string_name_to_string n st =
     (case n of
        None \<Rightarrow> Some []
      | Some d \<Rightarrow> map_option sd_name (map_of (sn_table st) d))"

text \<open>\<open>StringName::operator==\<close>: the comparison of the \<open>_data\<close> pointers.\<close>

definition string_name_eq :: "string_name \<Rightarrow> string_name \<Rightarrow> bool" where
  "string_name_eq n1 n2 \<longleftrightarrow> n1 = n2"

section \<open>The table invariant\<close>

text \<open>
  Node addresses are distinct, allocated and non-null; no two nodes hold the same text;
  no node holds the empty text (that is the null name); every node in the table has a
  positive count (a node whose count reached zero was unlinked).
\<close>

definition sn_table_ok :: "'a sn_state_scheme \<Rightarrow> bool" where
  "sn_table_ok st \<longleftrightarrow>
     distinct (map fst (sn_table st)) \<and> distinct (map (sd_name \<circ> snd) (sn_table st)) \<and>
     (\<forall>(d, e) \<in> set (sn_table st). 0 < d \<and> d < next_addr st \<and> sd_name e \<noteq> [] \<and> 0 < sd_refcount e)"

text \<open>
  The abstract view of the table: the multiset of the texts of all live references, a
  node with count \<open>k\<close> contributing its text \<open>k\<close> times.
\<close>

definition sn_interned :: "'a sn_state_scheme \<Rightarrow> gstring multiset" where
  "sn_interned st = mset (concat (map (\<lambda>(d, e). replicate (sd_refcount e) (sd_name e)) (sn_table st)))"

definition sn_valid :: "'a sn_state_scheme \<Rightarrow> string_name \<Rightarrow> bool" where
  "sn_valid st n \<longleftrightarrow> (case n of None \<Rightarrow> True | Some d \<Rightarrow> d \<in> fst ` set (sn_table st))"

definition sn_text :: "'a sn_state_scheme \<Rightarrow> string_name \<Rightarrow> gstring multiset" where
  "sn_text st n = (case string_name_to_string n st of Some s \<Rightarrow> (if s = [] then {#} else {#s#}) | None \<Rightarrow> {#})"

section \<open>Properties of the table operations\<close>

lemma map_fst_update_node [simp]: "map fst (update_node d f t) = map fst t"
  by (induction t) (auto simp: update_node_def)

lemma keys_update_node [simp]: "fst ` set (update_node d f t) = fst ` set t"
  by (metis list.set_map map_fst_update_node)

lemma names_update_node [simp]:
  "(\<And>e. sd_name (f e) = sd_name e) \<Longrightarrow> map (sd_name \<circ> snd) (update_node d f t) = map (sd_name \<circ> snd) t"
  by (induction t) (auto simp: update_node_def)

lemma map_of_update_node [simp]:
  "map_of (update_node d f t) a = (if a = d then map_option f (map_of t a) else map_of t a)"
  by (induction t) (auto simp: update_node_def)

lemma set_update_node:
  "(a, e) \<in> set (update_node d f t) \<longleftrightarrow> (\<exists>e0. (a, e0) \<in> set t \<and> e = (if a = d then f e0 else e0))"
  by (induction t) (auto simp: update_node_def split: if_splits)

lemma sn_lookup_Some: "sn_lookup s t = Some (d, e) \<Longrightarrow> (d, e) \<in> set t \<and> sd_name e = s"
  by (induction s t rule: sn_lookup.induct) (auto split: if_splits)

lemma sn_lookup_None: "sn_lookup s t = None \<longleftrightarrow> (\<forall>(d, e) \<in> set t. sd_name e \<noteq> s)"
  by (induction s t rule: sn_lookup.induct) auto

lemma sn_lookup_unique:
  "distinct (map (sd_name \<circ> snd) t) \<Longrightarrow> (d, e) \<in> set t \<Longrightarrow> sn_lookup (sd_name e) t = Some (d, e)"
proof (induction t)
  case Nil
  then show ?case by simp
next
  case (Cons x t)
  obtain a e0 where x: "x = (a, e0)" by (cases x)
  show ?case
  proof (cases "(d, e) = x")
    case True
    then show ?thesis using x by simp
  next
    case False
    with Cons.prems x have "(d, e) \<in> set t" and "sd_name e0 \<noteq> sd_name e"
      by (auto simp: image_iff)
    with Cons.IH Cons.prems x show ?thesis by simp
  qed
qed

lemma sn_table_okD:
  assumes "sn_table_ok st" "(d, e) \<in> set (sn_table st)"
  shows "0 < d" "d < next_addr st" "sd_name e \<noteq> []" "0 < sd_refcount e"
  using assms by (auto simp: sn_table_ok_def)

lemma sn_table_ok_map_of:
  "sn_table_ok st \<Longrightarrow> map_of (sn_table st) d = Some e \<longleftrightarrow> (d, e) \<in> set (sn_table st)"
  by (simp add: sn_table_ok_def map_of_eq_Some_iff)


abbreviation node_text :: "(addr \<times> sn_data) \<Rightarrow> gstring list" where
  "node_text x \<equiv> replicate (sd_refcount (snd x)) (sd_name (snd x))"

lemma update_node_absent: "d \<notin> fst ` set t \<Longrightarrow> update_node d f t = t"
  by (induction t) (auto simp: update_node_def)

lemma node_text_split: "(\<lambda>(d, e). replicate (sd_refcount e) (sd_name e)) = node_text"
  by (simp add: fun_eq_iff split_def)

lemma mset_update_node_inc:
  assumes "distinct (map fst t)" "(d, e) \<in> set t"
  shows "mset (concat (map node_text (update_node d (\<lambda>e. e\<lparr>sd_refcount := Suc (sd_refcount e)\<rparr>) t)))
         = mset (concat (map node_text t)) + {#sd_name e#}"
  using assms
proof (induction t)
  case Nil
  then show ?case by simp
next
  case (Cons x t)
  obtain a e0 where x: "x = (a, e0)" by (cases x)
  show ?case
  proof (cases "a = d")
    case True
    with Cons.prems x have "d \<notin> fst ` set t" and "e0 = e" by (auto simp: image_iff)
    then show ?thesis using True x by (simp add: update_node_def update_node_absent[unfolded update_node_def])
  next
    case False
    with Cons.prems x have "(d, e) \<in> set t" "distinct (map fst t)" by auto
    with Cons.IH False x show ?thesis by (simp add: update_node_def)
  qed
qed


lemma mset_update_node_dec:
  assumes "distinct (map fst t)" "(d, e) \<in> set t" "0 < sd_refcount e"
  shows "mset (concat (map node_text t))
         = mset (concat (map node_text (update_node d (\<lambda>e. e\<lparr>sd_refcount := sd_refcount e - 1\<rparr>) t)))
           + {#sd_name e#}"
  using assms
proof (induction t)
  case Nil
  then show ?case by simp
next
  case (Cons x t)
  obtain a e0 where x: "x = (a, e0)" by (cases x)
  show ?case
  proof (cases "a = d")
    case True
    with Cons.prems x have "d \<notin> fst ` set t" and "e0 = e" by (auto simp: image_iff)
    moreover have "replicate (sd_refcount e) (sd_name e) = sd_name e # replicate (sd_refcount e - 1) (sd_name e)"
      using Cons.prems(3) by (cases "sd_refcount e") simp_all
    ultimately show ?thesis using True x by (simp add: update_node_def update_node_absent[unfolded update_node_def])
  next
    case False
    with Cons.prems x have "(d, e) \<in> set t" "distinct (map fst t)" by auto
    with Cons.IH Cons.prems(3) False x show ?thesis by (simp add: update_node_def)
  qed
qed

lemma mset_filter_node:
  assumes "distinct (map fst t)" "(d, e) \<in> set t" "sd_refcount e = 1"
  shows "mset (concat (map node_text t)) = mset (concat (map node_text (filter (\<lambda>(a, _). a \<noteq> d) t))) + {#sd_name e#}"
  using assms
proof (induction t)
  case Nil
  then show ?case by simp
next
  case (Cons x t)
  obtain a e0 where x: "x = (a, e0)" by (cases x)
  show ?case
  proof (cases "a = d")
    case True
    with Cons.prems x have "d \<notin> fst ` set t" and "e0 = e" by (auto simp: image_iff)
    moreover have "filter (\<lambda>(a, _). a \<noteq> d) t = t" using calculation(1) by (force simp: filter_id_conv)
    ultimately show ?thesis using True x Cons.prems(3) by simp
  next
    case False
    with Cons.prems x have "(d, e) \<in> set t" "distinct (map fst t)" by auto
    with Cons.IH Cons.prems(3) False x show ?thesis by simp
  qed
qed


abbreviation inc_node :: "sn_data \<Rightarrow> sn_data" where
  "inc_node e \<equiv> e\<lparr>sd_refcount := Suc (sd_refcount e)\<rparr>"

abbreviation dec_node :: "sn_data \<Rightarrow> sn_data" where
  "dec_node e \<equiv> e\<lparr>sd_refcount := sd_refcount e - 1\<rparr>"

lemma from_string_empty [simp]: "string_name_from_string [] st = (None, st)"
  by (simp add: string_name_from_string_def)

lemma from_string_found:
  assumes "sn_table_ok st" "(d, e) \<in> set (sn_table st)" "sd_name e = s"
  shows "string_name_from_string s st = (Some d, st\<lparr>sn_table := update_node d inc_node (sn_table st)\<rparr>)"
proof -
  have "s \<noteq> []" "0 < sd_refcount e" using sn_table_okD[OF assms(1,2)] assms(3) by simp_all
  moreover have "sn_lookup s (sn_table st) = Some (d, e)"
    using sn_lookup_unique[OF _ assms(2)] assms(1,3) by (simp add: sn_table_ok_def)
  ultimately show ?thesis by (simp add: string_name_from_string_def)
qed

lemma from_string_fresh:
  assumes "s \<noteq> []" "\<forall>(d, e) \<in> set (sn_table st). sd_name e \<noteq> s"
  shows "string_name_from_string s st =
           (Some (next_addr st), st\<lparr>next_addr := Suc (next_addr st),
              sn_table := (next_addr st, \<lparr>sd_name = s, sd_refcount = 1\<rparr>) # sn_table st\<rparr>)"
proof -
  have "sn_lookup s (sn_table st) = None" using assms(2) by (simp add: sn_lookup_None)
  then show ?thesis using assms(1) by (simp add: string_name_from_string_def memnew_def)
qed

lemma copy_null [simp]: "string_name_copy None st = Some (None, st)"
  by (simp add: string_name_copy_def)

lemma table_map_of:
  "sn_table_ok st \<Longrightarrow> (d, e) \<in> set (sn_table st) \<Longrightarrow> map_of (sn_table st) d = Some e"
  by (simp add: sn_table_ok_map_of)

lemma table_map_of_None: "d \<notin> fst ` set (sn_table st) \<Longrightarrow> map_of (sn_table st) d = None"
  by (simp add: map_of_eq_None_iff)

lemma copy_node:
  assumes "sn_table_ok st" "(d, e) \<in> set (sn_table st)"
  shows "string_name_copy (Some d) st = Some (Some d, st\<lparr>sn_table := update_node d inc_node (sn_table st)\<rparr>)"
  using table_map_of[OF assms] sn_table_okD(4)[OF assms] by (simp add: string_name_copy_def)

lemma copy_dangling: "d \<notin> fst ` set (sn_table st) \<Longrightarrow> string_name_copy (Some d) st = None"
  by (simp add: string_name_copy_def table_map_of_None)

lemma unref_null [simp]: "string_name_unref None st = Some st"
  by (simp add: string_name_unref_def)

lemma unref_last:
  assumes "sn_table_ok st" "(d, e) \<in> set (sn_table st)" "sd_refcount e = 1"
  shows "string_name_unref (Some d) st = Some (st\<lparr>sn_table := filter (\<lambda>(a, _). a \<noteq> d) (sn_table st)\<rparr>)"
  using table_map_of[OF assms(1,2)] assms(3) by (simp add: string_name_unref_def)

lemma unref_shared:
  assumes "sn_table_ok st" "(d, e) \<in> set (sn_table st)" "sd_refcount e \<noteq> 1"
  shows "string_name_unref (Some d) st = Some (st\<lparr>sn_table := update_node d dec_node (sn_table st)\<rparr>)"
  using table_map_of[OF assms(1,2)] assms(3) by (simp add: string_name_unref_def)

lemma unref_dangling: "d \<notin> fst ` set (sn_table st) \<Longrightarrow> string_name_unref (Some d) st = None"
  by (simp add: string_name_unref_def table_map_of_None)

lemma to_string_node:
  "sn_table_ok st \<Longrightarrow> (d, e) \<in> set (sn_table st) \<Longrightarrow> string_name_to_string (Some d) st = Some (sd_name e)"
  by (simp add: string_name_to_string_def table_map_of)

lemma to_string_dangling: "d \<notin> fst ` set (sn_table st) \<Longrightarrow> string_name_to_string (Some d) st = None"
  by (simp add: string_name_to_string_def table_map_of_None)

subsection \<open>The invariant is kept\<close>

lemma sn_table_ok_next:
  "sn_table_ok st \<Longrightarrow> next_addr st \<le> n \<Longrightarrow> sn_table_ok (st\<lparr>next_addr := n\<rparr>)"
  unfolding sn_table_ok_def by fastforce

lemma sn_table_ok_update:
  assumes "sn_table_ok st" "\<And>e. sd_name (f e) = sd_name e"
    and "\<And>e. (d, e) \<in> set (sn_table st) \<Longrightarrow> 0 < sd_refcount (f e)"
  shows "sn_table_ok (st\<lparr>sn_table := update_node d f (sn_table st)\<rparr>)"
  unfolding sn_table_ok_def
proof (intro conjI)
  show "distinct (map fst (sn_table (st\<lparr>sn_table := update_node d f (sn_table st)\<rparr>)))"
    using assms(1) by (simp add: sn_table_ok_def)
  show "distinct (map (sd_name \<circ> snd) (sn_table (st\<lparr>sn_table := update_node d f (sn_table st)\<rparr>)))"
    using assms(1,2) by (simp add: sn_table_ok_def)
  show "\<forall>(a, e) \<in> set (sn_table (st\<lparr>sn_table := update_node d f (sn_table st)\<rparr>)).
          0 < a \<and> a < next_addr (st\<lparr>sn_table := update_node d f (sn_table st)\<rparr>) \<and> sd_name e \<noteq> [] \<and> 0 < sd_refcount e"
  proof (clarify)
    fix a e
    assume "(a, e) \<in> set (sn_table (st\<lparr>sn_table := update_node d f (sn_table st)\<rparr>))"
    then obtain e0 where e0: "(a, e0) \<in> set (sn_table st)" "e = (if a = d then f e0 else e0)"
      by (auto simp: set_update_node)
    show "0 < a \<and> a < next_addr (st\<lparr>sn_table := update_node d f (sn_table st)\<rparr>) \<and> sd_name e \<noteq> [] \<and> 0 < sd_refcount e"
      using sn_table_okD[OF assms(1) e0(1)] assms(2,3) e0 by auto
  qed
qed

lemma sn_table_ok_inc:
  "sn_table_ok st \<Longrightarrow> sn_table_ok (st\<lparr>sn_table := update_node d inc_node (sn_table st)\<rparr>)"
  by (rule sn_table_ok_update) simp_all

lemma sn_table_ok_dec:
  assumes "sn_table_ok st" "(d, e) \<in> set (sn_table st)" "sd_refcount e \<noteq> 1"
  shows "sn_table_ok (st\<lparr>sn_table := update_node d dec_node (sn_table st)\<rparr>)"
proof (rule sn_table_ok_update[OF assms(1)])
  fix e'
  assume "(d, e') \<in> set (sn_table st)"
  then have "e' = e" using assms(1,2) eq_key_imp_eq_value by (fastforce simp: sn_table_ok_def)
  then show "0 < sd_refcount (dec_node e')" using assms(3) sn_table_okD(4)[OF assms(1,2)] by simp
qed simp

lemma sn_table_ok_unlink:
  "sn_table_ok st \<Longrightarrow> sn_table_ok (st\<lparr>sn_table := filter (\<lambda>(a, _). a \<noteq> d) (sn_table st)\<rparr>)"
  unfolding sn_table_ok_def by (simp add: distinct_map_filter)

lemma sn_table_ok_fresh:
  assumes "sn_table_ok st" "s \<noteq> []" "\<forall>(d, e) \<in> set (sn_table st). sd_name e \<noteq> s" "0 < next_addr st"
  shows "sn_table_ok (st\<lparr>next_addr := Suc (next_addr st),
           sn_table := (next_addr st, \<lparr>sd_name = s, sd_refcount = 1\<rparr>) # sn_table st\<rparr>)"
proof -
  have "next_addr st \<notin> fst ` set (sn_table st)" using assms(1) by (fastforce simp: sn_table_ok_def)
  moreover have "s \<notin> (sd_name \<circ> snd) ` set (sn_table st)" using assms(3) by fastforce
  ultimately show ?thesis using assms(1,2,4) unfolding sn_table_ok_def by fastforce
qed

subsection \<open>The table as the multiset of interned texts\<close>

text \<open>
  Against \<open>sn_interned\<close>, creating or copying a name adds one occurrence of its text,
  and \<open>unref\<close> removes one: the table implements a multiset of texts.
\<close>

lemma sn_interned_eq: "sn_interned st = mset (concat (map node_text (sn_table st)))"
  by (simp add: sn_interned_def node_text_split)

lemma interned_from_string:
  assumes ok: "sn_table_ok st" and s: "s \<noteq> []"
  shows "sn_interned (snd (string_name_from_string s st)) = sn_interned st + {#s#}"
proof (cases "\<exists>(d, e) \<in> set (sn_table st). sd_name e = s")
  case True
  then obtain d e where de: "(d, e) \<in> set (sn_table st)" "sd_name e = s" by blast
  have "distinct (map fst (sn_table st))" using ok by (simp add: sn_table_ok_def)
  then show ?thesis using from_string_found[OF ok de] mset_update_node_inc[OF _ de(1)] de(2)
    by (simp add: sn_interned_eq)
next
  case False
  then have "\<forall>(d, e) \<in> set (sn_table st). sd_name e \<noteq> s" by blast
  then show ?thesis using from_string_fresh[OF s, of st] by (simp add: sn_interned_eq)
qed

lemma interned_copy:
  assumes ok: "sn_table_ok st" and de: "(d, e) \<in> set (sn_table st)"
  shows "map_option (sn_interned \<circ> snd) (string_name_copy (Some d) st) = Some (sn_interned st + {#sd_name e#})"
proof -
  have "distinct (map fst (sn_table st))" using ok by (simp add: sn_table_ok_def)
  then show ?thesis using copy_node[OF ok de] mset_update_node_inc[OF _ de] by (simp add: sn_interned_eq)
qed

lemma interned_unref:
  assumes ok: "sn_table_ok st" and de: "(d, e) \<in> set (sn_table st)"
  shows "map_option (\<lambda>st'. sn_interned st' + {#sd_name e#}) (string_name_unref (Some d) st) = Some (sn_interned st)"
proof -
  have dk: "distinct (map fst (sn_table st))" using ok by (simp add: sn_table_ok_def)
  have c: "0 < sd_refcount e" by (rule sn_table_okD(4)[OF ok de])
  show ?thesis
  proof (cases "sd_refcount e = 1")
    case True
    then show ?thesis using unref_last[OF ok de] mset_filter_node[OF dk de] by (simp add: sn_interned_eq)
  next
    case False
    then show ?thesis using unref_shared[OF ok de] mset_update_node_dec[OF dk de c] by (simp add: sn_interned_eq)
  qed
qed

text \<open>The count of a text in the multiset is the count of the one node that holds it.\<close>

lemma count_node_texts:
  "distinct (map (sd_name \<circ> snd) t) \<Longrightarrow>
   count (mset (concat (map node_text t))) s = (case sn_lookup s t of Some (d, e) \<Rightarrow> sd_refcount e | None \<Rightarrow> 0)"
proof (induction t)
  case (Cons x t)
  obtain a e where x: "x = (a, e)" by (cases x)
  show ?case
  proof (cases "sd_name e = s")
    case True
    then have "\<forall>(d, e') \<in> set t. sd_name e' \<noteq> s" using Cons.prems x by (auto simp: image_iff)
    then have "sn_lookup s t = None" by (simp add: sn_lookup_None)
    then show ?thesis using Cons x True by simp
  next
    case False
    then show ?thesis using Cons x by simp
  qed
qed simp

lemma count_interned:
  "sn_table_ok st \<Longrightarrow>
   count (sn_interned st) s = (case sn_lookup s (sn_table st) of Some (d, e) \<Rightarrow> sd_refcount e | None \<Rightarrow> 0)"
  by (simp add: sn_interned_eq count_node_texts sn_table_ok_def)

end
