(* ===== verification/Glue.thy ===== *)
theory Glue
  imports Marshal StringName
begin

text \<open>
  The glue of \<open>src/glue/string_name_glue.cpp\<close>: six native entry points that the managed
  \<open>Godot.StringName\<close> class calls with a pointer to a native \<open>StringName\<close> object.
  The state they act on is the world: the interning table and allocator (the parent
  record \<open>sn_state\<close>), the native heap of \<open>StringName\<close> objects that \<open>memnew\<close> created
  and \<open>memdelete\<close> destroys, and the log that \<open>ERR_FAIL_NULL\<close> prints to. Undefined
  behaviour of the C++ (a null or dangling dereference, a delete of a pointer that is not
  a live object) is a \<open>fault\<close>, returned as \<open>Inl\<close>: nothing after it is defined.
\<close>

section \<open>State\<close>

datatype fault = Null_Dereference | Dangling_Dereference | Dangling_Data | Invalid_Delete

text \<open>\<open>ERR_FAIL_NULL(m_param)\<close> prints \<open>Parameter "m_param" is null.\<close> for the function.\<close>

datatype err_report = Err_Param_Null string string

record world = sn_state +
  sn_heap :: "addr \<rightharpoonup> string_name"
  err_log :: "err_report list"

type_synonym 'r icall_result = "fault + ('r \<times> world)"

text \<open>
  The world is closed: it starts with an empty table and holds only the objects the glue
  creates. \<open>StringName\<close>s the engine holds itself (its static names, the names of
  classes and methods) also hold table nodes in the running program; they are not
  modelled, so an empty table in this model means that no node created through the glue
  remains, not that the engine's table is empty.
\<close>

definition init_world :: world where
  "init_world = \<lparr>next_addr = 1, sn_table = [], sn_heap = Map.empty, err_log = []\<rparr>"

section \<open>C++ primitives the glue uses\<close>

text \<open>\<open>*p\<close> and \<open>p->\<close> on a \<open>StringName *\<close>: the object, or undefined behaviour.\<close>

definition deref :: "addr \<Rightarrow> world \<Rightarrow> fault + string_name" where
  "deref p w =
     (if p = nullptr then Inl Null_Dereference
      else case sn_heap w p of None \<Rightarrow> Inl Dangling_Dereference | Some n \<Rightarrow> Inr n)"

text \<open>The placement of the constructed object in the storage \<open>memnew\<close> returned.\<close>

definition construct_at :: "addr \<Rightarrow> string_name \<Rightarrow> world \<Rightarrow> world" where
  "construct_at p n w = w\<lparr>sn_heap := (sn_heap w)(p \<mapsto> n)\<rparr>"

text \<open>\<open>memdelete(p)\<close>: run \<open>~StringName()\<close> (that is, \<open>unref()\<close>), then free the storage.\<close>

definition memdelete :: "addr \<Rightarrow> world \<Rightarrow> unit icall_result" where
  "memdelete p w =
     (case sn_heap w p of
        None \<Rightarrow> Inl Invalid_Delete
      | Some n \<Rightarrow>
          (case string_name_unref n w of
             None \<Rightarrow> Inl Dangling_Data
           | Some w1 \<Rightarrow> Inr ((), w1\<lparr>sn_heap := (sn_heap w1)(p := None)\<rparr>)))"

text \<open>\<open>ERR_FAIL_NULL\<close> in a \<open>void\<close> function: report and return, or go on.\<close>

definition err_fail_null :: "string \<Rightarrow> string \<Rightarrow> addr \<Rightarrow> (world \<Rightarrow> unit icall_result) \<Rightarrow> world \<Rightarrow> unit icall_result" where
  "err_fail_null fn param p k w =
     (if p = nullptr then Inr ((), w\<lparr>err_log := err_log w @ [Err_Param_Null fn param]\<rparr>) else k w)"

text \<open>\<open>(MonoBoolean)\<close> of a C++ \<open>bool\<close>.\<close>

definition mono_boolean_of :: "bool \<Rightarrow> mono_boolean" where
  "mono_boolean_of b = (if b then 1 else 0)"

section \<open>The native entry points\<close>

definition godot_icall_StringName_Ctor :: "world \<Rightarrow> addr icall_result" where
  [icall_defs]: "godot_icall_StringName_Ctor w =
     (let (p, w1) = memnew w in Inr (p, construct_at p None w1))"

definition godot_icall_StringName_String_Ctor :: "mono_string \<Rightarrow> world \<Rightarrow> addr icall_result" where
  [icall_defs]: "godot_icall_StringName_String_Ctor p_path w =
     (let (p, w1) = memnew w;
          (n, w2) = string_name_from_string (mono_string_to_godot p_path) w1
      in Inr (p, construct_at p n w2))"

definition godot_icall_StringName_StringName_Ctor :: "addr \<Rightarrow> world \<Rightarrow> addr icall_result" where
  [icall_defs]: "godot_icall_StringName_StringName_Ctor p_path w =
     (let (p, w1) = memnew w
      in case deref p_path w1 of
           Inl f \<Rightarrow> Inl f
         | Inr src \<Rightarrow>
             (case string_name_copy src w1 of
                None \<Rightarrow> Inl Dangling_Data
              | Some (n, w2) \<Rightarrow> Inr (p, construct_at p n w2)))"

definition godot_icall_StringName_Dtor :: "addr \<Rightarrow> world \<Rightarrow> unit icall_result" where
  [icall_defs]: "godot_icall_StringName_Dtor p_ptr w =
     err_fail_null ''godot_icall_StringName_Dtor'' ''p_ptr'' p_ptr (memdelete p_ptr) w"

definition godot_icall_StringName_operator_String :: "addr \<Rightarrow> world \<Rightarrow> mono_string icall_result" where
  [icall_defs]: "godot_icall_StringName_operator_String p_np w =
     (case deref p_np w of
        Inl f \<Rightarrow> Inl f
      | Inr n \<Rightarrow>
          (case string_name_to_string n w of
             None \<Rightarrow> Inl Dangling_Data
           | Some s \<Rightarrow> Inr (mono_string_from_godot s, w)))"

definition godot_icall_StringName_operator_Equals :: "addr \<Rightarrow> addr \<Rightarrow> world \<Rightarrow> mono_boolean icall_result" where
  [icall_defs]: "godot_icall_StringName_operator_Equals p_sn1 p_sn2 w =
     (case deref p_sn1 w of
        Inl f \<Rightarrow> Inl f
      | Inr n1 \<Rightarrow>
          (case deref p_sn2 w of
             Inl f \<Rightarrow> Inl f
           | Inr n2 \<Rightarrow> Inr (mono_boolean_of (string_name_eq n1 n2), w)))"

section \<open>Invariant and abstraction\<close>

text \<open>
  The world is well formed when the table is, the allocator is above every live object,
  every live object's \<open>_data\<close> is a node of the table, and every node's count is the
  number of live objects that point at it.
\<close>

definition wf_world :: "world \<Rightarrow> bool" where
  "wf_world w \<longleftrightarrow>
     sn_table_ok w \<and> 0 < next_addr w \<and>
     (\<forall>p \<in> dom (sn_heap w). 0 < p \<and> p < next_addr w) \<and>
     (\<forall>p d. sn_heap w p = Some (Some d) \<longrightarrow> d \<in> fst ` set (sn_table w)) \<and>
     (\<forall>(d, e) \<in> set (sn_table w). sd_refcount e = card (holders (sn_heap w) (Some d)))"

text \<open>The abstract view: each live object is the text it names.\<close>

definition handle_text :: "world \<Rightarrow> addr \<rightharpoonup> gstring" where
  "handle_text w p = (case sn_heap w p of None \<Rightarrow> None | Some n \<Rightarrow> string_name_to_string n w)"

text \<open>
  The spec's Equals, "true iff the two handles' interned values compare equal": the
  reference the pointer comparison of \<open>operator==\<close> is measured against.
\<close>

definition equals_by_value :: "addr \<Rightarrow> addr \<Rightarrow> world \<Rightarrow> mono_boolean icall_result" where
  "equals_by_value p q w =
     (case deref p w of
        Inl f \<Rightarrow> Inl f
      | Inr n1 \<Rightarrow>
          (case deref q w of
             Inl f \<Rightarrow> Inl f
           | Inr n2 \<Rightarrow> Inr (mono_boolean_of (string_name_to_string n1 w = string_name_to_string n2 w), w)))"

section \<open>The invariant, operation by operation\<close>

lemma wf_worldI:
  assumes "sn_table_ok w" "0 < next_addr w"
    and "\<And>p n. sn_heap w p = Some n \<Longrightarrow> 0 < p \<and> p < next_addr w"
    and "\<And>p d. sn_heap w p = Some (Some d) \<Longrightarrow> d \<in> fst ` set (sn_table w)"
    and "\<And>d e. (d, e) \<in> set (sn_table w) \<Longrightarrow> sd_refcount e = card (holders (sn_heap w) (Some d))"
  shows "wf_world w"
  using assms unfolding wf_world_def by blast

lemma wf_worldD:
  assumes "wf_world w"
  shows "sn_table_ok w" "0 < next_addr w"
    and "sn_heap w p = Some n \<Longrightarrow> 0 < p \<and> p < next_addr w"
    and "sn_heap w p = Some (Some d) \<Longrightarrow> d \<in> fst ` set (sn_table w)"
    and "(d, e) \<in> set (sn_table w) \<Longrightarrow> sd_refcount e = card (holders (sn_heap w) (Some d))"
  using assms unfolding wf_world_def by blast+

lemma sn_table_ok_eq:
  "sn_table st' = sn_table st \<Longrightarrow> next_addr st' = next_addr st \<Longrightarrow> sn_table_ok st' = sn_table_ok st"
  by (simp add: sn_table_ok_def)

lemma wf_init: "wf_world init_world"
  by (rule wf_worldI) (simp_all add: init_world_def sn_table_ok_def)

lemma wf_finite: "wf_world w \<Longrightarrow> finite (dom (sn_heap w))"
proof -
  assume w: "wf_world w"
  have "dom (sn_heap w) \<subseteq> {..<next_addr w}" using wf_worldD(3)[OF w] by auto
  then show ?thesis by (rule finite_subset) simp
qed

lemma wf_fresh: "wf_world w \<Longrightarrow> next_addr w \<le> p \<Longrightarrow> sn_heap w p = None"
  using wf_worldD(3) by (metis leD not_None_eq)

lemma wf_fresh_node: "wf_world w \<Longrightarrow> next_addr w \<le> d \<Longrightarrow> d \<notin> fst ` set (sn_table w)"
  using wf_worldD(1) sn_table_okD(2) by fastforce

lemma wf_log: "wf_world (w\<lparr>err_log := l\<rparr>) = wf_world w"
  by (simp add: wf_world_def sn_table_ok_def)

lemma wf_add_null:
  assumes w: "wf_world w" and p: "sn_heap w p = None" "0 < p" "p < n'" and n': "next_addr w \<le> n'"
  shows "wf_world (w\<lparr>next_addr := n', sn_heap := (sn_heap w)(p \<mapsto> None)\<rparr>)"
proof (rule wf_worldI)
  have "sn_table_ok (w\<lparr>next_addr := n'\<rparr>)" using sn_table_ok_next[OF wf_worldD(1)[OF w] n'] .
  then show "sn_table_ok (w\<lparr>next_addr := n', sn_heap := (sn_heap w)(p \<mapsto> None)\<rparr>)"
    by (simp add: sn_table_ok_def)
  show "0 < next_addr (w\<lparr>next_addr := n', sn_heap := (sn_heap w)(p \<mapsto> None)\<rparr>)" using p by simp
  fix q n
  assume "sn_heap (w\<lparr>next_addr := n', sn_heap := (sn_heap w)(p \<mapsto> None)\<rparr>) q = Some n"
  then show "0 < q \<and> q < next_addr (w\<lparr>next_addr := n', sn_heap := (sn_heap w)(p \<mapsto> None)\<rparr>)"
    using wf_worldD(3)[OF w, of q n] p n' by (auto split: if_splits)
next
  fix q d
  assume "sn_heap (w\<lparr>next_addr := n', sn_heap := (sn_heap w)(p \<mapsto> None)\<rparr>) q = Some (Some d)"
  then show "d \<in> fst ` set (sn_table (w\<lparr>next_addr := n', sn_heap := (sn_heap w)(p \<mapsto> None)\<rparr>))"
    using wf_worldD(4)[OF w, of q d] by (auto split: if_splits)
next
  fix d e
  assume "(d, e) \<in> set (sn_table (w\<lparr>next_addr := n', sn_heap := (sn_heap w)(p \<mapsto> None)\<rparr>))"
  then show "sd_refcount e = card (holders (sn_heap (w\<lparr>next_addr := n', sn_heap := (sn_heap w)(p \<mapsto> None)\<rparr>)) (Some d))"
    using wf_worldD(5)[OF w] card_holders_upd_new[OF wf_finite[OF w] p(1)] by simp
qed

lemma wf_add_ref:
  assumes w: "wf_world w" and p: "sn_heap w p = None" "0 < p" "p < n'" and n': "next_addr w \<le> n'"
    and d: "(d, e) \<in> set (sn_table w)"
  defines "w' \<equiv> w\<lparr>next_addr := n', sn_table := update_node d inc_node (sn_table w),
                   sn_heap := (sn_heap w)(p \<mapsto> Some d)\<rparr>"
  shows "wf_world w'"
proof -
  have h: "sn_heap w' = (sn_heap w)(p \<mapsto> Some d)" and t: "sn_table w' = update_node d inc_node (sn_table w)"
    and nx: "next_addr w' = n'" by (simp_all add: w'_def)
  show ?thesis
  proof (rule wf_worldI)
    have "sn_table_ok ((w\<lparr>next_addr := n'\<rparr>)\<lparr>sn_table := update_node d inc_node (sn_table w)\<rparr>)"
      using sn_table_ok_inc[OF sn_table_ok_next[OF wf_worldD(1)[OF w] n']] by simp
    then show "sn_table_ok w'" by (subst sn_table_ok_eq[of w']) (simp_all add: w'_def)
    show "0 < next_addr w'" using p nx by simp
    fix q n
    assume "sn_heap w' q = Some n"
    then show "0 < q \<and> q < next_addr w'" using wf_worldD(3)[OF w, of q n] p n' h nx by (auto split: if_splits)
  next
    fix q d'
    assume "sn_heap w' q = Some (Some d')"
    then show "d' \<in> fst ` set (sn_table w')"
      using wf_worldD(4)[OF w, of q d'] d h t by (force split: if_splits)
  next
    fix a e'
    assume "(a, e') \<in> set (sn_table w')"
    then obtain e0 where e0: "(a, e0) \<in> set (sn_table w)" "e' = (if a = d then inc_node e0 else e0)"
      using t by (auto simp: set_update_node)
    show "sd_refcount e' = card (holders (sn_heap w') (Some a))"
      using wf_worldD(5)[OF w e0(1)] e0(2) card_holders_upd_new[OF wf_finite[OF w] p(1)] h by simp
  qed
qed

lemma wf_add_node:
  assumes w: "wf_world w" and p: "sn_heap w p = None" "0 < p" "p < n'" and n': "next_addr w \<le> n'"
    and d: "d \<notin> fst ` set (sn_table w)" "0 < d" "d < n'"
    and s: "s \<noteq> []" "\<forall>(a, e) \<in> set (sn_table w). sd_name e \<noteq> s"
  defines "w' \<equiv> w\<lparr>next_addr := n', sn_table := (d, \<lparr>sd_name = s, sd_refcount = 1\<rparr>) # sn_table w,
                   sn_heap := (sn_heap w)(p \<mapsto> Some d)\<rparr>"
  shows "wf_world w'"
proof -
  have h: "sn_heap w' = (sn_heap w)(p \<mapsto> Some d)" and t: "sn_table w' = (d, \<lparr>sd_name = s, sd_refcount = 1\<rparr>) # sn_table w"
    and nx: "next_addr w' = n'" by (simp_all add: w'_def)
  have nod: "holders (sn_heap w) (Some d) = {}"
    using wf_worldD(4)[OF w] d(1) by (auto simp: holders_def)
  have ok: "sn_table_ok w" by (rule wf_worldD(1)[OF w])
  show ?thesis
  proof (rule wf_worldI)
    have "s \<notin> (sd_name \<circ> snd) ` set (sn_table w)" using s(2) by fastforce
    then show "sn_table_ok w'" using ok d s(1) n' unfolding sn_table_ok_def w'_def by fastforce
    show "0 < next_addr w'" using p nx by simp
    fix q n
    assume "sn_heap w' q = Some n"
    then show "0 < q \<and> q < next_addr w'" using wf_worldD(3)[OF w, of q n] p n' h nx by (auto split: if_splits)
  next
    fix q d'
    assume "sn_heap w' q = Some (Some d')"
    then show "d' \<in> fst ` set (sn_table w')"
      using wf_worldD(4)[OF w, of q d'] h t by (auto split: if_splits)
  next
    fix a e'
    assume a: "(a, e') \<in> set (sn_table w')"
    show "sd_refcount e' = card (holders (sn_heap w') (Some a))"
    proof (cases "a = d")
      case True
      then have "e' = \<lparr>sd_name = s, sd_refcount = 1\<rparr>" using a t d(1) by force
      then show ?thesis using True h nod by (simp add: holders_upd)
    next
      case False
      then have "(a, e') \<in> set (sn_table w)" using a t by simp
      then show ?thesis
        using wf_worldD(5)[OF w] False card_holders_upd_new[OF wf_finite[OF w] p(1)] h by simp
    qed
  qed
qed

lemma wf_del_null:
  assumes w: "wf_world w" and p: "sn_heap w p = Some None"
  shows "wf_world (w\<lparr>sn_heap := (sn_heap w)(p := None)\<rparr>)"
proof (rule wf_worldI)
  show "sn_table_ok (w\<lparr>sn_heap := (sn_heap w)(p := None)\<rparr>)"
    using wf_worldD(1)[OF w] by (simp add: sn_table_ok_def)
  show "0 < next_addr (w\<lparr>sn_heap := (sn_heap w)(p := None)\<rparr>)" using wf_worldD(2)[OF w] by simp
  fix q n
  assume "sn_heap (w\<lparr>sn_heap := (sn_heap w)(p := None)\<rparr>) q = Some n"
  then show "0 < q \<and> q < next_addr (w\<lparr>sn_heap := (sn_heap w)(p := None)\<rparr>)"
    using wf_worldD(3)[OF w, of q n] by (auto split: if_splits)
next
  fix q d
  assume "sn_heap (w\<lparr>sn_heap := (sn_heap w)(p := None)\<rparr>) q = Some (Some d)"
  then show "d \<in> fst ` set (sn_table (w\<lparr>sn_heap := (sn_heap w)(p := None)\<rparr>))"
    using wf_worldD(4)[OF w, of q d] by (auto split: if_splits)
next
  fix d e
  assume "(d, e) \<in> set (sn_table (w\<lparr>sn_heap := (sn_heap w)(p := None)\<rparr>))"
  then show "sd_refcount e = card (holders (sn_heap (w\<lparr>sn_heap := (sn_heap w)(p := None)\<rparr>)) (Some d))"
    using wf_worldD(5)[OF w] card_holders_del[OF wf_finite[OF w] p] by simp
qed

lemma wf_del_shared:
  assumes w: "wf_world w" and p: "sn_heap w p = Some (Some d)"
    and d: "(d, e) \<in> set (sn_table w)" "sd_refcount e \<noteq> 1"
  defines "w' \<equiv> w\<lparr>sn_table := update_node d dec_node (sn_table w), sn_heap := (sn_heap w)(p := None)\<rparr>"
  shows "wf_world w'"
proof -
  have h: "sn_heap w' = (sn_heap w)(p := None)" and t: "sn_table w' = update_node d dec_node (sn_table w)"
    and nx: "next_addr w' = next_addr w" by (simp_all add: w'_def)
  have ok: "sn_table_ok w" by (rule wf_worldD(1)[OF w])
  show ?thesis
  proof (rule wf_worldI)
    have "sn_table_ok (w\<lparr>sn_table := update_node d dec_node (sn_table w)\<rparr>)"
      by (rule sn_table_ok_dec[OF ok d])
    then show "sn_table_ok w'" by (subst sn_table_ok_eq[of w']) (simp_all add: w'_def)
    show "0 < next_addr w'" using wf_worldD(2)[OF w] nx by simp
    fix q n
    assume "sn_heap w' q = Some n"
    then show "0 < q \<and> q < next_addr w'" using wf_worldD(3)[OF w, of q n] h nx by (auto split: if_splits)
  next
    fix q d'
    assume "sn_heap w' q = Some (Some d')"
    then show "d' \<in> fst ` set (sn_table w')" using wf_worldD(4)[OF w, of q d'] h t by (auto split: if_splits)
  next
    fix a e'
    assume "(a, e') \<in> set (sn_table w')"
    then obtain e0 where e0: "(a, e0) \<in> set (sn_table w)" "e' = (if a = d then dec_node e0 else e0)"
      using t by (auto simp: set_update_node)
    show "sd_refcount e' = card (holders (sn_heap w') (Some a))"
      using wf_worldD(5)[OF w e0(1)] e0(2) card_holders_del[OF wf_finite[OF w] p] h by simp
  qed
qed

lemma holders_single:
  assumes w: "wf_world w" and p: "sn_heap w p = Some (Some d)"
    and d: "(d, e) \<in> set (sn_table w)" "sd_refcount e = 1"
  shows "holders (sn_heap w) (Some d) = {p}"
proof -
  have "card (holders (sn_heap w) (Some d)) = 1" using wf_worldD(5)[OF w d(1)] d(2) by simp
  then obtain x where x: "holders (sn_heap w) (Some d) = {x}" by (rule card_1_singletonE)
  moreover have "p \<in> holders (sn_heap w) (Some d)" using p by (simp add: holders_def)
  ultimately show ?thesis by simp
qed

lemma wf_del_last:
  assumes w: "wf_world w" and p: "sn_heap w p = Some (Some d)"
    and d: "(d, e) \<in> set (sn_table w)" "sd_refcount e = 1"
  defines "w' \<equiv> w\<lparr>sn_table := filter (\<lambda>(a, _). a \<noteq> d) (sn_table w), sn_heap := (sn_heap w)(p := None)\<rparr>"
  shows "wf_world w'"
proof -
  have h: "sn_heap w' = (sn_heap w)(p := None)" and t: "sn_table w' = filter (\<lambda>(a, _). a \<noteq> d) (sn_table w)"
    and nx: "next_addr w' = next_addr w" by (simp_all add: w'_def)
  have ok: "sn_table_ok w" by (rule wf_worldD(1)[OF w])
  have only: "holders (sn_heap w) (Some d) = {p}" by (rule holders_single[OF w p d])
  show ?thesis
  proof (rule wf_worldI)
    have "sn_table_ok (w\<lparr>sn_table := filter (\<lambda>(a, _). a \<noteq> d) (sn_table w)\<rparr>)"
      by (rule sn_table_ok_unlink[OF ok])
    then show "sn_table_ok w'" by (subst sn_table_ok_eq[of w']) (simp_all add: w'_def)
    show "0 < next_addr w'" using wf_worldD(2)[OF w] nx by simp
    fix q n
    assume "sn_heap w' q = Some n"
    then show "0 < q \<and> q < next_addr w'" using wf_worldD(3)[OF w, of q n] h nx by (auto split: if_splits)
  next
    fix q d'
    assume q: "sn_heap w' q = Some (Some d')"
    then have qp: "q \<noteq> p" and hq: "sn_heap w q = Some (Some d')" using h by (auto split: if_splits)
    then have "d' \<noteq> d" using only by (auto simp: holders_def)
    then show "d' \<in> fst ` set (sn_table w')" using wf_worldD(4)[OF w hq] t by force
  next
    fix a e'
    assume "(a, e') \<in> set (sn_table w')"
    then have a: "(a, e') \<in> set (sn_table w)" "a \<noteq> d" using t by auto
    show "sd_refcount e' = card (holders (sn_heap w') (Some a))"
      using wf_worldD(5)[OF w a(1)] a(2) card_holders_del[OF wf_finite[OF w] p] h by simp
  qed
qed

subsection \<open>The entry points, case by case\<close>

lemma ctor_eq:
  "godot_icall_StringName_Ctor w =
     Inr (next_addr w, w\<lparr>next_addr := Suc (next_addr w), sn_heap := (sn_heap w)(next_addr w \<mapsto> None)\<rparr>)"
  by (simp add: godot_icall_StringName_Ctor_def memnew_def construct_at_def)

lemma string_ctor_empty:
  "mono_string_to_godot m = [] \<Longrightarrow> godot_icall_StringName_String_Ctor m w =
     Inr (next_addr w, w\<lparr>next_addr := Suc (next_addr w), sn_heap := (sn_heap w)(next_addr w \<mapsto> None)\<rparr>)"
  by (simp add: godot_icall_StringName_String_Ctor_def memnew_def construct_at_def)

lemma string_ctor_found:
  assumes "wf_world w" "(d, e) \<in> set (sn_table w)" "sd_name e = mono_string_to_godot m"
  shows "godot_icall_StringName_String_Ctor m w =
     Inr (next_addr w, w\<lparr>next_addr := Suc (next_addr w), sn_table := update_node d inc_node (sn_table w),
                         sn_heap := (sn_heap w)(next_addr w \<mapsto> Some d)\<rparr>)"
proof -
  have ok: "sn_table_ok (w\<lparr>next_addr := Suc (next_addr w)\<rparr>)"
    using sn_table_ok_next[OF wf_worldD(1)[OF assms(1)]] by simp
  have "(d, e) \<in> set (sn_table (w\<lparr>next_addr := Suc (next_addr w)\<rparr>))" using assms(2) by simp
  from from_string_found[OF ok this assms(3)] show ?thesis
    by (simp add: godot_icall_StringName_String_Ctor_def memnew_def construct_at_def)
qed

lemma string_ctor_fresh:
  assumes "mono_string_to_godot m \<noteq> []" "\<forall>(d, e) \<in> set (sn_table w). sd_name e \<noteq> mono_string_to_godot m"
  shows "godot_icall_StringName_String_Ctor m w =
     Inr (next_addr w, w\<lparr>next_addr := Suc (Suc (next_addr w)),
            sn_table := (Suc (next_addr w), \<lparr>sd_name = mono_string_to_godot m, sd_refcount = 1\<rparr>) # sn_table w,
            sn_heap := (sn_heap w)(next_addr w \<mapsto> Some (Suc (next_addr w)))\<rparr>)"
proof -
  have "\<forall>(d, e) \<in> set (sn_table (w\<lparr>next_addr := Suc (next_addr w)\<rparr>)). sd_name e \<noteq> mono_string_to_godot m"
    using assms(2) by simp
  from from_string_fresh[OF assms(1) this] show ?thesis
    by (simp add: godot_icall_StringName_String_Ctor_def memnew_def construct_at_def)
qed

lemma wf_ctor:
  assumes w: "wf_world w" and r: "godot_icall_StringName_Ctor w = Inr (p, w')"
  shows "wf_world w'"
proof -
  from r have "w' = w\<lparr>next_addr := Suc (next_addr w), sn_heap := (sn_heap w)(next_addr w \<mapsto> None)\<rparr>"
    by (auto simp: ctor_eq)
  then show ?thesis using wf_add_null[OF w wf_fresh[OF w] wf_worldD(2)[OF w]] by simp
qed

lemma wf_string_ctor:
  assumes w: "wf_world w" and r: "godot_icall_StringName_String_Ctor m w = Inr (p, w')"
  shows "wf_world w'"
proof -
  let ?s = "mono_string_to_godot m" and ?p = "next_addr w"
  have fresh: "sn_heap w ?p = None" "0 < ?p" using wf_fresh[OF w] wf_worldD(2)[OF w] by simp_all
  consider (empty) "?s = []" | (found) d e where "(d, e) \<in> set (sn_table w)" "sd_name e = ?s"
    | (new) "?s \<noteq> []" "\<forall>(d, e) \<in> set (sn_table w). sd_name e \<noteq> ?s" by fastforce
  then show ?thesis
  proof cases
    case empty
    then have "w' = w\<lparr>next_addr := Suc ?p, sn_heap := (sn_heap w)(?p \<mapsto> None)\<rparr>"
      using r by (auto simp: string_ctor_empty)
    then show ?thesis using wf_add_null[OF w fresh(1,2)] by simp
  next
    case (found d e)
    then have "w' = w\<lparr>next_addr := Suc ?p, sn_table := update_node d inc_node (sn_table w),
                         sn_heap := (sn_heap w)(?p \<mapsto> Some d)\<rparr>"
      using r by (auto simp: string_ctor_found[OF w])
    then show ?thesis using wf_add_ref[OF w fresh(1,2) _ _ found(1)] by simp
  next
    case new
    have "Suc ?p \<notin> fst ` set (sn_table w)" using wf_fresh_node[OF w] by simp
    moreover have "w' = w\<lparr>next_addr := Suc (Suc ?p),
            sn_table := (Suc ?p, \<lparr>sd_name = ?s, sd_refcount = 1\<rparr>) # sn_table w,
            sn_heap := (sn_heap w)(?p \<mapsto> Some (Suc ?p))\<rparr>"
      using r new by (auto simp: string_ctor_fresh)
    ultimately show ?thesis using new wf_add_node[OF w fresh(1,2), of "Suc (Suc ?p)" "Suc ?p" ?s] by simp
  qed
qed

lemma deref_null [simp]: "deref nullptr w = Inl Null_Dereference"
  by (simp add: deref_def)

lemma deref_live: "sn_heap w p = Some n \<Longrightarrow> p \<noteq> nullptr \<Longrightarrow> deref p w = Inr n"
  by (simp add: deref_def)

lemma deref_dangling: "p \<noteq> nullptr \<Longrightarrow> sn_heap w p = None \<Longrightarrow> deref p w = Inl Dangling_Dereference"
  by (simp add: deref_def)

text \<open>
  C25 (error path, no guard): the copy constructor dereferences its argument without a
  null check, so a null source pointer is undefined behaviour (a null dereference), not
  the reported Null-Reference failure the spec describes for Create-copy.
\<close>

theorem copy_ctor_null: "godot_icall_StringName_StringName_Ctor nullptr w = Inl Null_Dereference"
  by (simp add: godot_icall_StringName_StringName_Ctor_def memnew_def)

lemma copy_ctor_dangling:
  "q \<noteq> nullptr \<Longrightarrow> sn_heap w q = None \<Longrightarrow> godot_icall_StringName_StringName_Ctor q w = Inl Dangling_Dereference"
  by (simp add: godot_icall_StringName_StringName_Ctor_def memnew_def deref_def)

lemma copy_ctor_of_null_name:
  "q \<noteq> nullptr \<Longrightarrow> sn_heap w q = Some None \<Longrightarrow> godot_icall_StringName_StringName_Ctor q w =
     Inr (next_addr w, w\<lparr>next_addr := Suc (next_addr w), sn_heap := (sn_heap w)(next_addr w \<mapsto> None)\<rparr>)"
  by (simp add: godot_icall_StringName_StringName_Ctor_def memnew_def deref_def construct_at_def)

lemma copy_ctor_node:
  assumes "wf_world w" "sn_heap w q = Some (Some d)" "(d, e) \<in> set (sn_table w)"
  shows "godot_icall_StringName_StringName_Ctor q w =
     Inr (next_addr w, w\<lparr>next_addr := Suc (next_addr w), sn_table := update_node d inc_node (sn_table w),
                         sn_heap := (sn_heap w)(next_addr w \<mapsto> Some d)\<rparr>)"
proof -
  have ok: "sn_table_ok (w\<lparr>next_addr := Suc (next_addr w)\<rparr>)"
    using sn_table_ok_next[OF wf_worldD(1)[OF assms(1)]] by simp
  have "(d, e) \<in> set (sn_table (w\<lparr>next_addr := Suc (next_addr w)\<rparr>))" using assms(3) by simp
  note c = copy_node[OF ok this]
  have "q \<noteq> nullptr" using wf_worldD(3)[OF assms(1) assms(2)] by simp
  with assms(2) c show ?thesis
    by (simp add: godot_icall_StringName_StringName_Ctor_def memnew_def deref_def construct_at_def)
qed

text \<open>
  C26 (error path, guarded): the destructor entry point given a null pointer reports
  \<open>Parameter "p_ptr" is null.\<close> and returns, leaving the objects and the table as they were.
\<close>

theorem dtor_null:
  "godot_icall_StringName_Dtor nullptr w =
     Inr ((), w\<lparr>err_log := err_log w @ [Err_Param_Null ''godot_icall_StringName_Dtor'' ''p_ptr'']\<rparr>)"
  by (simp add: godot_icall_StringName_Dtor_def err_fail_null_def)

lemma dtor_dangling:
  "p \<noteq> nullptr \<Longrightarrow> sn_heap w p = None \<Longrightarrow> godot_icall_StringName_Dtor p w = Inl Invalid_Delete"
  by (simp add: godot_icall_StringName_Dtor_def err_fail_null_def memdelete_def)

lemma dtor_of_null_name:
  "p \<noteq> nullptr \<Longrightarrow> sn_heap w p = Some None \<Longrightarrow>
   godot_icall_StringName_Dtor p w = Inr ((), w\<lparr>sn_heap := (sn_heap w)(p := None)\<rparr>)"
  by (simp add: godot_icall_StringName_Dtor_def err_fail_null_def memdelete_def)

lemma dtor_last:
  assumes "wf_world w" "sn_heap w p = Some (Some d)" "(d, e) \<in> set (sn_table w)" "sd_refcount e = 1"
  shows "godot_icall_StringName_Dtor p w =
     Inr ((), w\<lparr>sn_table := filter (\<lambda>(a, _). a \<noteq> d) (sn_table w), sn_heap := (sn_heap w)(p := None)\<rparr>)"
proof -
  have "p \<noteq> nullptr" using wf_worldD(3)[OF assms(1) assms(2)] by simp
  with assms show ?thesis using unref_last[OF wf_worldD(1)[OF assms(1)] assms(3,4)]
    by (simp add: godot_icall_StringName_Dtor_def err_fail_null_def memdelete_def)
qed

lemma dtor_shared:
  assumes "wf_world w" "sn_heap w p = Some (Some d)" "(d, e) \<in> set (sn_table w)" "sd_refcount e \<noteq> 1"
  shows "godot_icall_StringName_Dtor p w =
     Inr ((), w\<lparr>sn_table := update_node d dec_node (sn_table w), sn_heap := (sn_heap w)(p := None)\<rparr>)"
proof -
  have "p \<noteq> nullptr" using wf_worldD(3)[OF assms(1) assms(2)] by simp
  with assms show ?thesis using unref_shared[OF wf_worldD(1)[OF assms(1)] assms(3,4)]
    by (simp add: godot_icall_StringName_Dtor_def err_fail_null_def memdelete_def)
qed

lemma to_string_live:
  assumes "wf_world w" "sn_heap w p = Some n"
  shows "godot_icall_StringName_operator_String p w = Inr (mono_string_from_godot (the (handle_text w p)), w)"
    and "handle_text w p \<noteq> None"
proof -
  have p: "p \<noteq> nullptr" using wf_worldD(3)[OF assms] by simp
  have t: "string_name_to_string n w \<noteq> None"
  proof (cases n)
    case (Some d)
    then obtain e where "(d, e) \<in> set (sn_table w)" using wf_worldD(4)[OF assms(1)] assms(2) by force
    then show ?thesis using Some to_string_node[OF wf_worldD(1)[OF assms(1)]] by simp
  qed (simp add: string_name_to_string_def)
  show "godot_icall_StringName_operator_String p w = Inr (mono_string_from_godot (the (handle_text w p)), w)"
    using p t assms(2) by (auto simp: godot_icall_StringName_operator_String_def deref_live handle_text_def)
  show "handle_text w p \<noteq> None" using t assms(2) by (simp add: handle_text_def)
qed

lemma equals_live:
  assumes "sn_heap w p = Some n1" "sn_heap w q = Some n2" "p \<noteq> nullptr" "q \<noteq> nullptr"
  shows "godot_icall_StringName_operator_Equals p q w = Inr (mono_boolean_of (n1 = n2), w)"
  using assms by (simp add: godot_icall_StringName_operator_Equals_def deref_live string_name_eq_def)

section \<open>The entry points against the abstract view\<close>

lemma map_of_filter_key:
  "map_of (filter (\<lambda>(a, _). a \<noteq> d) t) x = (if x = d then None else map_of t x)"
  by (induction t) auto

lemma to_string_update_node:
  "(\<And>e. sd_name (f e) = sd_name e) \<Longrightarrow>
   string_name_to_string n (st\<lparr>sn_table := update_node d f (sn_table st)\<rparr>) = string_name_to_string n st"
  by (cases n) (auto simp: string_name_to_string_def option.map_comp comp_def)

lemma handle_text_alloc_null:
  "handle_text (w\<lparr>next_addr := n', sn_heap := (sn_heap w)(p \<mapsto> None)\<rparr>) = (handle_text w)(p \<mapsto> [])"
  by (simp add: fun_eq_iff handle_text_def string_name_to_string_def split: option.splits)

lemma handle_text_alloc_ref:
  assumes "wf_world w" "(d, e) \<in> set (sn_table w)"
  shows "handle_text (w\<lparr>next_addr := n', sn_table := update_node d inc_node (sn_table w),
                         sn_heap := (sn_heap w)(p \<mapsto> Some d)\<rparr>) = (handle_text w)(p \<mapsto> sd_name e)"
proof -
  have "string_name_to_string (Some d) w = Some (sd_name e)"
    using to_string_node[OF wf_worldD(1)[OF assms(1)] assms(2)] .
  then show ?thesis
    by (simp add: fun_eq_iff handle_text_def string_name_to_string_def option.map_comp comp_def split: option.splits)
qed

lemma handle_text_alloc_node:
  assumes "wf_world w" "d \<notin> fst ` set (sn_table w)"
  shows "handle_text (w\<lparr>next_addr := n', sn_table := (d, \<lparr>sd_name = s, sd_refcount = 1\<rparr>) # sn_table w,
                         sn_heap := (sn_heap w)(p \<mapsto> Some d)\<rparr>) = (handle_text w)(p \<mapsto> s)"
proof (rule ext)
  fix q
  show "handle_text (w\<lparr>next_addr := n', sn_table := (d, \<lparr>sd_name = s, sd_refcount = 1\<rparr>) # sn_table w,
                         sn_heap := (sn_heap w)(p \<mapsto> Some d)\<rparr>) q = ((handle_text w)(p \<mapsto> s)) q"
  proof (cases "q = p")
    case True
    then show ?thesis by (simp add: handle_text_def string_name_to_string_def)
  next
    case False
    have "sn_heap w q = Some (Some d') \<Longrightarrow> d' \<noteq> d" for d'
      using wf_worldD(4)[OF assms(1)] assms(2) by blast
    with False show ?thesis
      by (auto simp: handle_text_def string_name_to_string_def split: option.splits)
  qed
qed

lemma handle_text_del_null:
  "handle_text (w\<lparr>sn_heap := (sn_heap w)(p := None)\<rparr>) = (handle_text w)(p := None)"
  by (simp add: fun_eq_iff handle_text_def string_name_to_string_def split: option.splits)

lemma handle_text_del_shared:
  "handle_text (w\<lparr>sn_table := update_node d dec_node (sn_table w), sn_heap := (sn_heap w)(p := None)\<rparr>)
   = (handle_text w)(p := None)"
  by (simp add: fun_eq_iff handle_text_def string_name_to_string_def option.map_comp comp_def split: option.splits)

lemma handle_text_del_last:
  assumes "wf_world w" "sn_heap w p = Some (Some d)" "(d, e) \<in> set (sn_table w)" "sd_refcount e = 1"
  shows "handle_text (w\<lparr>sn_table := filter (\<lambda>(a, _). a \<noteq> d) (sn_table w), sn_heap := (sn_heap w)(p := None)\<rparr>)
         = (handle_text w)(p := None)"
proof (rule ext)
  fix q
  have only: "holders (sn_heap w) (Some d) = {p}" by (rule holders_single[OF assms])
  show "handle_text (w\<lparr>sn_table := filter (\<lambda>(a, _). a \<noteq> d) (sn_table w), sn_heap := (sn_heap w)(p := None)\<rparr>) q
        = ((handle_text w)(p := None)) q"
  proof (cases "q = p")
    case True
    then show ?thesis by (simp add: handle_text_def)
  next
    case False
    then have "sn_heap w q \<noteq> Some (Some d)" using only by (auto simp: holders_def)
    with False show ?thesis
      by (auto simp: handle_text_def string_name_to_string_def map_of_filter_key split: option.splits)
  qed
qed

lemma to_string_null [simp]: "string_name_to_string None st = Some []"
  by (simp add: string_name_to_string_def)

lemma dom_handle_text: "wf_world w \<Longrightarrow> dom (handle_text w) = dom (sn_heap w)"
proof -
  assume w: "wf_world w"
  have "handle_text w p \<noteq> None" if "sn_heap w p = Some n" for p n
    using to_string_live(2)[OF w that] .
  then show ?thesis by (auto simp: handle_text_def split: option.splits)
qed

lemma table_names_inj:
  assumes "sn_table_ok st" "(d1, e1) \<in> set (sn_table st)" "(d2, e2) \<in> set (sn_table st)"
    and "sd_name e1 = sd_name e2"
  shows "d1 = d2"
proof -
  have inj: "inj_on (sd_name \<circ> snd) (set (sn_table st))"
    using assms(1) by (simp add: sn_table_ok_def distinct_map)
  have "(sd_name \<circ> snd) (d1, e1) = (sd_name \<circ> snd) (d2, e2)" using assms(4) by simp
  from inj_onD[OF inj this assms(2,3)] show ?thesis by simp
qed

lemma table_keys_inj:
  "sn_table_ok st \<Longrightarrow> (d, e1) \<in> set (sn_table st) \<Longrightarrow> (d, e2) \<in> set (sn_table st) \<Longrightarrow> e1 = e2"
  using eq_key_imp_eq_value by (fastforce simp: sn_table_ok_def)

lemma same_data_iff_same_text:
  assumes w: "wf_world w" and p: "sn_heap w p = Some n1" and q: "sn_heap w q = Some n2"
  shows "n1 = n2 \<longleftrightarrow> handle_text w p = handle_text w q"
proof -
  have ok: "sn_table_ok w" by (rule wf_worldD(1)[OF w])
  have node: "\<exists>e. (d, e) \<in> set (sn_table w)" if "sn_heap w r = Some (Some d)" for r d
    using wf_worldD(4)[OF w that] by force
  show ?thesis
  proof (cases n1; cases n2)
    fix d1 d2 assume n: "n1 = Some d1" "n2 = Some d2"
    obtain e1 e2 where e: "(d1, e1) \<in> set (sn_table w)" "(d2, e2) \<in> set (sn_table w)"
      using node[of p d1] node[of q d2] p q n by blast
    have "d1 = d2 \<longleftrightarrow> sd_name e1 = sd_name e2"
    proof
      assume "d1 = d2"
      then show "sd_name e1 = sd_name e2" using table_keys_inj[OF ok] e by blast
    qed (rule table_names_inj[OF ok e])
    then show ?thesis using p q n to_string_node[OF ok e(1)] to_string_node[OF ok e(2)]
      by (simp add: handle_text_def)
  next
    fix d1 assume n: "n1 = Some d1" "n2 = None"
    obtain e1 where e: "(d1, e1) \<in> set (sn_table w)" using node[of p d1] p n by blast
    show ?thesis using p q n e to_string_node[OF ok e] sn_table_okD(3)[OF ok e]
      by (simp add: handle_text_def)
  next
    fix d2 assume n: "n1 = None" "n2 = Some d2"
    obtain e2 where e: "(d2, e2) \<in> set (sn_table w)" using node[of q d2] q n by blast
    show ?thesis using p q n e to_string_node[OF ok e] sn_table_okD(3)[OF ok e]
      by (simp add: handle_text_def)
  qed (simp add: p q handle_text_def)
qed

subsection \<open>Each entry point against the abstract view\<close>

lemma ctor_step:
  assumes w: "wf_world w"
  shows "\<exists>w'. godot_icall_StringName_Ctor w = Inr (next_addr w, w') \<and> wf_world w' \<and>
              handle_text w' = (handle_text w)(next_addr w \<mapsto> [])"
  using wf_ctor[OF w] by (simp add: ctor_eq handle_text_alloc_null)

lemma string_ctor_step:
  assumes w: "wf_world w"
  shows "\<exists>w'. godot_icall_StringName_String_Ctor m w = Inr (next_addr w, w') \<and> wf_world w' \<and>
              handle_text w' = (handle_text w)(next_addr w \<mapsto> mono_string_to_godot m)"
proof -
  let ?s = "mono_string_to_godot m" and ?p = "next_addr w"
  consider (empty) "?s = []" | (found) d e where "(d, e) \<in> set (sn_table w)" "sd_name e = ?s"
    | (new) "?s \<noteq> []" "\<forall>(d, e) \<in> set (sn_table w). sd_name e \<noteq> ?s" by fastforce
  then have "\<exists>w'. godot_icall_StringName_String_Ctor m w = Inr (?p, w') \<and>
                  handle_text w' = (handle_text w)(?p \<mapsto> ?s)"
  proof cases
    case empty
    then show ?thesis by (simp add: string_ctor_empty handle_text_alloc_null)
  next
    case (found d e)
    then show ?thesis by (simp add: string_ctor_found[OF w] handle_text_alloc_ref[OF w])
  next
    case new
    have "Suc ?p \<notin> fst ` set (sn_table w)" using wf_fresh_node[OF w] by simp
    then show ?thesis using new handle_text_alloc_node[OF w, where d = "Suc ?p" and n' = "Suc (Suc ?p)" and s = ?s and p = ?p]
      by (simp add: string_ctor_fresh)
  qed
  then show ?thesis using wf_string_ctor[OF w] by blast
qed

lemma copy_ctor_step:
  assumes w: "wf_world w" and q: "q \<in> dom (sn_heap w)"
  shows "\<exists>w'. godot_icall_StringName_StringName_Ctor q w = Inr (next_addr w, w') \<and> wf_world w' \<and>
              handle_text w' = (handle_text w)(next_addr w \<mapsto> the (handle_text w q))"
proof -
  obtain n where n: "sn_heap w q = Some n" using q by auto
  have q0: "q \<noteq> nullptr" using wf_worldD(3)[OF w n] by simp
  have fresh: "sn_heap w (next_addr w) = None" "0 < next_addr w"
    using wf_fresh[OF w] wf_worldD(2)[OF w] by simp_all
  show ?thesis
  proof (cases n)
    case None
    then show ?thesis using n q0 wf_add_null[OF w fresh]
      by (simp add: copy_ctor_of_null_name handle_text_alloc_null handle_text_def)
  next
    case (Some d)
    then obtain e where e: "(d, e) \<in> set (sn_table w)" using wf_worldD(4)[OF w] n by force
    have t: "handle_text w q = Some (sd_name e)"
      using n Some to_string_node[OF wf_worldD(1)[OF w] e] by (simp add: handle_text_def)
    show ?thesis using n Some e t wf_add_ref[OF w fresh _ _ e]
      by (simp add: copy_ctor_node[OF w] handle_text_alloc_ref[OF w e])
  qed
qed

lemma dtor_step:
  assumes w: "wf_world w" and p: "p \<in> dom (sn_heap w)"
  shows "\<exists>w'. godot_icall_StringName_Dtor p w = Inr ((), w') \<and> wf_world w' \<and>
              handle_text w' = (handle_text w)(p := None)"
proof -
  obtain n where n: "sn_heap w p = Some n" using p by auto
  have p0: "p \<noteq> nullptr" using wf_worldD(3)[OF w n] by simp
  show ?thesis
  proof (cases n)
    case None
    then show ?thesis using n p0 wf_del_null[OF w] by (simp add: dtor_of_null_name handle_text_del_null)
  next
    case (Some d)
    then obtain e where e: "(d, e) \<in> set (sn_table w)" using wf_worldD(4)[OF w] n by force
    show ?thesis
    proof (cases "sd_refcount e = 1")
      case True
      then show ?thesis using n Some e wf_del_last[OF w _ e]
        by (simp add: dtor_last[OF w _ e] handle_text_del_last[OF w _ e])
    next
      case False
      then show ?thesis using n Some e wf_del_shared[OF w _ e] handle_text_del_shared[where w = w and d = d and p = p]
        by (simp add: dtor_shared[OF w _ e])
    qed
  qed
qed

lemma equals_step:
  assumes w: "wf_world w" and p: "p \<in> dom (sn_heap w)" and q: "q \<in> dom (sn_heap w)"
  shows "godot_icall_StringName_operator_Equals p q w = Inr (mono_boolean_of (handle_text w p = handle_text w q), w)"
proof -
  obtain n1 n2 where n: "sn_heap w p = Some n1" "sn_heap w q = Some n2" using p q by auto
  have "p \<noteq> nullptr" "q \<noteq> nullptr" using wf_worldD(3)[OF w n(1)] wf_worldD(3)[OF w n(2)] by simp_all
  then show ?thesis using equals_live[OF n] same_data_iff_same_text[OF w n] by simp
qed

lemma string_step:
  assumes w: "wf_world w" and p: "p \<in> dom (sn_heap w)"
  shows "godot_icall_StringName_operator_String p w = Inr (mono_string_from_godot (the (handle_text w p)), w)"
  using p to_string_live(1)[OF w] by auto

lemma dom_after_step:
  "wf_world w' \<Longrightarrow> handle_text w' = (handle_text w)(p \<mapsto> s) \<Longrightarrow> wf_world w \<Longrightarrow>
   dom (sn_heap w') = insert p (dom (sn_heap w))"
  by (metis dom_fun_upd dom_handle_text option.distinct(1))

lemma equals_fresh_same_text:
  assumes w: "wf_world w" and w': "wf_world w'" and t': "handle_text w' = (handle_text w)(next_addr w \<mapsto> x)"
    and t: "handle_text w p = Some x"
  shows "godot_icall_StringName_operator_Equals p (next_addr w) w' = Inr (1, w')"
proof -
  have p: "p \<in> dom (sn_heap w)" using t dom_handle_text[OF w] by auto
  have d: "dom (sn_heap w') = insert (next_addr w) (dom (sn_heap w))" by (rule dom_after_step[OF w' t' w])
  have "p \<noteq> next_addr w" using p wf_fresh[OF w] by auto
  then have "handle_text w' p = handle_text w' (next_addr w)" using t t' by simp
  then show ?thesis using equals_step[OF w'] d p by (simp add: mono_boolean_of_def)
qed

text \<open>
  C1 (round trip, the spec's "To-text(Create-from-text(T)) = T"): in a well-formed world, a
  StringName created from a well-formed managed string with no U+0000 is read back by
  the string conversion as that same managed string. The two conditions are those of the
  four-byte \<open>CharType\<close> conversion through UTF-8, the one \<open>Marshal\<close> models.
\<close>

theorem string_ctor_to_string_roundtrip:
  assumes w: "wf_world w" and us: "utf16_decode us = Some s" "0 \<notin> set us"
  shows "\<exists>p w'. godot_icall_StringName_String_Ctor (Some us) w = Inr (p, w') \<and>
                godot_icall_StringName_operator_String p w' = Inr (Some us, w')"
proof -
  obtain w' where r: "godot_icall_StringName_String_Ctor (Some us) w = Inr (next_addr w, w')"
    and w': "wf_world w'" and t: "handle_text w' = (handle_text w)(next_addr w \<mapsto> mono_string_to_godot (Some us))"
    using string_ctor_step[OF w] by blast
  have "next_addr w \<in> dom (sn_heap w')" using dom_after_step[OF w' t w] by simp
  then have "godot_icall_StringName_operator_String (next_addr w) w' = Inr (Some us, w')"
    using string_step[OF w'] t mono_string_roundtrip[OF us] by simp
  with r show ?thesis by blast
qed

theorem string_ctor_to_string_roundtrip_witness:
  "\<exists>p w'. godot_icall_StringName_String_Ctor (Some [0x47, 0xD83D, 0xDE00]) init_world = Inr (p, w') \<and>
          godot_icall_StringName_operator_String p w' = Inr (Some [0x47, 0xD83D, 0xDE00], w')"
proof -
  have "utf16_decode [0x47, 0xD83D, 0xDE00] = Some [0x47, surrogate_value 0xD83D 0xDE00]" by simp
  moreover have "(0 :: 16 word) \<notin> set [0x47, 0xD83D, 0xDE00]" by simp
  ultimately show ?thesis by (rule string_ctor_to_string_roundtrip[OF wf_init])
qed

text \<open>
  C2 (copy is equal): copying a live StringName gives a new object that the equality entry
  point reports equal to the original (MonoBoolean 1).
\<close>

theorem copy_ctor_equals:
  assumes w: "wf_world w" and q: "q \<in> dom (sn_heap w)"
  shows "\<exists>p w'. godot_icall_StringName_StringName_Ctor q w = Inr (p, w') \<and>
                godot_icall_StringName_operator_Equals q p w' = Inr (1, w')"
proof -
  obtain w' where r: "godot_icall_StringName_StringName_Ctor q w = Inr (next_addr w, w')"
    and w': "wf_world w'" and t: "handle_text w' = (handle_text w)(next_addr w \<mapsto> the (handle_text w q))"
    using copy_ctor_step[OF w q] by blast
  have "q \<in> dom (handle_text w)" using q dom_handle_text[OF w] by simp
  then have "handle_text w q = Some (the (handle_text w q))" by auto
  with r show ?thesis using equals_fresh_same_text[OF w w' t] by blast
qed

lemma wf_one_null_name:
  "wf_world (init_world\<lparr>next_addr := 2, sn_heap := [1 \<mapsto> None]\<rparr>)"
  using wf_ctor[OF wf_init] by (simp add: ctor_eq init_world_def numeral_2_eq_2)

theorem copy_ctor_equals_witness:
  "\<exists>p w'. godot_icall_StringName_StringName_Ctor 1 (init_world\<lparr>next_addr := 2, sn_heap := [1 \<mapsto> None]\<rparr>) = Inr (p, w') \<and>
          godot_icall_StringName_operator_Equals 1 p w' = Inr (1, w')"
  by (rule copy_ctor_equals[OF wf_one_null_name]) simp

text \<open>
  C8 (equality is by value, in either order): two StringNames created one after the other
  from managed strings compare equal, in both argument orders, exactly when the two
  strings convert to the same engine text.
\<close>

theorem string_ctor_equals_by_value:
  assumes w: "wf_world w"
  shows "\<exists>p1 w1 p2 w2. godot_icall_StringName_String_Ctor m1 w = Inr (p1, w1) \<and>
           godot_icall_StringName_String_Ctor m2 w1 = Inr (p2, w2) \<and>
           godot_icall_StringName_operator_Equals p1 p2 w2 =
             Inr (mono_boolean_of (mono_string_to_godot m1 = mono_string_to_godot m2), w2) \<and>
           godot_icall_StringName_operator_Equals p2 p1 w2 =
             Inr (mono_boolean_of (mono_string_to_godot m1 = mono_string_to_godot m2), w2)"
proof -
  obtain w1 where r1: "godot_icall_StringName_String_Ctor m1 w = Inr (next_addr w, w1)"
    and w1: "wf_world w1" and t1: "handle_text w1 = (handle_text w)(next_addr w \<mapsto> mono_string_to_godot m1)"
    using string_ctor_step[OF w] by blast
  obtain w2 where r2: "godot_icall_StringName_String_Ctor m2 w1 = Inr (next_addr w1, w2)"
    and w2: "wf_world w2" and t2: "handle_text w2 = (handle_text w1)(next_addr w1 \<mapsto> mono_string_to_godot m2)"
    using string_ctor_step[OF w1] by blast
  have d1: "dom (sn_heap w1) = insert (next_addr w) (dom (sn_heap w))" by (rule dom_after_step[OF w1 t1 w])
  have d2: "dom (sn_heap w2) = insert (next_addr w1) (dom (sn_heap w1))" by (rule dom_after_step[OF w2 t2 w1])
  have "sn_heap w1 (next_addr w) \<noteq> None" using d1 by auto
  then have ne: "next_addr w \<noteq> next_addr w1" using wf_fresh[OF w1, of "next_addr w1"] by auto
  have in2: "next_addr w \<in> dom (sn_heap w2)" "next_addr w1 \<in> dom (sn_heap w2)" using d1 d2 by auto
  have h: "handle_text w2 (next_addr w) = Some (mono_string_to_godot m1)"
    "handle_text w2 (next_addr w1) = Some (mono_string_to_godot m2)" using t1 t2 ne by auto
  show ?thesis using r1 r2 equals_step[OF w2 in2(1) in2(2)] equals_step[OF w2 in2(2) in2(1)] h
    by (auto simp: eq_commute[of "mono_string_to_godot m2"])
qed

text \<open>
  C24 (double destroy): destroying a live StringName twice makes the second call delete a
  pointer that is no longer an object (undefined behaviour), which the glue does not
  detect.
\<close>

theorem double_dtor_faults:
  assumes w: "wf_world w" and p: "p \<in> dom (sn_heap w)"
    and r: "godot_icall_StringName_Dtor p w = Inr ((), w')"
  shows "godot_icall_StringName_Dtor p w' = Inl Invalid_Delete"
proof -
  obtain w'' where r': "godot_icall_StringName_Dtor p w = Inr ((), w'')"
    and w'': "wf_world w''" and t: "handle_text w'' = (handle_text w)(p := None)"
    using dtor_step[OF w p] by blast
  have "w'' = w'" using r r' by simp
  moreover have "p \<notin> dom (handle_text w'')" using t by simp
  then have "sn_heap w'' p = None" using dom_handle_text[OF w''] by blast
  moreover have "p \<noteq> nullptr" using p wf_worldD(3)[OF w] by auto
  ultimately show ?thesis by (simp add: dtor_dangling)
qed

lemma wf_table_empty:
  assumes w: "wf_world w" and e: "sn_heap w = Map.empty"
  shows "sn_table w = []"
proof (rule ccontr)
  assume "sn_table w \<noteq> []"
  then obtain y where "y \<in> set (sn_table w)" by (cases "sn_table w") auto
  moreover obtain d x where "y = (d, x)" by (cases y)
  ultimately have x: "(d, x) \<in> set (sn_table w)" by simp
  have "sd_refcount x = card (holders (sn_heap w) (Some d))" by (rule wf_worldD(5)[OF w x])
  also have "\<dots> = 0" using e by (simp add: holders_def)
  finally show False using sn_table_okD(4)[OF wf_worldD(1)[OF w] x] by simp
qed

text \<open>
  C29 (default value): a default-constructed StringName converts to the empty managed
  string.
\<close>

theorem ctor_to_string_empty:
  assumes w: "wf_world w"
  shows "\<exists>p w'. godot_icall_StringName_Ctor w = Inr (p, w') \<and>
                godot_icall_StringName_operator_String p w' = Inr (Some [], w')"
proof -
  obtain w' where r: "godot_icall_StringName_Ctor w = Inr (next_addr w, w')"
    and w': "wf_world w'" and t: "handle_text w' = (handle_text w)(next_addr w \<mapsto> [])"
    using ctor_step[OF w] by blast
  have "next_addr w \<in> dom (sn_heap w')" using dom_after_step[OF w' t w] by simp
  then have "godot_icall_StringName_operator_String (next_addr w) w' = Inr (Some [], w')"
    using string_step[OF w'] t by (simp add: mono_string_from_godot_def)
  with r show ?thesis by blast
qed

theorem string_ctor_equals_by_value_witness:
  "\<exists>p1 w1 p2 w2. godot_icall_StringName_String_Ctor (Some [0x61]) init_world = Inr (p1, w1) \<and>
     godot_icall_StringName_String_Ctor (Some [0x61]) w1 = Inr (p2, w2) \<and>
     godot_icall_StringName_operator_Equals p1 p2 w2 = Inr (1, w2) \<and>
     godot_icall_StringName_operator_Equals p2 p1 w2 = Inr (1, w2)"
  using string_ctor_equals_by_value[OF wf_init, of "Some [0x61]" "Some [0x61]"]
  by (simp add: mono_boolean_of_def)

theorem double_dtor_faults_witness:
  "godot_icall_StringName_Dtor 1 (init_world\<lparr>next_addr := 2, sn_heap := [1 \<mapsto> None]\<rparr>) =
     Inr ((), init_world\<lparr>next_addr := 2, sn_heap := Map.empty\<rparr>) \<and>
   godot_icall_StringName_Dtor 1 (init_world\<lparr>next_addr := 2, sn_heap := Map.empty\<rparr>) = Inl Invalid_Delete"
proof -
  have r: "godot_icall_StringName_Dtor 1 (init_world\<lparr>next_addr := 2, sn_heap := [1 \<mapsto> None]\<rparr>) =
     Inr ((), init_world\<lparr>next_addr := 2, sn_heap := Map.empty\<rparr>)"
    by (simp add: dtor_of_null_name)
  show ?thesis using r double_dtor_faults[OF wf_one_null_name _ r] by simp
qed

theorem ctor_to_string_empty_witness:
  "\<exists>p w'. godot_icall_StringName_Ctor init_world = Inr (p, w') \<and>
          godot_icall_StringName_operator_String p w' = Inr (Some [], w')"
  by (rule ctor_to_string_empty[OF wf_init])

section \<open>Equality by value\<close>

lemma deref_Inr: "deref p w = Inr n \<longleftrightarrow> p \<noteq> nullptr \<and> sn_heap w p = Some n"
  by (auto simp: deref_def split: option.splits)

text \<open>
  C6 (equivalence with the by-value reference): in a well-formed world the equality
  entry point, which compares the \<open>_data\<close> pointers, computes on every pair of
  arguments exactly what the comparison of the two texts computes, faults included.
\<close>

theorem equals_is_by_value:
  assumes w: "wf_world w"
  shows "godot_icall_StringName_operator_Equals p q w = equals_by_value p q w"
proof (cases "deref p w"; cases "deref q w")
  fix n1 n2 assume p: "deref p w = Inr n1" and q: "deref q w = Inr n2"
  have h: "sn_heap w p = Some n1" "sn_heap w q = Some n2" using p q by (simp_all add: deref_Inr)
  have "n1 = n2 \<longleftrightarrow> string_name_to_string n1 w = string_name_to_string n2 w"
    using same_data_iff_same_text[OF w h] h by (simp add: handle_text_def)
  then show ?thesis using p q
    by (simp add: godot_icall_StringName_operator_Equals_def equals_by_value_def string_name_eq_def)
qed (simp_all add: godot_icall_StringName_operator_Equals_def equals_by_value_def)

theorem equals_is_by_value_witness:
  "godot_icall_StringName_operator_Equals 1 1 (init_world\<lparr>next_addr := 2, sn_heap := [1 \<mapsto> None]\<rparr>) =
   equals_by_value 1 1 (init_world\<lparr>next_addr := 2, sn_heap := [1 \<mapsto> None]\<rparr>)"
  using equals_is_by_value[OF wf_one_null_name] .

lemma string_ctor_init_A:
  "godot_icall_StringName_String_Ctor (Some [0x41]) init_world =
     Inr (1, init_world\<lparr>next_addr := 3, sn_table := [(2, \<lparr>sd_name = [0x41], sd_refcount = 1\<rparr>)],
                        sn_heap := [1 \<mapsto> Some 2]\<rparr>)"
  by (simp add: init_world_def godot_icall_StringName_String_Ctor_def memnew_def
        string_name_from_string_def mono_string_to_godot_def construct_at_def, simp add: fun_eq_iff)

text \<open>
  C27 (unguarded entry points): the string conversion and the equality entry point check
  no argument: a null handle is dereferenced, and equality reads its first argument
  before its second, so a dangling first handle is the fault even when the second is null.
\<close>

theorem unguarded_null_faults:
  "godot_icall_StringName_operator_String nullptr w = Inl Null_Dereference \<and>
   godot_icall_StringName_operator_Equals nullptr q w = Inl Null_Dereference \<and>
   godot_icall_StringName_operator_Equals p nullptr w =
     (if p \<noteq> nullptr \<and> sn_heap w p = None then Inl Dangling_Dereference else Inl Null_Dereference)"
  by (simp add: godot_icall_StringName_operator_String_def godot_icall_StringName_operator_Equals_def deref_def
      split: option.splits)

text \<open>
  C28 (ill-formed managed text): on a build with a four-byte \<open>CharType\<close> (the conversion
  \<open>Marshal\<close> models), a managed string that is not well-formed UTF-16 (a lone
  surrogate) is turned into the empty StringName without any report: nothing is
  interned, and the handle reads back as the empty managed string.
\<close>

theorem string_ctor_ill_formed_empty:
  assumes w: "wf_world w" and bad: "utf16_decode us = None"
  shows "\<exists>p w'. godot_icall_StringName_String_Ctor (Some us) w = Inr (p, w') \<and> sn_table w' = sn_table w \<and>
                godot_icall_StringName_operator_String p w' = Inr (Some [], w')"
proof -
  have e: "mono_string_to_godot (Some us) = []" by (rule mono_string_to_godot_ill_formed[OF bad])
  obtain w' where r: "godot_icall_StringName_String_Ctor (Some us) w = Inr (next_addr w, w')" and w': "wf_world w'"
    and t: "handle_text w' = (handle_text w)(next_addr w \<mapsto> [])"
    using string_ctor_step[OF w, of "Some us"] e by auto
  have "w' = w\<lparr>next_addr := Suc (next_addr w), sn_heap := (sn_heap w)(next_addr w \<mapsto> None)\<rparr>"
    using r string_ctor_empty[OF e, of w] by simp
  then have "sn_table w' = sn_table w" by simp
  moreover have "next_addr w \<in> dom (sn_heap w')" using dom_after_step[OF w' t w] by simp
  then have "godot_icall_StringName_operator_String (next_addr w) w' = Inr (Some [], w')"
    using string_step[OF w'] t by (simp add: mono_string_from_godot_def)
  ultimately show ?thesis using r by blast
qed

theorem string_ctor_ill_formed_empty_witness:
  "utf16_decode [0xD800, 0x41] = None \<and>
   (\<exists>p w'. godot_icall_StringName_String_Ctor (Some [0xD800, 0x41]) init_world = Inr (p, w') \<and>
      sn_table w' = sn_table init_world \<and> godot_icall_StringName_operator_String p w' = Inr (Some [], w'))"
proof -
  have d: "utf16_decode [0xD800, 0x41] = None" by simp
  show ?thesis using string_ctor_ill_formed_empty[OF wf_init d] d by blast
qed

text \<open>
  C21 (interning shares): creating a StringName from a managed string whose text is
  already interned adds no node to the table; the new object points at the existing one.
\<close>

theorem string_ctor_shares_node:
  assumes w: "wf_world w" and de: "(d, e) \<in> set (sn_table w)" and s: "sd_name e = mono_string_to_godot m"
  shows "\<exists>p w'. godot_icall_StringName_String_Ctor m w = Inr (p, w') \<and>
                map fst (sn_table w') = map fst (sn_table w) \<and> sn_heap w' p = Some (Some d)"
  using string_ctor_found[OF w de s] by simp

theorem string_ctor_shares_node_witness:
  "\<exists>p w'. godot_icall_StringName_String_Ctor (Some [0x41]) (init_world\<lparr>next_addr := 3, sn_table := [(2, \<lparr>sd_name = [0x41], sd_refcount = 1\<rparr>)], sn_heap := [1 \<mapsto> Some 2]\<rparr>) = Inr (p, w') \<and>
     map fst (sn_table w') = [2] \<and> sn_heap w' p = Some (Some 2)"
proof -
  have "(2, \<lparr>sd_name = [0x41], sd_refcount = 1\<rparr>) \<in> set (sn_table (init_world\<lparr>next_addr := 3, sn_table := [(2, \<lparr>sd_name = [0x41], sd_refcount = 1\<rparr>)], sn_heap := [1 \<mapsto> Some 2]\<rparr>))" by simp
  moreover have "sd_name \<lparr>sd_name = [0x41], sd_refcount = 1\<rparr> = mono_string_to_godot (Some [0x41])"
    by (simp add: mono_string_to_godot_def)
  ultimately show ?thesis using string_ctor_shares_node[OF wf_string_ctor[OF wf_init string_ctor_init_A]] by simp
qed

text \<open>
  C9 (round trip from the engine side): a StringName whose text is scalar values without
  U+0000, converted to a managed string and back into a new StringName, compares equal
  to the original.
\<close>

theorem to_string_ctor_roundtrip:
  assumes w: "wf_world w" and t: "handle_text w p = Some s"
    and sc: "list_all is_scalar_value s" and nz: "0 \<notin> set s"
  shows "\<exists>q w'. godot_icall_StringName_operator_String p w = Inr (mono_string_from_godot s, w) \<and>
                godot_icall_StringName_String_Ctor (mono_string_from_godot s) w = Inr (q, w') \<and>
                godot_icall_StringName_operator_Equals p q w' = Inr (1, w')"
proof -
  have p: "p \<in> dom (sn_heap w)" using t dom_handle_text[OF w] by auto
  obtain w' where r: "godot_icall_StringName_String_Ctor (mono_string_from_godot s) w = Inr (next_addr w, w')"
    and w': "wf_world w'" and t': "handle_text w' = (handle_text w)(next_addr w \<mapsto> s)"
    using string_ctor_step[OF w, of "mono_string_from_godot s"] godot_string_roundtrip[OF sc nz] by auto
  have "godot_icall_StringName_operator_Equals p (next_addr w) w' = Inr (1, w')"
    by (rule equals_fresh_same_text[OF w w' t' t])
  moreover have "godot_icall_StringName_operator_String p w = Inr (mono_string_from_godot s, w)"
    using string_step[OF w p] t by simp
  ultimately show ?thesis using r by blast
qed

theorem to_string_ctor_roundtrip_witness:
  "\<exists>q w'. godot_icall_StringName_operator_String 1 (init_world\<lparr>next_addr := 3, sn_table := [(2, \<lparr>sd_name = [0x41], sd_refcount = 1\<rparr>)], sn_heap := [1 \<mapsto> Some 2]\<rparr>) = Inr (mono_string_from_godot [0x41], (init_world\<lparr>next_addr := 3, sn_table := [(2, \<lparr>sd_name = [0x41], sd_refcount = 1\<rparr>)], sn_heap := [1 \<mapsto> Some 2]\<rparr>)) \<and>
     godot_icall_StringName_String_Ctor (mono_string_from_godot [0x41]) (init_world\<lparr>next_addr := 3, sn_table := [(2, \<lparr>sd_name = [0x41], sd_refcount = 1\<rparr>)], sn_heap := [1 \<mapsto> Some 2]\<rparr>) = Inr (q, w') \<and>
     godot_icall_StringName_operator_Equals 1 q w' = Inr (1, w')"
proof -
  note w = wf_string_ctor[OF wf_init string_ctor_init_A]
  have t: "handle_text (init_world\<lparr>next_addr := 3, sn_table := [(2, \<lparr>sd_name = [0x41], sd_refcount = 1\<rparr>)], sn_heap := [1 \<mapsto> Some 2]\<rparr>) 1 = Some [0x41]"
    by (simp add: handle_text_def string_name_to_string_def)
  have "list_all is_scalar_value [0x41 :: char32]" "(0 :: char32) \<notin> set [0x41]" by (simp_all add: is_scalar_value_def)
  then show ?thesis using to_string_ctor_roundtrip[OF w t] by blast
qed

end
