(* ===== verification/Registry.thy ===== *)
theory Registry
  imports Glue
begin

text \<open>
  How the managed runtime reaches the glue: \<open>src/glue/string_name_glue.h\<close> declares the
  six entry points, \<open>godot_register_stringname_icalls\<close> binds each to a fixed name
  with \<open>GDMonoUtils::add_internal_call\<close>, and the runtime resolves the name of an
  \<open>extern\<close> method at its call and calls the function with the method's arguments. The
  function pointers are the constructors of \<open>icall\<close>, the managed values crossing the
  boundary are \<open>icall_value\<close>s, and \<open>invoke_icall\<close> is the call of one entry point
  through its C signature. \<open>spec_call\<close> is the contract the six calls implement on the
  abstract view (live handle to text), and \<open>register_stringname_glue\<close> is the build flag
  around it all. The branch \<open>Signature_Mismatch\<close> of \<open>invoke_icall\<close> stands for an
  argument list that does not fit the C signature: the managed \<open>extern\<close> declarations
  exclude such a call and neither the header nor the runtime checks for it, so it is only
  the model's value for an ill-typed call, and no property rests on it.
\<close>

section \<open>Entry points, values and calls\<close>

datatype icall =
    I_Ctor | I_String_Ctor | I_StringName_Ctor | I_Dtor | I_operator_String | I_operator_Equals

datatype icall_value = V_Ptr addr | V_String mono_string | V_Bool mono_boolean | V_Void

datatype call_error = Native_Fault fault | Missing_Method string | Signature_Mismatch

definition lift_result :: "('r \<Rightarrow> icall_value) \<Rightarrow> 'r icall_result \<Rightarrow> call_error + (icall_value \<times> world)" where
  "lift_result f r = (case r of Inl e \<Rightarrow> Inl (Native_Fault e) | Inr (x, w) \<Rightarrow> Inr (f x, w))"

primrec invoke_icall :: "icall \<Rightarrow> icall_value list \<Rightarrow> world \<Rightarrow> call_error + (icall_value \<times> world)" where
  "invoke_icall I_Ctor args w =
     (case args of [] \<Rightarrow> lift_result V_Ptr (godot_icall_StringName_Ctor w) | _ \<Rightarrow> Inl Signature_Mismatch)"
| "invoke_icall I_String_Ctor args w =
     (case args of [V_String m] \<Rightarrow> lift_result V_Ptr (godot_icall_StringName_String_Ctor m w)
      | _ \<Rightarrow> Inl Signature_Mismatch)"
| "invoke_icall I_StringName_Ctor args w =
     (case args of [V_Ptr q] \<Rightarrow> lift_result V_Ptr (godot_icall_StringName_StringName_Ctor q w)
      | _ \<Rightarrow> Inl Signature_Mismatch)"
| "invoke_icall I_Dtor args w =
     (case args of [V_Ptr p] \<Rightarrow> lift_result (\<lambda>_. V_Void) (godot_icall_StringName_Dtor p w)
      | _ \<Rightarrow> Inl Signature_Mismatch)"
| "invoke_icall I_operator_String args w =
     (case args of [V_Ptr p] \<Rightarrow> lift_result V_String (godot_icall_StringName_operator_String p w)
      | _ \<Rightarrow> Inl Signature_Mismatch)"
| "invoke_icall I_operator_Equals args w =
     (case args of [V_Ptr p, V_Ptr q] \<Rightarrow> lift_result V_Bool (godot_icall_StringName_operator_Equals p q w)
      | _ \<Rightarrow> Inl Signature_Mismatch)"

section \<open>The internal-call registry\<close>

type_synonym icall_registry = "string \<rightharpoonup> icall"

text \<open>\<open>GDMonoUtils::add_internal_call\<close>, that is \<open>mono_add_internal_call\<close>: bind a name.\<close>

definition add_internal_call :: "string \<Rightarrow> icall \<Rightarrow> icall_registry \<Rightarrow> icall_registry" where
  "add_internal_call name f reg = reg(name \<mapsto> f)"

definition stringname_icall_bindings :: "(string \<times> icall) list" where
  "stringname_icall_bindings =
     [(''Godot.StringName::godot_icall_StringName_Ctor'', I_Ctor),
      (''Godot.StringName::godot_icall_StringName_String_Ctor'', I_String_Ctor),
      (''Godot.StringName::godot_icall_StringName_StringName_Ctor'', I_StringName_Ctor),
      (''Godot.StringName::godot_icall_StringName_Dtor'', I_Dtor),
      (''Godot.StringName::godot_icall_StringName_operator_String'', I_operator_String),
      (''Godot.StringName::godot_icall_StringName_operator_Equals'', I_operator_Equals)]"

definition godot_register_stringname_icalls :: "icall_registry \<Rightarrow> icall_registry" where
  "godot_register_stringname_icalls reg =
     fold (\<lambda>(name, f). add_internal_call name f) stringname_icall_bindings reg"

text \<open>
  Everything in \<open>string_name_glue.cpp\<close> after its include sits inside
  \<open>#ifdef MONO_GLUE_ENABLED\<close>: without the flag the entry points and the registration
  routine are not compiled, and the engine's start-up, under the same guard, registers
  nothing for them.
\<close>

definition register_stringname_glue :: "bool \<Rightarrow> icall_registry \<Rightarrow> icall_registry" where
  "register_stringname_glue mono_glue_enabled reg =
     (if mono_glue_enabled then godot_register_stringname_icalls reg else reg)"

text \<open>The runtime's call of an internal method by name; an unbound name is a managed error.\<close>

definition call_internal :: "icall_registry \<Rightarrow> string \<Rightarrow> icall_value list \<Rightarrow> world \<Rightarrow> call_error + (icall_value \<times> world)" where
  "call_internal reg name args w =
     (case reg name of None \<Rightarrow> Inl (Missing_Method name) | Some f \<Rightarrow> invoke_icall f args w)"

section \<open>The contract of the six calls\<close>

text \<open>
  On the abstract view \<open>H\<close> (live handle to text), the relation between a call, its
  arguments, its result and the view after it. A new handle is an address not live
  before; destroying the null handle changes nothing, since \<open>nullptr\<close> is never live.
\<close>

primrec spec_call :: "icall \<Rightarrow> icall_value list \<Rightarrow> (addr \<rightharpoonup> gstring) \<Rightarrow> icall_value \<Rightarrow> (addr \<rightharpoonup> gstring) \<Rightarrow> bool" where
  "spec_call I_Ctor args H r H' \<longleftrightarrow>
     args = [] \<and> (\<exists>p. r = V_Ptr p \<and> p \<noteq> nullptr \<and> p \<notin> dom H \<and> H' = H(p \<mapsto> []))"
| "spec_call I_String_Ctor args H r H' \<longleftrightarrow>
     (\<exists>m p. args = [V_String m] \<and> r = V_Ptr p \<and> p \<noteq> nullptr \<and> p \<notin> dom H \<and> H' = H(p \<mapsto> mono_string_to_godot m))"
| "spec_call I_StringName_Ctor args H r H' \<longleftrightarrow>
     (\<exists>q p s. args = [V_Ptr q] \<and> H q = Some s \<and> r = V_Ptr p \<and> p \<noteq> nullptr \<and> p \<notin> dom H \<and> H' = H(p \<mapsto> s))"
| "spec_call I_Dtor args H r H' \<longleftrightarrow>
     (\<exists>p. args = [V_Ptr p] \<and> r = V_Void \<and> H' = H(p := None))"
| "spec_call I_operator_String args H r H' \<longleftrightarrow>
     (\<exists>p s. args = [V_Ptr p] \<and> H p = Some s \<and> r = V_String (mono_string_from_godot s) \<and> H' = H)"
| "spec_call I_operator_Equals args H r H' \<longleftrightarrow>
     (\<exists>p q. args = [V_Ptr p, V_Ptr q] \<and> p \<in> dom H \<and> q \<in> dom H \<and>
        r = V_Bool (mono_boolean_of (H p = H q)) \<and> H' = H)"

text \<open>When a call can be made: the arguments fit the signature and name live handles.\<close>

primrec spec_pre :: "icall \<Rightarrow> icall_value list \<Rightarrow> (addr \<rightharpoonup> gstring) \<Rightarrow> bool" where
  "spec_pre I_Ctor args H \<longleftrightarrow> args = []"
| "spec_pre I_String_Ctor args H \<longleftrightarrow> (\<exists>m. args = [V_String m])"
| "spec_pre I_StringName_Ctor args H \<longleftrightarrow> (\<exists>q. args = [V_Ptr q] \<and> q \<in> dom H)"
| "spec_pre I_Dtor args H \<longleftrightarrow> (\<exists>p. args = [V_Ptr p] \<and> (p = nullptr \<or> p \<in> dom H))"
| "spec_pre I_operator_String args H \<longleftrightarrow> (\<exists>p. args = [V_Ptr p] \<and> p \<in> dom H)"
| "spec_pre I_operator_Equals args H \<longleftrightarrow> (\<exists>p q. args = [V_Ptr p, V_Ptr q] \<and> p \<in> dom H \<and> q \<in> dom H)"

section \<open>Lemmas on dispatch and registration\<close>

lemma bindings_distinct: "distinct (map fst stringname_icall_bindings)"
  by (simp add: stringname_icall_bindings_def)

lemma register_eq: "godot_register_stringname_icalls reg = reg ++ map_of stringname_icall_bindings"
proof -
  have "(\<lambda>(name, f). add_internal_call name f) = (\<lambda>(k, v) m. m(k \<mapsto> v))"
    by (simp add: add_internal_call_def fun_eq_iff)
  then show ?thesis
    by (simp add: godot_register_stringname_icalls_def fold_upd_map_add map_of_rev_distinct[OF bindings_distinct])
qed

lemma lift_result_Inr:
  "lift_result f r = Inr (v, w') \<longleftrightarrow> (\<exists>x. r = Inr (x, w') \<and> v = f x)"
  by (auto simp: lift_result_def split: sum.splits)

lemma lift_result_Inr_eq [simp]: "lift_result f (Inr (x, w)) = Inr (f x, w)"
  by (simp add: lift_result_def)

lemma handle_text_log [simp]: "handle_text (w\<lparr>err_log := l\<rparr>) = handle_text w"
  by (simp add: handle_text_def string_name_to_string_def fun_eq_iff split: option.splits)

lemma null_not_live: "wf_world w \<Longrightarrow> nullptr \<notin> dom (handle_text w)"
  using wf_worldD(3) by (auto simp: dom_handle_text)

lemma copy_ctor_result:
  assumes w: "wf_world w" and r: "godot_icall_StringName_StringName_Ctor q w = Inr (p, w')"
  shows "q \<in> dom (sn_heap w)"
proof (rule ccontr)
  assume "q \<notin> dom (sn_heap w)"
  then show False using r copy_ctor_null[of w] copy_ctor_dangling[of q w] by (cases "q = nullptr") auto
qed

lemma dtor_result:
  assumes r: "godot_icall_StringName_Dtor p w = Inr (u, w')"
  shows "p = nullptr \<or> p \<in> dom (sn_heap w)"
  using r dtor_dangling[of p w] by auto

lemma string_result:
  assumes w: "wf_world w" and r: "godot_icall_StringName_operator_String p w = Inr (s, w')"
  shows "p \<in> dom (sn_heap w)"
  using r by (auto simp: godot_icall_StringName_operator_String_def deref_def split: if_splits option.splits)

lemma equals_result:
  assumes r: "godot_icall_StringName_operator_Equals p q w = Inr (b, w')"
  shows "p \<in> dom (sn_heap w) \<and> q \<in> dom (sn_heap w)"
  using r by (auto simp: godot_icall_StringName_operator_Equals_def deref_def split: if_splits option.splits sum.splits)

lemma invoke_cases:
  assumes "invoke_icall f args w = Inr (r, w')"
  obtains (ctor) p where "f = I_Ctor" "args = []" "r = V_Ptr p" "godot_icall_StringName_Ctor w = Inr (p, w')"
  | (string_ctor) m p where "f = I_String_Ctor" "args = [V_String m]" "r = V_Ptr p" "godot_icall_StringName_String_Ctor m w = Inr (p, w')"
  | (copy_ctor) q p where "f = I_StringName_Ctor" "args = [V_Ptr q]" "r = V_Ptr p" "godot_icall_StringName_StringName_Ctor q w = Inr (p, w')"
  | (dtor) p where "f = I_Dtor" "args = [V_Ptr p]" "r = V_Void" "godot_icall_StringName_Dtor p w = Inr ((), w')"
  | (to_string) p s where "f = I_operator_String" "args = [V_Ptr p]" "r = V_String s" "godot_icall_StringName_operator_String p w = Inr (s, w')"
  | (equals) p q b where "f = I_operator_Equals" "args = [V_Ptr p, V_Ptr q]" "r = V_Bool b" "godot_icall_StringName_operator_Equals p q w = Inr (b, w')"
proof (cases f)
  case I_Ctor
  with assms show ?thesis by (auto simp: lift_result_Inr split: list.splits intro: ctor)
next
  case I_String_Ctor
  with assms show ?thesis by (auto simp: lift_result_Inr split: list.splits icall_value.splits intro: string_ctor)
next
  case I_StringName_Ctor
  with assms show ?thesis by (auto simp: lift_result_Inr split: list.splits icall_value.splits intro: copy_ctor)
next
  case I_Dtor
  with assms show ?thesis by (auto simp: lift_result_Inr split: list.splits icall_value.splits intro: dtor)
next
  case I_operator_String
  with assms show ?thesis by (auto simp: lift_result_Inr split: list.splits icall_value.splits intro: to_string)
next
  case I_operator_Equals
  with assms show ?thesis by (auto simp: lift_result_Inr split: list.splits icall_value.splits intro: equals)
qed

lemma fresh_not_live: "wf_world w \<Longrightarrow> next_addr w \<notin> dom (handle_text w) \<and> next_addr w \<noteq> nullptr"
  using wf_fresh[of w "next_addr w"] wf_worldD(2)[of w] by (simp add: dom_handle_text domIff)

lemma invoke_wf:
  assumes w: "wf_world w" and r: "invoke_icall f args w = Inr (r, w')"
  shows "wf_world w'"
  using r
proof (cases rule: invoke_cases)
  case (ctor p)
  then show ?thesis using wf_ctor[OF w] by blast
next
  case (string_ctor m p)
  then show ?thesis using wf_string_ctor[OF w] by blast
next
  case (copy_ctor q p)
  then show ?thesis using copy_ctor_step[OF w copy_ctor_result[OF w copy_ctor(4)]] by auto
next
  case (dtor p)
  then show ?thesis using dtor_result[OF dtor(4)] dtor_step[OF w, of p] dtor_null[of w] w
    by (auto simp: wf_log)
next
  case (to_string p s)
  then show ?thesis using string_step[OF w string_result[OF w to_string(4)]] w by simp
next
  case (equals p q b)
  then show ?thesis using equals_step[OF w] equals_result[OF equals(4)] w by simp
qed

lemma invoke_spec:
  assumes w: "wf_world w" and r: "invoke_icall f args w = Inr (r, w')"
  shows "spec_call f args (handle_text w) r (handle_text w')"
  using r
proof (cases rule: invoke_cases)
  case (ctor p)
  then show ?thesis using ctor_step[OF w] fresh_not_live[OF w] by auto
next
  case (string_ctor m p)
  then show ?thesis using string_ctor_step[OF w, of m] fresh_not_live[OF w] by auto
next
  case (copy_ctor q p)
  have q: "q \<in> dom (sn_heap w)" by (rule copy_ctor_result[OF w copy_ctor(4)])
  then obtain s where "handle_text w q = Some s" using dom_handle_text[OF w] by auto
  then show ?thesis using copy_ctor copy_ctor_step[OF w q] fresh_not_live[OF w] by auto
next
  case (dtor p)
  show ?thesis
  proof (cases "p = nullptr")
    case True
    then have "handle_text w p = None" using null_not_live[OF w] by auto
    then show ?thesis using dtor True dtor_null[of w] by (auto simp: fun_upd_idem)
  next
    case False
    then show ?thesis using dtor dtor_result[OF dtor(4)] dtor_step[OF w, of p] by auto
  qed
next
  case (to_string p s)
  have p: "p \<in> dom (handle_text w)" using string_result[OF w to_string(4)] dom_handle_text[OF w] by simp
  then show ?thesis using to_string string_step[OF w string_result[OF w to_string(4)]] by auto
next
  case (equals p q b)
  then show ?thesis using equals_step[OF w] equals_result[OF equals(4)] dom_handle_text[OF w] by auto
qed

lemma invoke_progress:
  assumes w: "wf_world w" and pre: "spec_pre f args (handle_text w)"
  shows "\<exists>r w'. invoke_icall f args w = Inr (r, w')"
proof (cases f)
  case I_Ctor
  then show ?thesis using pre ctor_step[OF w] by auto
next
  case I_String_Ctor
  moreover obtain m where "args = [V_String m]" using pre I_String_Ctor by auto
  ultimately show ?thesis using string_ctor_step[OF w, of m] by auto
next
  case I_StringName_Ctor
  moreover obtain q where q: "args = [V_Ptr q]" "q \<in> dom (sn_heap w)"
    using pre I_StringName_Ctor dom_handle_text[OF w] by auto
  ultimately show ?thesis using copy_ctor_step[OF w q(2)] by auto
next
  case I_Dtor
  moreover obtain p where p: "args = [V_Ptr p]" "p = nullptr \<or> p \<in> dom (sn_heap w)"
    using pre I_Dtor dom_handle_text[OF w] by auto
  have "\<exists>w'. godot_icall_StringName_Dtor p w = Inr ((), w')"
    using p(2) dtor_step[OF w, of p] dtor_null[of w] by blast
  with I_Dtor p(1) show ?thesis by auto
next
  case I_operator_String
  moreover obtain p where p: "args = [V_Ptr p]" "p \<in> dom (sn_heap w)"
    using pre I_operator_String dom_handle_text[OF w] by auto
  ultimately show ?thesis using string_step[OF w p(2)] by auto
next
  case I_operator_Equals
  moreover obtain p q where p: "args = [V_Ptr p, V_Ptr q]" "p \<in> dom (sn_heap w)" "q \<in> dom (sn_heap w)"
    using pre I_operator_Equals dom_handle_text[OF w] by auto
  ultimately show ?thesis using equals_step[OF w p(2,3)] by auto
qed

section \<open>Properties of the internal calls\<close>

text \<open>
  C23 (registration): \<open>godot_register_stringname_icalls\<close> binds the six names of
  \<open>string_name_glue.cpp\<close> over whatever the registry held, no name twice, and every
  entry point under some name.
\<close>

theorem register_binds_all:
  "godot_register_stringname_icalls reg = reg ++ map_of stringname_icall_bindings \<and>
   distinct (map fst stringname_icall_bindings) \<and> snd ` set stringname_icall_bindings = UNIV"
proof -
  have "f \<in> snd ` set stringname_icall_bindings" for f
    by (cases f) (force simp: stringname_icall_bindings_def)+
  then show ?thesis using register_eq bindings_distinct by blast
qed

text \<open>
  C3 (refinement): in a well-formed world, every call of an entry point through its
  signature that returns keeps the world well formed and does what \<open>spec_call\<close> says
  on the view of live handles as texts.
\<close>

theorem invoke_icall_refines:
  assumes "wf_world w" and "invoke_icall f args w = Inr (r, w')"
  shows "wf_world w' \<and> spec_call f args (handle_text w) r (handle_text w')"
  using invoke_wf[OF assms] invoke_spec[OF assms] by blast

theorem invoke_icall_refines_witness:
  "wf_world init_world \<and>
   invoke_icall I_String_Ctor [V_String (Some [0x41])] init_world =
     Inr (V_Ptr 1, init_world\<lparr>next_addr := 3, sn_table := [(2, \<lparr>sd_name = [0x41], sd_refcount = 1\<rparr>)],
                               sn_heap := [1 \<mapsto> Some 2]\<rparr>) \<and>
   spec_call I_String_Ctor [V_String (Some [0x41])] (handle_text init_world) (V_Ptr 1)
     (handle_text (init_world\<lparr>next_addr := 3, sn_table := [(2, \<lparr>sd_name = [0x41], sd_refcount = 1\<rparr>)],
                               sn_heap := [1 \<mapsto> Some 2]\<rparr>))"
proof -
  have c: "invoke_icall I_String_Ctor [V_String (Some [0x41])] init_world =
     Inr (V_Ptr 1, init_world\<lparr>next_addr := 3, sn_table := [(2, \<lparr>sd_name = [0x41], sd_refcount = 1\<rparr>)],
                               sn_heap := [1 \<mapsto> Some 2]\<rparr>)"
    by (simp add: init_world_def godot_icall_StringName_String_Ctor_def memnew_def
        string_name_from_string_def mono_string_to_godot_def construct_at_def, simp add: fun_eq_iff)
  show ?thesis using invoke_icall_refines[OF wf_init c] wf_init c by simp
qed

end
