(* ===== verification/Ownership.thy ===== *)
theory Ownership
  imports Registry
begin

text \<open>
  The managed owner of the handles. The spec makes the managed side the sole owner of
  every native \<open>StringName\<close>: it creates handles through the three constructor calls,
  reads and compares them, and destroys each exactly once; its advice is an explicit
  ownership token, so that a second release and a use after release are checked errors
  rather than native undefined behaviour. The owner maps each managed object to its
  token, \<open>Live p\<close> for the native address it owns or \<open>Released\<close>, and reaches the glue only
  through the runtime's call by name (\<open>call_internal\<close>) of the \<open>extern\<close> method names of
  the managed class. \<open>owner_view\<close> and \<open>owner_spec\<close> are the owner's abstract
  specification: objects as texts, and what each operation does to them.
\<close>

section \<open>The owner's state and operations\<close>

type_synonym obj = nat \<comment> \<open>a managed object\<close>

datatype token = Live addr | Released

type_synonym owner = "obj \<rightharpoonup> token"

type_synonym mstate = "world \<times> owner"

datatype owner_error = Unknown_Object | Object_Exists | Released_Handle | Double_Release
  | Native call_error

datatype owner_op = Create_Default obj | Create_From_Text obj mono_string | Create_Copy obj obj
  | To_Text obj | Equals_Op obj obj | Destroy obj

text \<open>The name the runtime resolves for the \<open>extern\<close> method bound to an entry point.\<close>

primrec managed_extern :: "icall \<Rightarrow> string" where
  "managed_extern I_Ctor = ''Godot.StringName::godot_icall_StringName_Ctor''"
| "managed_extern I_String_Ctor = ''Godot.StringName::godot_icall_StringName_String_Ctor''"
| "managed_extern I_StringName_Ctor = ''Godot.StringName::godot_icall_StringName_StringName_Ctor''"
| "managed_extern I_Dtor = ''Godot.StringName::godot_icall_StringName_Dtor''"
| "managed_extern I_operator_String = ''Godot.StringName::godot_icall_StringName_operator_String''"
| "managed_extern I_operator_Equals = ''Godot.StringName::godot_icall_StringName_operator_Equals''"

definition token_ptr :: "owner \<Rightarrow> obj \<Rightarrow> owner_error + addr" where
  "token_ptr own ob =
     (case own ob of None \<Rightarrow> Inl Unknown_Object | Some Released \<Rightarrow> Inl Released_Handle
      | Some (Live p) \<Rightarrow> Inr p)"

text \<open>A constructor's result becomes the token of the new object.\<close>

definition adopt :: "obj \<Rightarrow> call_error + (icall_value \<times> world) \<Rightarrow> owner \<Rightarrow> owner_error + (icall_value \<times> mstate)" where
  "adopt ob res own =
     (case res of Inl e \<Rightarrow> Inl (Native e)
      | Inr (V_Ptr p, w') \<Rightarrow> Inr (V_Void, (w', own(ob \<mapsto> Live p)))
      | Inr (_, _) \<Rightarrow> Inl (Native Signature_Mismatch))"

definition pass :: "call_error + (icall_value \<times> world) \<Rightarrow> owner \<Rightarrow> owner_error + (icall_value \<times> mstate)" where
  "pass res own = (case res of Inl e \<Rightarrow> Inl (Native e) | Inr (r, w') \<Rightarrow> Inr (r, (w', own)))"

fun owner_exec :: "icall_registry \<Rightarrow> owner_op \<Rightarrow> mstate \<Rightarrow> owner_error + (icall_value \<times> mstate)" where
  "owner_exec reg (Create_Default ob) (w, own) =
     (if ob \<in> dom own then Inl Object_Exists
      else adopt ob (call_internal reg (managed_extern I_Ctor) [] w) own)"
| "owner_exec reg (Create_From_Text ob m) (w, own) =
     (if ob \<in> dom own then Inl Object_Exists
      else adopt ob (call_internal reg (managed_extern I_String_Ctor) [V_String m] w) own)"
| "owner_exec reg (Create_Copy ob src) (w, own) =
     (if ob \<in> dom own then Inl Object_Exists
      else case token_ptr own src of Inl e \<Rightarrow> Inl e
        | Inr q \<Rightarrow> adopt ob (call_internal reg (managed_extern I_StringName_Ctor) [V_Ptr q] w) own)"
| "owner_exec reg (To_Text ob) (w, own) =
     (case token_ptr own ob of Inl e \<Rightarrow> Inl e
      | Inr p \<Rightarrow> pass (call_internal reg (managed_extern I_operator_String) [V_Ptr p] w) own)"
| "owner_exec reg (Equals_Op ob1 ob2) (w, own) =
     (case token_ptr own ob1 of Inl e \<Rightarrow> Inl e
      | Inr p \<Rightarrow> (case token_ptr own ob2 of Inl e \<Rightarrow> Inl e
          | Inr q \<Rightarrow> pass (call_internal reg (managed_extern I_operator_Equals) [V_Ptr p, V_Ptr q] w) own))"
| "owner_exec reg (Destroy ob) (w, own) =
     (case own ob of None \<Rightarrow> Inl Unknown_Object | Some Released \<Rightarrow> Inl Double_Release
      | Some (Live p) \<Rightarrow>
          (case call_internal reg (managed_extern I_Dtor) [V_Ptr p] w of Inl e \<Rightarrow> Inl (Native e)
           | Inr (_, w') \<Rightarrow> Inr (V_Void, (w', own(ob \<mapsto> Released)))))"

text \<open>
  The states a program of owner operations reaches from the start of the engine; an
  operation the owner refuses with a checked error is a managed exception and leaves the
  state as it was.
\<close>

inductive owner_reach :: "icall_registry \<Rightarrow> mstate \<Rightarrow> bool" for reg where
  owner_init: "owner_reach reg (init_world, Map.empty)"
| owner_step: "owner_reach reg s \<Longrightarrow> owner_exec reg op s = Inr (r, s') \<Longrightarrow> owner_reach reg s'"

section \<open>Invariant\<close>

definition live_ptrs :: "owner \<Rightarrow> addr set" where
  "live_ptrs own = {p. \<exists>ob. own ob = Some (Live p)}"

definition owner_inv :: "mstate \<Rightarrow> bool" where
  "owner_inv s \<longleftrightarrow> wf_world (fst s) \<and> dom (sn_heap (fst s)) = live_ptrs (snd s) \<and>
     (\<forall>ob1 ob2 p. snd s ob1 = Some (Live p) \<longrightarrow> snd s ob2 = Some (Live p) \<longrightarrow> ob1 = ob2)"

section \<open>The owner's abstract specification\<close>

text \<open>
  The view the managed side has: each object with a live token is the text of its
  native StringName. \<open>owner_spec\<close> is what each operation of the owner promises on it,
  read off the spec's table of operations.
\<close>

definition owner_view :: "mstate \<Rightarrow> obj \<rightharpoonup> gstring" where
  "owner_view s ob = (case snd s ob of Some (Live p) \<Rightarrow> handle_text (fst s) p | _ \<Rightarrow> None)"

primrec owner_spec :: "owner_op \<Rightarrow> (obj \<rightharpoonup> gstring) \<Rightarrow> icall_value \<Rightarrow> (obj \<rightharpoonup> gstring) \<Rightarrow> bool" where
  "owner_spec (Create_Default ob) V r V' \<longleftrightarrow> r = V_Void \<and> V' = V(ob \<mapsto> [])"
| "owner_spec (Create_From_Text ob m) V r V' \<longleftrightarrow> r = V_Void \<and> V' = V(ob \<mapsto> mono_string_to_godot m)"
| "owner_spec (Create_Copy ob src) V r V' \<longleftrightarrow> r = V_Void \<and> (\<exists>s. V src = Some s \<and> V' = V(ob \<mapsto> s))"
| "owner_spec (To_Text ob) V r V' \<longleftrightarrow> (\<exists>s. V ob = Some s \<and> r = V_String (mono_string_from_godot s) \<and> V' = V)"
| "owner_spec (Equals_Op ob1 ob2) V r V' \<longleftrightarrow>
     ob1 \<in> dom V \<and> ob2 \<in> dom V \<and> r = V_Bool (mono_boolean_of (V ob1 = V ob2)) \<and> V' = V"
| "owner_spec (Destroy ob) V r V' \<longleftrightarrow> r = V_Void \<and> V' = V(ob := None)"

text \<open>Every text of the view is one the engine can hand back unchanged.\<close>

definition view_ok :: "(obj \<rightharpoonup> gstring) \<Rightarrow> bool" where
  "view_ok V \<longleftrightarrow> (\<forall>ob t. V ob = Some t \<longrightarrow> text_ok t)"

section \<open>The managed names against the registry\<close>

lemma extern_bound: "map_of stringname_icall_bindings (managed_extern f) = Some f"
  by (cases f) (simp_all add: stringname_icall_bindings_def)

lemma call_registered:
  "call_internal (godot_register_stringname_icalls reg) (managed_extern f) args w = invoke_icall f args w"
  by (simp add: call_internal_def register_eq map_add_find_right extern_bound)

section \<open>The native heap after each kind of call\<close>

lemma invoke_new_dom:
  assumes w: "wf_world w" and f: "f \<in> {I_Ctor, I_String_Ctor, I_StringName_Ctor}"
    and r: "invoke_icall f args w = Inr (r, w')"
  shows "\<exists>p. r = V_Ptr p \<and> p \<notin> dom (sn_heap w) \<and> dom (sn_heap w') = insert p (dom (sn_heap w))"
proof -
  have s: "spec_call f args (handle_text w) r (handle_text w')" by (rule invoke_spec[OF w r])
  have d: "dom (handle_text w) = dom (sn_heap w)" "dom (handle_text w') = dom (sn_heap w')"
    using dom_handle_text[OF w] dom_handle_text[OF invoke_wf[OF w r]] by simp_all
  from f s show ?thesis by (auto simp: d[symmetric])
qed

lemma invoke_query_dom:
  assumes w: "wf_world w" and f: "f \<in> {I_operator_String, I_operator_Equals}"
    and r: "invoke_icall f args w = Inr (r, w')"
  shows "dom (sn_heap w') = dom (sn_heap w)"
proof -
  have s: "spec_call f args (handle_text w) r (handle_text w')" by (rule invoke_spec[OF w r])
  have d: "dom (handle_text w) = dom (sn_heap w)" "dom (handle_text w') = dom (sn_heap w')"
    using dom_handle_text[OF w] dom_handle_text[OF invoke_wf[OF w r]] by simp_all
  from f s show ?thesis by (auto simp: d[symmetric])
qed

lemma invoke_dtor_dom:
  assumes w: "wf_world w" and r: "invoke_icall I_Dtor [V_Ptr p] w = Inr (r, w')"
  shows "dom (sn_heap w') = dom (sn_heap w) - {p}"
proof -
  have s: "spec_call I_Dtor [V_Ptr p] (handle_text w) r (handle_text w')" by (rule invoke_spec[OF w r])
  have d: "dom (handle_text w) = dom (sn_heap w)" "dom (handle_text w') = dom (sn_heap w')"
    using dom_handle_text[OF w] dom_handle_text[OF invoke_wf[OF w r]] by simp_all
  from s show ?thesis by (auto simp: d[symmetric])
qed

section \<open>The owner invariant, case by case\<close>

lemma token_ptr_Inr: "token_ptr own ob = Inr p \<longleftrightarrow> own ob = Some (Live p)"
  by (auto simp: token_ptr_def split: option.splits token.splits)

lemma token_ptr_error: "token_ptr own ob = Inl e \<Longrightarrow> e = Unknown_Object \<or> e = Released_Handle"
  by (auto simp: token_ptr_def split: option.splits token.splits)

lemma token_ptr_live:
  "owner_inv (w, own) \<Longrightarrow> token_ptr own ob = Inr p \<Longrightarrow> p \<in> dom (sn_heap w)"
  by (auto simp: owner_inv_def live_ptrs_def token_ptr_Inr)

lemma owner_invI:
  assumes "wf_world w" "dom (sn_heap w) = live_ptrs own"
    and "\<And>ob1 ob2 p. own ob1 = Some (Live p) \<Longrightarrow> own ob2 = Some (Live p) \<Longrightarrow> ob1 = ob2"
  shows "owner_inv (w, own)"
  using assms unfolding owner_inv_def by auto

lemma owner_invD:
  assumes "owner_inv (w, own)"
  shows "wf_world w" "dom (sn_heap w) = live_ptrs own"
    and "own ob1 = Some (Live p) \<Longrightarrow> own ob2 = Some (Live p) \<Longrightarrow> ob1 = ob2"
  using assms unfolding owner_inv_def by auto

lemma live_ptrsI: "own ob = Some (Live p) \<Longrightarrow> p \<in> live_ptrs own"
  by (auto simp: live_ptrs_def)

lemma inv_init: "owner_inv (init_world, Map.empty)"
  by (rule owner_invI[OF wf_init]) (simp_all add: live_ptrs_def init_world_def)

lemma inv_adopt:
  assumes i: "owner_inv (w, own)" and ob: "ob \<notin> dom own" and w': "wf_world w'"
    and p: "p \<notin> dom (sn_heap w)" and d: "dom (sn_heap w') = insert p (dom (sn_heap w))"
  shows "owner_inv (w', own(ob \<mapsto> Live p))"
proof (rule owner_invI[OF w'])
  have "live_ptrs (own(ob \<mapsto> Live p)) = insert p (live_ptrs own)"
    using ob by (auto simp: live_ptrs_def)
  then show "dom (sn_heap w') = live_ptrs (own(ob \<mapsto> Live p))" using d owner_invD(2)[OF i] by simp
next
  have old: "own ob' \<noteq> Some (Live p)" for ob'
    using p live_ptrsI[of own ob' p] owner_invD(2)[OF i] by auto
  fix ob1 ob2 q
  assume 1: "(own(ob \<mapsto> Live p)) ob1 = Some (Live q)" and 2: "(own(ob \<mapsto> Live p)) ob2 = Some (Live q)"
  show "ob1 = ob2"
  proof (cases "ob1 = ob"; cases "ob2 = ob")
    assume "ob1 \<noteq> ob" "ob2 \<noteq> ob"
    then show ?thesis using 1 2 owner_invD(3)[OF i] by simp
  next
    assume "ob1 = ob" "ob2 \<noteq> ob"
    then show ?thesis using 1 2 old[of ob2] by simp
  next
    assume "ob1 \<noteq> ob" "ob2 = ob"
    then show ?thesis using 1 2 old[of ob1] by simp
  qed simp
qed

lemma inv_keep:
  assumes i: "owner_inv (w, own)" and w': "wf_world w'" and d: "dom (sn_heap w') = dom (sn_heap w)"
  shows "owner_inv (w', own)"
proof (rule owner_invI[OF w'])
  show "dom (sn_heap w') = live_ptrs own" using d owner_invD(2)[OF i] by simp
  show "ob1 = ob2" if "own ob1 = Some (Live p)" "own ob2 = Some (Live p)" for ob1 ob2 p
    using owner_invD(3)[OF i that] .
qed

lemma inv_release:
  assumes i: "owner_inv (w, own)" and ob: "own ob = Some (Live p)" and w': "wf_world w'"
    and d: "dom (sn_heap w') = dom (sn_heap w) - {p}"
  shows "owner_inv (w', own(ob \<mapsto> Released))"
proof (rule owner_invI[OF w'])
  have u: "ob' = ob" if "own ob' = Some (Live p)" for ob'
    using owner_invD(3)[OF i that ob] .
  have "live_ptrs (own(ob \<mapsto> Released)) = live_ptrs own - {p}"
  proof (rule set_eqI)
    fix q
    show "q \<in> live_ptrs (own(ob \<mapsto> Released)) \<longleftrightarrow> q \<in> live_ptrs own - {p}"
    proof
      assume "q \<in> live_ptrs (own(ob \<mapsto> Released))"
      then obtain ob' where "ob' \<noteq> ob" "own ob' = Some (Live q)" by (auto simp: live_ptrs_def split: if_splits)
      then show "q \<in> live_ptrs own - {p}" using u[of ob'] by (auto simp: live_ptrs_def)
    next
      assume "q \<in> live_ptrs own - {p}"
      then obtain ob' where "own ob' = Some (Live q)" "q \<noteq> p" by (auto simp: live_ptrs_def)
      moreover then have "ob' \<noteq> ob" using ob by auto
      ultimately show "q \<in> live_ptrs (own(ob \<mapsto> Released))" by (auto simp: live_ptrs_def)
    qed
  qed
  then show "dom (sn_heap w') = live_ptrs (own(ob \<mapsto> Released))" using d owner_invD(2)[OF i] by simp
next
  fix ob1 ob2 q
  assume "(own(ob \<mapsto> Released)) ob1 = Some (Live q)" "(own(ob \<mapsto> Released)) ob2 = Some (Live q)"
  then have "ob1 \<noteq> ob" "ob2 \<noteq> ob" "own ob1 = Some (Live q)" "own ob2 = Some (Live q)"
    by (simp_all split: if_splits)
  then show "ob1 = ob2" using owner_invD(3)[OF i] by blast
qed

lemma adopt_Inr:
  "adopt ob res own = Inr (r, s') \<longleftrightarrow> (\<exists>p w'. res = Inr (V_Ptr p, w') \<and> r = V_Void \<and> s' = (w', own(ob \<mapsto> Live p)))"
  by (auto simp: adopt_def split: sum.splits icall_value.splits)

lemma pass_Inr: "pass res own = Inr (r, s') \<longleftrightarrow> (\<exists>w'. res = Inr (r, w') \<and> s' = (w', own))"
  by (auto simp: pass_def split: sum.splits)

lemma adopt_inv:
  assumes i: "owner_inv (w, own)" and ob: "ob \<notin> dom own" and f: "f \<in> {I_Ctor, I_String_Ctor, I_StringName_Ctor}"
    and r: "adopt ob (invoke_icall f args w) own = Inr (r, s')"
  shows "owner_inv s'"
proof -
  obtain p w' where c: "invoke_icall f args w = Inr (V_Ptr p, w')" and s': "s' = (w', own(ob \<mapsto> Live p))"
    using r by (auto simp: adopt_Inr)
  note w = owner_invD(1)[OF i]
  show ?thesis using invoke_new_dom[OF w f c] inv_adopt[OF i ob invoke_wf[OF w c]] s' by auto
qed

lemma pass_inv:
  assumes i: "owner_inv (w, own)" and f: "f \<in> {I_operator_String, I_operator_Equals}"
    and r: "pass (invoke_icall f args w) own = Inr (r, s')"
  shows "owner_inv s'"
proof -
  obtain w' where c: "invoke_icall f args w = Inr (r, w')" and s': "s' = (w', own)"
    using r by (auto simp: pass_Inr)
  note w = owner_invD(1)[OF i]
  show ?thesis using inv_keep[OF i invoke_wf[OF w c] invoke_query_dom[OF w f c]] s' by simp
qed

lemma adopt_safe:
  assumes i: "owner_inv (w, own)" and f: "f \<in> {I_Ctor, I_String_Ctor, I_StringName_Ctor}"
    and pre: "spec_pre f args (handle_text w)"
  shows "\<exists>r s'. adopt ob (invoke_icall f args w) own = Inr (r, s')"
proof -
  note w = owner_invD(1)[OF i]
  obtain r w' where c: "invoke_icall f args w = Inr (r, w')" using invoke_progress[OF w pre] by blast
  then show ?thesis using invoke_new_dom[OF w f c] by (auto simp: adopt_def)
qed

lemma pass_safe:
  assumes i: "owner_inv (w, own)" and pre: "spec_pre f args (handle_text w)"
  shows "\<exists>r s'. pass (invoke_icall f args w) own = Inr (r, s')"
  using invoke_progress[OF owner_invD(1)[OF i] pre] by (auto simp: pass_def)

lemma owned_pre: "owner_inv (w, own) \<Longrightarrow> token_ptr own ob = Inr p \<Longrightarrow> p \<in> dom (handle_text w)"
  using token_ptr_live dom_handle_text[OF owner_invD(1)] by blast

section \<open>Every owner operation, against the registered glue\<close>

abbreviation registered :: "icall_registry \<Rightarrow> icall_registry" where
  "registered reg \<equiv> godot_register_stringname_icalls reg"

lemma owner_exec_inv:
  assumes i: "owner_inv (w, own)" and r: "owner_exec (registered reg) op (w, own) = Inr (r, s')"
  shows "owner_inv s'"
proof (cases op)
  case (Create_Default ob)
  then show ?thesis using r adopt_inv[OF i, of ob I_Ctor] by (simp add: call_registered del: invoke_icall.simps managed_extern.simps split: if_splits)
next
  case (Create_From_Text ob m)
  then show ?thesis using r adopt_inv[OF i, of ob I_String_Ctor] by (simp add: call_registered del: invoke_icall.simps managed_extern.simps split: if_splits)
next
  case (Create_Copy ob src)
  then show ?thesis using r adopt_inv[OF i, of ob I_StringName_Ctor]
    by (simp add: call_registered del: invoke_icall.simps managed_extern.simps split: if_splits sum.splits)
next
  case (To_Text ob)
  then show ?thesis using r pass_inv[OF i, of I_operator_String] by (simp add: call_registered del: invoke_icall.simps managed_extern.simps split: sum.splits)
next
  case (Equals_Op ob1 ob2)
  then show ?thesis using r pass_inv[OF i, of I_operator_Equals] by (simp add: call_registered del: invoke_icall.simps managed_extern.simps split: sum.splits)
next
  case (Destroy ob)
  then obtain p where ob: "own ob = Some (Live p)"
    using r by (auto split: option.splits token.splits)
  with Destroy r obtain u w' where c: "invoke_icall I_Dtor [V_Ptr p] w = Inr (u, w')"
    and s': "s' = (w', own(ob \<mapsto> Released))"
    by (auto simp: call_registered simp del: invoke_icall.simps managed_extern.simps split: sum.splits)
  note w = owner_invD(1)[OF i]
  show ?thesis using inv_release[OF i ob invoke_wf[OF w c] invoke_dtor_dom[OF w c]] s' by simp
qed

lemma owner_exec_safe:
  assumes i: "owner_inv (w, own)"
  shows "owner_exec (registered reg) op (w, own) \<noteq> Inl (Native e)"
proof (cases op)
  case (Create_Default ob)
  then show ?thesis using adopt_safe[OF i, of I_Ctor "[]" ob] by (auto simp: call_registered simp del: invoke_icall.simps managed_extern.simps)
next
  case (Create_From_Text ob m)
  then show ?thesis using adopt_safe[OF i, of I_String_Ctor "[V_String m]" ob] by (auto simp: call_registered simp del: invoke_icall.simps managed_extern.simps)
next
  case (Create_Copy ob src)
  show ?thesis
  proof (cases "token_ptr own src")
    case (Inr q)
    then show ?thesis using Create_Copy owned_pre[OF i Inr] adopt_safe[OF i, of I_StringName_Ctor "[V_Ptr q]" ob]
      by (auto simp: call_registered simp del: invoke_icall.simps managed_extern.simps)
  qed (auto simp: Create_Copy dest: token_ptr_error)
next
  case (To_Text ob)
  show ?thesis
  proof (cases "token_ptr own ob")
    case (Inr p)
    then show ?thesis using To_Text owned_pre[OF i Inr] pass_safe[OF i, of I_operator_String "[V_Ptr p]"]
      by (auto simp: call_registered simp del: invoke_icall.simps managed_extern.simps)
  qed (auto simp: To_Text dest: token_ptr_error)
next
  case (Equals_Op ob1 ob2)
  show ?thesis
  proof (cases "token_ptr own ob1"; cases "token_ptr own ob2")
    fix p q assume p: "token_ptr own ob1 = Inr p" and q: "token_ptr own ob2 = Inr q"
    then show ?thesis using Equals_Op owned_pre[OF i p] owned_pre[OF i q]
        pass_safe[OF i, of I_operator_Equals "[V_Ptr p, V_Ptr q]"]
      by (auto simp: call_registered simp del: invoke_icall.simps managed_extern.simps)
  qed (auto simp: Equals_Op dest: token_ptr_error)
next
  case (Destroy ob)
  show ?thesis
  proof (cases "own ob")
    case (Some t)
    show ?thesis
    proof (cases t)
      case (Live p)
      then have "token_ptr own ob = Inr p" using Some by (simp add: token_ptr_Inr)
      then have "spec_pre I_Dtor [V_Ptr p] (handle_text w)" using owned_pre[OF i] by simp
      then obtain u w' where "invoke_icall I_Dtor [V_Ptr p] w = Inr (u, w')"
        using invoke_progress[OF owner_invD(1)[OF i]] by blast
      then show ?thesis using Destroy Some Live by (simp add: call_registered del: invoke_icall.simps managed_extern.simps)
    qed (simp add: Destroy Some)
  qed (simp add: Destroy)
qed

lemma reach_inv: "owner_reach (registered reg) s \<Longrightarrow> owner_inv s"
proof (induction rule: owner_reach.induct)
  case owner_init
  then show ?case by (rule inv_init)
next
  case (owner_step s op r s')
  then show ?case using owner_exec_inv by (cases s) blast
qed

section \<open>The owner against its specification\<close>

lemma view_token:
  "owner_inv (w, own) \<Longrightarrow> token_ptr own ob = Inr p \<Longrightarrow> owner_view (w, own) ob = handle_text w p"
  by (simp add: owner_view_def token_ptr_Inr)

lemma view_token_live:
  "owner_inv (w, own) \<Longrightarrow> token_ptr own ob = Inr p \<Longrightarrow> ob \<in> dom (owner_view (w, own))"
  using view_token owned_pre by fastforce

lemma view_adopt:
  assumes i: "owner_inv (w, own)" and p: "p \<notin> dom (handle_text w)"
    and t: "handle_text w' = (handle_text w)(p \<mapsto> x)"
  shows "owner_view (w', own(ob \<mapsto> Live p)) = (owner_view (w, own))(ob \<mapsto> x)"
proof
  fix ob'
  show "owner_view (w', own(ob \<mapsto> Live p)) ob' = ((owner_view (w, own))(ob \<mapsto> x)) ob'"
  proof (cases "ob' = ob")
    case False
    have "q \<noteq> p" if "own ob' = Some (Live q)" for q
      using that p live_ptrsI[of own ob' q] owner_invD(2)[OF i] dom_handle_text[OF owner_invD(1)[OF i]] by auto
    then show ?thesis using False t by (auto simp: owner_view_def split: option.splits token.splits)
  qed (simp add: owner_view_def t)
qed

lemma view_keep: "handle_text w' = handle_text w \<Longrightarrow> owner_view (w', own) = owner_view (w, own)"
  by (rule ext) (simp add: owner_view_def split: option.splits token.splits)

lemma view_release:
  assumes i: "owner_inv (w, own)" and ob: "own ob = Some (Live p)"
    and t: "handle_text w' = (handle_text w)(p := None)"
  shows "owner_view (w', own(ob \<mapsto> Released)) = (owner_view (w, own))(ob := None)"
proof
  fix ob'
  show "owner_view (w', own(ob \<mapsto> Released)) ob' = ((owner_view (w, own))(ob := None)) ob'"
  proof (cases "ob' = ob")
    case False
    have "q \<noteq> p" if "own ob' = Some (Live q)" for q
      using that False owner_invD(3)[OF i _ ob] by auto
    then show ?thesis using False t by (auto simp: owner_view_def split: option.splits token.splits)
  qed (simp add: owner_view_def)
qed

lemmas exec_simps = call_registered adopt_Inr pass_Inr token_ptr_Inr

lemma owner_exec_spec:
  assumes i: "owner_inv (w, own)" and x: "owner_exec (registered reg) op (w, own) = Inr (r, s')"
  shows "owner_spec op (owner_view (w, own)) r (owner_view s')"
proof -
  note w = owner_invD(1)[OF i]
  show ?thesis
  proof (cases op)
    case (Create_Default ob)
    then obtain p w' where c: "invoke_icall I_Ctor [] w = Inr (V_Ptr p, w')" and r: "r = V_Void"
      and s': "s' = (w', own(ob \<mapsto> Live p))"
      using x by (auto simp: exec_simps simp del: invoke_icall.simps managed_extern.simps split: if_splits)
    have "p \<notin> dom (handle_text w)" "handle_text w' = (handle_text w)(p \<mapsto> [])"
      using invoke_spec[OF w c] by auto
    then show ?thesis using Create_Default r s' view_adopt[OF i] by simp
  next
    case (Create_From_Text ob m)
    then obtain p w' where c: "invoke_icall I_String_Ctor [V_String m] w = Inr (V_Ptr p, w')" and r: "r = V_Void"
      and s': "s' = (w', own(ob \<mapsto> Live p))"
      using x by (auto simp: exec_simps simp del: invoke_icall.simps managed_extern.simps split: if_splits)
    have "p \<notin> dom (handle_text w)" "handle_text w' = (handle_text w)(p \<mapsto> mono_string_to_godot m)"
      using invoke_spec[OF w c] by auto
    then show ?thesis using Create_From_Text r s' view_adopt[OF i] by simp
  next
    case (Create_Copy ob src)
    then obtain q p w' where q: "token_ptr own src = Inr q"
      and c: "invoke_icall I_StringName_Ctor [V_Ptr q] w = Inr (V_Ptr p, w')" and r: "r = V_Void"
      and s': "s' = (w', own(ob \<mapsto> Live p))"
      using x by (auto simp: exec_simps simp del: invoke_icall.simps managed_extern.simps
          split: if_splits sum.splits)
    obtain t where "handle_text w q = Some t" "p \<notin> dom (handle_text w)" "handle_text w' = (handle_text w)(p \<mapsto> t)"
      using invoke_spec[OF w c] by auto
    then show ?thesis using Create_Copy r s' view_adopt[OF i] view_token[OF i q] by simp
  next
    case (To_Text ob)
    then obtain p w' where p: "token_ptr own ob = Inr p"
      and c: "invoke_icall I_operator_String [V_Ptr p] w = Inr (r, w')" and s': "s' = (w', own)"
      using x by (auto simp: exec_simps simp del: invoke_icall.simps managed_extern.simps split: sum.splits)
    obtain t where "handle_text w p = Some t" "r = V_String (mono_string_from_godot t)" "handle_text w' = handle_text w"
      using invoke_spec[OF w c] by auto
    then show ?thesis using To_Text s' view_keep[of w' w own] view_token[OF i p] by simp
  next
    case (Equals_Op ob1 ob2)
    then obtain p q w' where p: "token_ptr own ob1 = Inr p" and q: "token_ptr own ob2 = Inr q"
      and c: "invoke_icall I_operator_Equals [V_Ptr p, V_Ptr q] w = Inr (r, w')" and s': "s' = (w', own)"
      using x by (auto simp: exec_simps simp del: invoke_icall.simps managed_extern.simps split: sum.splits)
    have "r = V_Bool (mono_boolean_of (handle_text w p = handle_text w q))" "handle_text w' = handle_text w"
      using invoke_spec[OF w c] by auto
    then show ?thesis using Equals_Op s' view_keep[of w' w own] view_token[OF i p] view_token[OF i q]
        view_token_live[OF i p] view_token_live[OF i q] by simp
  next
    case (Destroy ob)
    then obtain p u w' where ob: "own ob = Some (Live p)"
      and c: "invoke_icall I_Dtor [V_Ptr p] w = Inr (u, w')" and r: "r = V_Void"
      and s': "s' = (w', own(ob \<mapsto> Released))"
      using x by (auto simp: exec_simps simp del: invoke_icall.simps managed_extern.simps
          split: option.splits token.splits sum.splits)
    have "handle_text w' = (handle_text w)(p := None)" using invoke_spec[OF w c] by auto
    then show ?thesis using Destroy r s' view_release[OF i ob] by simp
  qed
qed

lemma view_ok_spec: "owner_spec op V r V' \<Longrightarrow> view_ok V \<Longrightarrow> view_ok V'"
  by (cases op) (auto simp: view_ok_def text_ok_conv text_ok_Nil split: if_splits)

lemma reach_view_ok: "owner_reach (registered reg) s \<Longrightarrow> view_ok (owner_view s)"
proof (induction rule: owner_reach.induct)
  case owner_init
  then show ?case by (simp add: view_ok_def owner_view_def)
next
  case (owner_step s op r s')
  obtain w own where s: "s = (w, own)" by (cases s)
  have "owner_spec op (owner_view s) r (owner_view s')"
    using owner_exec_spec[OF reach_inv[OF owner_step.hyps(1)[unfolded s]]] owner_step.hyps(2) s by simp
  then show ?case using view_ok_spec owner_step.IH by blast
qed

section \<open>Releasing everything, one token at a time\<close>

lemma release_one:
  assumes r: "owner_reach (registered reg) (w, own)" and ob: "own ob = Some (Live p)"
  shows "\<exists>w'. owner_exec (registered reg) (Destroy ob) (w, own) = Inr (V_Void, (w', own(ob \<mapsto> Released))) \<and>
              dom (sn_heap w') = dom (sn_heap w) - {p}"
proof -
  have i: "owner_inv (w, own)" by (rule reach_inv[OF r])
  have "owner_exec (registered reg) (Destroy ob) (w, own) \<noteq> Inl (Native e)" for e
    by (rule owner_exec_safe[OF i])
  then obtain u w' where c: "invoke_icall I_Dtor [V_Ptr p] w = Inr (u, w')"
    using ob by (cases "invoke_icall I_Dtor [V_Ptr p] w")
      (auto simp: call_registered simp del: invoke_icall.simps managed_extern.simps)
  then show ?thesis using ob invoke_dtor_dom[OF owner_invD(1)[OF i] c]
    by (simp add: call_registered del: invoke_icall.simps managed_extern.simps)
qed

lemma release_all_from:
  "owner_reach (registered reg) (w, own) \<Longrightarrow> card (dom (sn_heap w)) = n \<Longrightarrow>
   \<exists>w' own'. owner_reach (registered reg) (w', own') \<and> dom own' = dom own \<and> live_ptrs own' = {}"
proof (induction n arbitrary: w own)
  case 0
  have i: "owner_inv (w, own)" by (rule reach_inv[OF "0.prems"(1)])
  have "dom (sn_heap w) = {}" using "0.prems"(2) wf_finite[OF owner_invD(1)[OF i]] by simp
  then show ?case using "0.prems"(1) owner_invD(2)[OF i] by auto
next
  case (Suc n)
  have i: "owner_inv (w, own)" by (rule reach_inv[OF Suc.prems(1)])
  have "dom (sn_heap w) \<noteq> {}" using Suc.prems(2) by auto
  then obtain p where "p \<in> live_ptrs own" using owner_invD(2)[OF i] by auto
  then obtain ob where ob: "own ob = Some (Live p)" by (auto simp: live_ptrs_def)
  obtain w' where x: "owner_exec (registered reg) (Destroy ob) (w, own) = Inr (V_Void, (w', own(ob \<mapsto> Released)))"
    and d: "dom (sn_heap w') = dom (sn_heap w) - {p}"
    using release_one[OF Suc.prems(1) ob] by blast
  have r': "owner_reach (registered reg) (w', own(ob \<mapsto> Released))" by (rule owner_step[OF Suc.prems(1) x])
  have "p \<in> dom (sn_heap w)" using ob owner_invD(2)[OF i] by (auto simp: live_ptrs_def)
  then have "card (dom (sn_heap w')) = n"
    using d Suc.prems(2) wf_finite[OF owner_invD(1)[OF i]] by simp
  from Suc.IH[OF r' this] obtain w'' own'' where
    "owner_reach (registered reg) (w'', own'')" "dom own'' = dom (own(ob \<mapsto> Released))" "live_ptrs own'' = {}"
    by blast
  moreover have "dom (own(ob \<mapsto> Released)) = dom own" using ob by auto
  ultimately show ?case by auto
qed

section \<open>A run of the owner: create from text, then release\<close>

lemma run_create_text:
  "owner_exec (registered Map.empty) (Create_From_Text 0 (Some [0x41])) (init_world, Map.empty) =
   Inr (V_Void, (init_world\<lparr>next_addr := 3, sn_table := [(2, \<lparr>sd_name = [0x41], sd_refcount = 1\<rparr>)],
                            sn_heap := [1 \<mapsto> Some 2]\<rparr>, [0 \<mapsto> Live 1]))"
  by (simp add: call_registered init_world_def godot_icall_StringName_String_Ctor_def memnew_def
        string_name_from_string_def mono_string_to_godot_def construct_at_def adopt_def
        del: managed_extern.simps, simp add: fun_eq_iff)

lemma run_release:
  "owner_exec (registered Map.empty) (Destroy 0)
     (init_world\<lparr>next_addr := 3, sn_table := [(2, \<lparr>sd_name = [0x41], sd_refcount = 1\<rparr>)],
                 sn_heap := [1 \<mapsto> Some 2]\<rparr>, [0 \<mapsto> Live 1]) =
   Inr (V_Void, (init_world\<lparr>next_addr := 3\<rparr>, [0 \<mapsto> Released]))"
  by (simp add: call_registered init_world_def godot_icall_StringName_Dtor_def err_fail_null_def
        memdelete_def string_name_unref_def del: managed_extern.simps)

lemma reach_released: "owner_reach (registered Map.empty) (init_world\<lparr>next_addr := 3\<rparr>, [0 \<mapsto> Released])"
  using owner_step[OF owner_step[OF owner_init run_create_text] run_release] .

lemma run_to_text:
  "owner_exec (registered Map.empty) (To_Text 0)
     (init_world\<lparr>next_addr := 3, sn_table := [(2, \<lparr>sd_name = [0x41], sd_refcount = 1\<rparr>)],
                 sn_heap := [1 \<mapsto> Some 2]\<rparr>, [0 \<mapsto> Live 1]) =
   Inr (V_String (Some [0x41]), (init_world\<lparr>next_addr := 3, sn_table := [(2, \<lparr>sd_name = [0x41], sd_refcount = 1\<rparr>)],
                 sn_heap := [1 \<mapsto> Some 2]\<rparr>, [0 \<mapsto> Live 1]))"
  by (simp add: call_registered token_ptr_def pass_def godot_icall_StringName_operator_String_def deref_def
        string_name_to_string_def mono_string_from_godot_def is_scalar_value_def del: managed_extern.simps)

lemma run_create_shared:
  "owner_exec (registered Map.empty) (Create_From_Text 1 (Some [0x41]))
     (init_world\<lparr>next_addr := 3, sn_table := [(2, \<lparr>sd_name = [0x41], sd_refcount = 1\<rparr>)],
                 sn_heap := [1 \<mapsto> Some 2]\<rparr>, [0 \<mapsto> Live 1]) =
   Inr (V_Void, (init_world\<lparr>next_addr := 4, sn_table := [(2, \<lparr>sd_name = [0x41], sd_refcount = 2\<rparr>)],
                 sn_heap := [1 \<mapsto> Some 2, 3 \<mapsto> Some 2]\<rparr>, [0 \<mapsto> Live 1, 1 \<mapsto> Live 3]))"
  by (simp add: call_registered init_world_def godot_icall_StringName_String_Ctor_def memnew_def
        string_name_from_string_def mono_string_to_godot_def construct_at_def adopt_def update_node_def
        del: managed_extern.simps)

section \<open>Properties of the owner\<close>

text \<open>
  C5 (memory safety of the protocol): whatever sequence of operations the owner has run
  against the registered glue, the next one never reaches a native fault and never
  misses its entry point: a release of a released handle and a use after release are
  refused by the owner's token before the glue is called.
\<close>

theorem owner_never_faults:
  assumes "owner_reach (godot_register_stringname_icalls reg) s"
  shows "owner_exec (godot_register_stringname_icalls reg) op s \<noteq> Inl (Native e)"
proof -
  obtain w own where s: "s = (w, own)" by (cases s)
  show ?thesis using owner_exec_safe[OF reach_inv[OF assms[unfolded s]]] s by simp
qed

theorem owner_never_faults_witness:
  "owner_exec (godot_register_stringname_icalls Map.empty) (Destroy 0) (init_world\<lparr>next_addr := 3\<rparr>, [0 \<mapsto> Released])
     \<noteq> Inl (Native (Native_Fault Invalid_Delete))"
  using owner_never_faults[OF reach_released] .

text \<open>
  C22 (release frees everything): once the owner has released every handle it created,
  no native \<open>StringName\<close> object is left and the interning table is empty.
\<close>

theorem owner_no_leak:
  assumes "owner_reach (godot_register_stringname_icalls reg) (w, own)" and "ran own \<subseteq> {Released}"
  shows "sn_heap w = Map.empty \<and> sn_table w = []"
proof -
  note i = reach_inv[OF assms(1)]
  have "live_ptrs own = {}" using assms(2) by (auto simp: live_ptrs_def ran_def)
  then have e: "sn_heap w = Map.empty" using owner_invD(2)[OF i] by simp
  show ?thesis using wf_table_empty[OF owner_invD(1)[OF i] e] e by simp
qed

theorem owner_no_leak_witness:
  "ran [0 \<mapsto> Released] \<subseteq> {Released} \<and>
   sn_heap (init_world\<lparr>next_addr := 3\<rparr>) = Map.empty \<and> sn_table (init_world\<lparr>next_addr := 3\<rparr>) = []"
  using owner_no_leak[OF reach_released] by simp

text \<open>
  C10 (the owner can always clean up): from every state a program of the owner reaches,
  it can go on, by releasing its live tokens one after the other, to a state where every
  token is released, no native StringName object is left and the table is empty.
\<close>

theorem owner_can_release_all:
  assumes "owner_reach (godot_register_stringname_icalls reg) (w, own)"
  shows "\<exists>w' own'. owner_reach (godot_register_stringname_icalls reg) (w', own') \<and> dom own' = dom own \<and>
           ran own' \<subseteq> {Released} \<and> sn_heap w' = Map.empty \<and> sn_table w' = []"
proof -
  obtain w' own' where r: "owner_reach (registered reg) (w', own')" and d: "dom own' = dom own"
    and l: "live_ptrs own' = {}"
    using release_all_from[OF assms refl] by blast
  have i: "owner_inv (w', own')" by (rule reach_inv[OF r])
  have e: "sn_heap w' = Map.empty" using owner_invD(2)[OF i] l by simp
  have "ran own' \<subseteq> {Released}"
  proof
    fix t assume "t \<in> ran own'"
    then obtain ob where "own' ob = Some t" by (auto simp: ran_def)
    then show "t \<in> {Released}" using l by (cases t) (auto simp: live_ptrs_def)
  qed
  then show ?thesis using r d e wf_table_empty[OF owner_invD(1)[OF i] e] by blast
qed

theorem owner_can_release_all_witness:
  "\<exists>w' own'. owner_reach (godot_register_stringname_icalls Map.empty) (w', own') \<and> dom own' = {0} \<and>
     ran own' \<subseteq> {Released} \<and> sn_heap w' = Map.empty \<and> sn_table w' = []"
  using owner_can_release_all[OF owner_step[OF owner_init run_create_text]] by simp

text \<open>
  C7 (refinement of the owner): in every reachable state, an owner operation that
  returns does on the view of objects as texts what the spec's table of operations
  says: the constructors bind the object to the empty, the converted or the copied
  text, to-text and equality read the view, destroy removes the object from it.
\<close>

theorem owner_refines_spec:
  assumes "owner_reach (godot_register_stringname_icalls reg) s"
    and "owner_exec (godot_register_stringname_icalls reg) op s = Inr (r, s')"
  shows "owner_spec op (owner_view s) r (owner_view s')"
proof -
  obtain w own where s: "s = (w, own)" by (cases s)
  show ?thesis using owner_exec_spec[OF reach_inv[OF assms(1)[unfolded s]]] assms(2) s by simp
qed

theorem owner_refines_spec_witness:
  "owner_spec (Create_From_Text 0 (Some [0x41])) (owner_view (init_world, Map.empty)) V_Void
     (owner_view (init_world\<lparr>next_addr := 3, sn_table := [(2, \<lparr>sd_name = [0x41], sd_refcount = 1\<rparr>)],
                              sn_heap := [1 \<mapsto> Some 2]\<rparr>, [0 \<mapsto> Live 1]))"
  using owner_refines_spec[OF owner_init run_create_text] .

text \<open>
  C11 (what the engine holds): in every state the owner reaches, the text of every live
  StringName is a list of Unicode scalar values without U+0000, so the engine never
  holds a text that it could not hand back to the managed side unchanged.
\<close>

theorem owner_texts_well_formed:
  assumes "owner_reach (godot_register_stringname_icalls reg) (w, own)" and "handle_text w p = Some t"
  shows "list_all is_scalar_value t \<and> 0 \<notin> set t"
proof -
  note i = reach_inv[OF assms(1)]
  have "p \<in> live_ptrs own"
    using assms(2) dom_handle_text[OF owner_invD(1)[OF i]] owner_invD(2)[OF i] by auto
  then obtain ob where "own ob = Some (Live p)" by (auto simp: live_ptrs_def)
  then have "owner_view (w, own) ob = Some t" using assms(2) by (simp add: owner_view_def)
  then show ?thesis using reach_view_ok[OF assms(1)] by (auto simp: view_ok_def text_ok_def)
qed

theorem owner_texts_well_formed_witness:
  "list_all is_scalar_value [0x41 :: char32] \<and> (0 :: char32) \<notin> set [0x41]"
proof -
  have "handle_text (init_world\<lparr>next_addr := 3, sn_table := [(2, \<lparr>sd_name = [0x41], sd_refcount = 1\<rparr>)], sn_heap := [1 \<mapsto> Some 2]\<rparr>) 1 = Some [0x41]" by (simp add: handle_text_def string_name_to_string_def)
  then show ?thesis using owner_texts_well_formed[OF owner_step[OF owner_init run_create_text]] by blast
qed

text \<open>
  C12 (round trip through the owner): in every reachable state, reading the text of an
  object and creating a new object from the managed string read gives an object whose
  text is that of the first.
\<close>

theorem owner_text_roundtrip:
  assumes r: "owner_reach (godot_register_stringname_icalls reg) s"
    and a: "owner_exec (godot_register_stringname_icalls reg) (To_Text a) s = Inr (V_String ms, s1)"
    and b: "owner_exec (godot_register_stringname_icalls reg) (Create_From_Text b ms) s1 = Inr (u, s2)"
  shows "owner_view s2 b = owner_view s a"
proof -
  obtain w own where s: "s = (w, own)" by (cases s)
  obtain t where t: "owner_view s a = Some t" "ms = mono_string_from_godot t" "owner_view s1 = owner_view s"
    using owner_exec_spec[OF reach_inv[OF r[unfolded s]] a[unfolded s]] s by auto
  have r1: "owner_reach (registered reg) s1" by (rule owner_step[OF r a])
  obtain w1 own1 where s1: "s1 = (w1, own1)" by (cases s1)
  have "owner_view s2 = (owner_view s1)(b \<mapsto> mono_string_to_godot ms)"
    using owner_exec_spec[OF reach_inv[OF r1[unfolded s1]] b[unfolded s1]] s1 by simp
  moreover have "text_ok t" using reach_view_ok[OF r] t(1) by (simp add: view_ok_def)
  ultimately show ?thesis using t godot_string_roundtrip by (simp add: text_ok_def)
qed

theorem owner_text_roundtrip_witness:
  "owner_view ((init_world\<lparr>next_addr := 4, sn_table := [(2, \<lparr>sd_name = [0x41], sd_refcount = 2\<rparr>)], sn_heap := [1 \<mapsto> Some 2, 3 \<mapsto> Some 2]\<rparr>), [0 \<mapsto> Live 1, 1 \<mapsto> Live 3]) 1 = owner_view ((init_world\<lparr>next_addr := 3, sn_table := [(2, \<lparr>sd_name = [0x41], sd_refcount = 1\<rparr>)], sn_heap := [1 \<mapsto> Some 2]\<rparr>), [0 \<mapsto> Live 1]) 0"
  using owner_text_roundtrip[OF owner_step[OF owner_init run_create_text] run_to_text run_create_shared] .

end
