(* ===== verification/Owner_Runs.thy ===== *)
theory Owner_Runs
  imports Ownership
begin

text \<open>
  Programs of the managed owner and their abstract meaning. The abstract state \<open>astate\<close>
  forgets the native world: it maps each managed object to nothing (unknown), to \<open>None\<close>
  (released) or to the text of its live name. \<open>abs_exec\<close> is what one owner operation
  promises on it, \<open>owner_run\<close> runs a program of operations through the registered glue
  (a managed error is caught and the run goes on, a native fault ends it with \<open>None\<close>),
  and \<open>abs_run\<close> is its specification. The lemmas show that on a reachable owner the run
  refines \<open>abs_run\<close>, and that the calls of two
  threads working on disjoint objects, interleaved in any order (each glue call being
  atomic), give each thread the results it has alone and the abstract state of running
  one thread after the other.
\<close>

section \<open>The owner's abstract state\<close>

type_synonym astate = "obj \<rightharpoonup> gstring option"

definition owner_abs :: "mstate \<Rightarrow> astate" where
  "owner_abs s ob =
     (case snd s ob of None \<Rightarrow> None | Some Released \<Rightarrow> Some None
      | Some (Live p) \<Rightarrow> Some (handle_text (fst s) p))"

definition abs_token :: "astate \<Rightarrow> obj \<Rightarrow> owner_error + gstring" where
  "abs_token A ob =
     (case A ob of None \<Rightarrow> Inl Unknown_Object | Some None \<Rightarrow> Inl Released_Handle
      | Some (Some t) \<Rightarrow> Inr t)"

text \<open>The contract of one owner operation on the abstract state.\<close>

fun abs_exec :: "owner_op \<Rightarrow> astate \<Rightarrow> (owner_error + icall_value) \<times> astate" where
  "abs_exec (Create_Default ob) A =
     (if ob \<in> dom A then (Inl Object_Exists, A) else (Inr V_Void, A(ob \<mapsto> Some [])))"
| "abs_exec (Create_From_Text ob m) A =
     (if ob \<in> dom A then (Inl Object_Exists, A) else (Inr V_Void, A(ob \<mapsto> Some (mono_string_to_godot m))))"
| "abs_exec (Create_Copy ob src) A =
     (if ob \<in> dom A then (Inl Object_Exists, A)
      else case abs_token A src of Inl e \<Rightarrow> (Inl e, A) | Inr t \<Rightarrow> (Inr V_Void, A(ob \<mapsto> Some t)))"
| "abs_exec (To_Text ob) A =
     (case abs_token A ob of Inl e \<Rightarrow> (Inl e, A)
      | Inr t \<Rightarrow> (Inr (V_String (mono_string_from_godot t)), A))"
| "abs_exec (Equals_Op ob1 ob2) A =
     (case abs_token A ob1 of Inl e \<Rightarrow> (Inl e, A)
      | Inr t1 \<Rightarrow> (case abs_token A ob2 of Inl e \<Rightarrow> (Inl e, A)
          | Inr t2 \<Rightarrow> (Inr (V_Bool (mono_boolean_of (t1 = t2))), A)))"
| "abs_exec (Destroy ob) A =
     (case A ob of None \<Rightarrow> (Inl Unknown_Object, A) | Some None \<Rightarrow> (Inl Double_Release, A)
      | Some (Some t) \<Rightarrow> (Inr V_Void, A(ob \<mapsto> None)))"

abbreviation step_result :: "owner_error + (icall_value \<times> mstate) \<Rightarrow> mstate \<Rightarrow> (owner_error + icall_value) \<times> astate" where
  "step_result x s \<equiv> (case x of Inl e \<Rightarrow> (Inl e, owner_abs s) | Inr (r, s') \<Rightarrow> (Inr r, owner_abs s'))"

section \<open>Programs of the owner\<close>

text \<open>
  A program is a list of operations. A managed error is an exception the program
  catches: the state stays and the run goes on; a native fault ends the run (\<open>None\<close>).
\<close>

definition is_native :: "owner_error \<Rightarrow> bool" where
  "is_native e = (case e of Native _ \<Rightarrow> True | _ \<Rightarrow> False)"

fun owner_run :: "icall_registry \<Rightarrow> owner_op list \<Rightarrow> mstate \<Rightarrow> ((owner_error + icall_value) list \<times> mstate) option" where
  "owner_run reg [] s = Some ([], s)"
| "owner_run reg (op # ops) s =
     (case owner_exec reg op s of
        Inl e \<Rightarrow> (if is_native e then None else map_option (\<lambda>(rs, s'). (Inl e # rs, s')) (owner_run reg ops s))
      | Inr (r, s') \<Rightarrow> map_option (\<lambda>(rs, s''). (Inr r # rs, s'')) (owner_run reg ops s'))"

fun abs_run :: "owner_op list \<Rightarrow> astate \<Rightarrow> (owner_error + icall_value) list \<times> astate" where
  "abs_run [] A = ([], A)"
| "abs_run (op # ops) A = (let (r, A') = abs_exec op A; (rs, A'') = abs_run ops A' in (r # rs, A''))"

section \<open>Threads working on disjoint objects\<close>

primrec op_objs :: "owner_op \<Rightarrow> obj set" where
  "op_objs (Create_Default ob) = {ob}"
| "op_objs (Create_From_Text ob m) = {ob}"
| "op_objs (Create_Copy ob src) = {ob, src}"
| "op_objs (To_Text ob) = {ob}"
| "op_objs (Equals_Op ob1 ob2) = {ob1, ob2}"
| "op_objs (Destroy ob) = {ob}"

definition ops_objs :: "owner_op list \<Rightarrow> obj set" where
  "ops_objs ops = (\<Union>op \<in> set ops. op_objs op)"

inductive interleaving :: "'a list \<Rightarrow> 'a list \<Rightarrow> 'a list \<Rightarrow> bool" where
  il_nil: "interleaving [] [] []"
| il_left: "interleaving xs ys zs \<Longrightarrow> interleaving (x # xs) ys (x # zs)"
| il_right: "interleaving xs ys zs \<Longrightarrow> interleaving xs (y # ys) (y # zs)"

section \<open>One step against the abstract state\<close>

lemma abs_dom: "dom (owner_abs (w, own)) = dom own"
  by (auto simp: owner_abs_def split: option.splits token.splits)

lemma abs_token_eq:
  assumes i: "owner_inv (w, own)"
  shows "abs_token (owner_abs (w, own)) ob =
           (case token_ptr own ob of Inl e \<Rightarrow> Inl e | Inr p \<Rightarrow> Inr (the (handle_text w p)))"
proof (cases "token_ptr own ob")
  case (Inr p)
  then obtain t where t: "handle_text w p = Some t" using owned_pre[OF i Inr] by auto
  have "own ob = Some (Live p)" using Inr by (simp add: token_ptr_Inr)
  then show ?thesis using Inr t by (simp add: abs_token_def owner_abs_def)
qed (auto simp: abs_token_def owner_abs_def token_ptr_def split: option.splits token.splits)

lemma abs_view: "owner_abs s = (\<lambda>ob. map_option (\<lambda>t. case t of Released \<Rightarrow> None | Live _ \<Rightarrow> owner_view s ob) (snd s ob))"
  by (auto simp: fun_eq_iff owner_abs_def owner_view_def split: option.splits token.splits)

lemma abs_adopt:
  assumes i: "owner_inv (w, own)" and ob: "ob \<notin> dom own" and p: "p \<notin> dom (handle_text w)"
    and t: "handle_text w' = (handle_text w)(p \<mapsto> x)"
  shows "owner_abs (w', own(ob \<mapsto> Live p)) = (owner_abs (w, own))(ob \<mapsto> Some x)"
  using view_adopt[OF i p t, of ob] ob by (simp add: abs_view fun_eq_iff domIff split: option.splits)

lemma abs_keep: "handle_text w' = handle_text w \<Longrightarrow> owner_abs (w', own) = owner_abs (w, own)"
  by (simp only: abs_view view_keep[of w' w own] snd_conv)

lemma abs_release:
  assumes i: "owner_inv (w, own)" and ob: "own ob = Some (Live p)"
    and t: "handle_text w' = (handle_text w)(p := None)"
  shows "owner_abs (w', own(ob \<mapsto> Released)) = (owner_abs (w, own))(ob \<mapsto> None)"
  using view_release[OF i ob t] by (simp add: abs_view fun_eq_iff split: option.splits)

lemma new_call:
  assumes w: "wf_world w" and f: "f \<in> {I_Ctor, I_String_Ctor, I_StringName_Ctor}"
    and pre: "spec_pre f args (handle_text w)"
  obtains p w' where "invoke_icall f args w = Inr (V_Ptr p, w')"
    "spec_call f args (handle_text w) (V_Ptr p) (handle_text w')"
proof -
  obtain r w' where c: "invoke_icall f args w = Inr (r, w')" using invoke_progress[OF w pre] by blast
  then obtain p where "r = V_Ptr p" using invoke_new_dom[OF w f c] by blast
  then show ?thesis using that c invoke_spec[OF w c] by blast
qed

lemmas exec_unfold = call_registered adopt_def pass_def

lemma abs_create_default:
  assumes i: "owner_inv (w, own)"
  shows "abs_exec (Create_Default ob) (owner_abs (w, own)) = step_result (owner_exec (registered reg) (Create_Default ob) (w, own)) (w, own)"
proof -
  note w = owner_invD(1)[OF i]
  show ?thesis
  proof (cases "ob \<in> dom own")
    case False
    obtain p w' where c: "invoke_icall I_Ctor [] w = Inr (V_Ptr p, w')"
      and sp: "spec_call I_Ctor [] (handle_text w) (V_Ptr p) (handle_text w')"
      using new_call[OF w, of I_Ctor "[]"] by auto
    then show ?thesis using False abs_adopt[OF i False, of p w' "[]"]
      by (simp add: exec_unfold abs_dom del: invoke_icall.simps managed_extern.simps)
  qed (simp add: abs_dom)
qed

lemma abs_create_text:
  assumes i: "owner_inv (w, own)"
  shows "abs_exec (Create_From_Text ob m) (owner_abs (w, own)) = step_result (owner_exec (registered reg) (Create_From_Text ob m) (w, own)) (w, own)"
proof -
  note w = owner_invD(1)[OF i]
  show ?thesis
  proof (cases "ob \<in> dom own")
    case False
    obtain p w' where c: "invoke_icall I_String_Ctor [V_String m] w = Inr (V_Ptr p, w')"
      and sp: "spec_call I_String_Ctor [V_String m] (handle_text w) (V_Ptr p) (handle_text w')"
      using new_call[OF w, of I_String_Ctor "[V_String m]"] by auto
    then show ?thesis using False abs_adopt[OF i False, of p w' "mono_string_to_godot m"]
      by (simp add: exec_unfold abs_dom del: invoke_icall.simps managed_extern.simps)
  qed (simp add: abs_dom)
qed

lemma abs_create_copy:
  assumes i: "owner_inv (w, own)"
  shows "abs_exec (Create_Copy ob src) (owner_abs (w, own)) = step_result (owner_exec (registered reg) (Create_Copy ob src) (w, own)) (w, own)"
proof -
  note w = owner_invD(1)[OF i]
  show ?thesis
  proof (cases "ob \<in> dom own")
    case False
    show ?thesis
    proof (cases "token_ptr own src")
      case (Inr q)
      then have q: "q \<in> dom (handle_text w)" by (rule owned_pre[OF i])
      obtain p w' where c: "invoke_icall I_StringName_Ctor [V_Ptr q] w = Inr (V_Ptr p, w')"
        and sp: "spec_call I_StringName_Ctor [V_Ptr q] (handle_text w) (V_Ptr p) (handle_text w')"
        using new_call[OF w, of I_StringName_Ctor "[V_Ptr q]"] q by auto
      then obtain t where "handle_text w q = Some t" "p \<notin> dom (handle_text w)"
        "handle_text w' = (handle_text w)(p \<mapsto> t)" by auto
      then show ?thesis using False Inr c abs_adopt[OF i False, of p w' t] abs_token_eq[OF i, of src]
        by (simp add: exec_unfold abs_dom del: invoke_icall.simps managed_extern.simps)
    qed (simp add: False abs_dom abs_token_eq[OF i])
  qed (simp add: abs_dom)
qed

lemma abs_to_text:
  assumes i: "owner_inv (w, own)"
  shows "abs_exec (To_Text ob) (owner_abs (w, own)) = step_result (owner_exec (registered reg) (To_Text ob) (w, own)) (w, own)"
proof -
  note w = owner_invD(1)[OF i]
  show ?thesis
  proof (cases "token_ptr own ob")
    case (Inr p)
    then have "spec_pre I_operator_String [V_Ptr p] (handle_text w)" using owned_pre[OF i Inr] by simp
    then obtain r w' where c: "invoke_icall I_operator_String [V_Ptr p] w = Inr (r, w')"
      using invoke_progress[OF w] by blast
    then obtain t where "handle_text w p = Some t" "r = V_String (mono_string_from_godot t)"
      "handle_text w' = handle_text w" using invoke_spec[OF w c] by auto
    then show ?thesis using Inr c abs_keep[of w' w own] abs_token_eq[OF i, of ob]
      by (simp add: exec_unfold del: invoke_icall.simps managed_extern.simps)
  qed (simp add: abs_token_eq[OF i])
qed

lemma abs_equals:
  assumes i: "owner_inv (w, own)"
  shows "abs_exec (Equals_Op ob1 ob2) (owner_abs (w, own)) = step_result (owner_exec (registered reg) (Equals_Op ob1 ob2) (w, own)) (w, own)"
proof -
  note w = owner_invD(1)[OF i]
  show ?thesis
  proof (cases "token_ptr own ob1"; cases "token_ptr own ob2")
    fix p q assume p: "token_ptr own ob1 = Inr p" and q: "token_ptr own ob2 = Inr q"
    have "spec_pre I_operator_Equals [V_Ptr p, V_Ptr q] (handle_text w)"
      using owned_pre[OF i p] owned_pre[OF i q] by simp
    then obtain r w' where c: "invoke_icall I_operator_Equals [V_Ptr p, V_Ptr q] w = Inr (r, w')"
      using invoke_progress[OF w] by blast
    obtain t1 t2 where t: "handle_text w p = Some t1" "handle_text w q = Some t2"
      using owned_pre[OF i p] owned_pre[OF i q] by auto
    have "r = V_Bool (mono_boolean_of (handle_text w p = handle_text w q))" "handle_text w' = handle_text w"
      using invoke_spec[OF w c] by auto
    then show ?thesis using p q c t abs_keep[of w' w own] abs_token_eq[OF i]
      by (simp add: exec_unfold del: invoke_icall.simps managed_extern.simps)
  qed (simp_all add: abs_token_eq[OF i])
qed

lemma abs_destroy:
  assumes i: "owner_inv (w, own)"
  shows "abs_exec (Destroy ob) (owner_abs (w, own)) = step_result (owner_exec (registered reg) (Destroy ob) (w, own)) (w, own)"
proof -
  note w = owner_invD(1)[OF i]
  show ?thesis
  proof (cases "own ob")
    case (Some tk)
    show ?thesis
    proof (cases tk)
      case (Live p)
      have ob: "own ob = Some (Live p)" using Some Live by simp
      have tp: "token_ptr own ob = Inr p" using ob by (simp add: token_ptr_Inr)
      obtain t where t: "handle_text w p = Some t" using owned_pre[OF i tp] by auto
      have "spec_pre I_Dtor [V_Ptr p] (handle_text w)" using owned_pre[OF i tp] by simp
      then obtain r w' where c: "invoke_icall I_Dtor [V_Ptr p] w = Inr (r, w')"
        using invoke_progress[OF w] by blast
      have t': "handle_text w' = (handle_text w)(p := None)" using invoke_spec[OF w c] by auto
      have x: "owner_exec (registered reg) (Destroy ob) (w, own) = Inr (V_Void, (w', own(ob \<mapsto> Released)))"
        using ob c by (simp add: call_registered del: invoke_icall.simps managed_extern.simps)
      have "owner_abs (w, own) ob = Some (Some t)" using ob t by (simp add: owner_abs_def)
      then have "abs_exec (Destroy ob) (owner_abs (w, own)) = (Inr V_Void, (owner_abs (w, own))(ob \<mapsto> None))"
        by simp
      then show ?thesis using x abs_release[OF i ob t'] by simp
    qed (simp add: Some owner_abs_def)
  qed (simp add: owner_abs_def)
qed

lemma owner_exec_abs:
  "owner_inv (w, own) \<Longrightarrow>
   abs_exec op (owner_abs (w, own)) = step_result (owner_exec (registered reg) op (w, own)) (w, own)"
  by (cases op) (simp_all only: abs_create_default abs_create_text abs_create_copy abs_to_text abs_equals abs_destroy)

section \<open>Programs run to completion and refine their specification\<close>

lemma owner_run_abs:
  assumes "owner_reach (registered reg) s"
  shows "\<exists>rs s'. owner_run (registered reg) ops s = Some (rs, s') \<and> owner_reach (registered reg) s' \<and>
                abs_run ops (owner_abs s) = (rs, owner_abs s')"
  using assms
proof (induction ops arbitrary: s)
  case (Cons op ops)
  obtain w own where s: "s = (w, own)" by (cases s)
  have i: "owner_inv (w, own)" using reach_inv Cons.prems s by blast
  note ab = owner_exec_abs[OF i, of op reg]
  show ?case
  proof (cases "owner_exec (registered reg) op s")
    case (Inl e)
    have "\<not> is_native e" using owner_exec_safe[OF i, of reg op] Inl s by (cases e) (auto simp: is_native_def)
    then show ?thesis using Cons.IH[OF Cons.prems] Inl ab s by auto
  next
    case (Inr x)
    obtain r s' where x: "x = (r, s')" by (cases x)
    have "owner_reach (registered reg) s'" using owner_step[OF Cons.prems] Inr x by blast
    then show ?thesis using Cons.IH Inr x ab s by fastforce
  qed
qed simp

text \<open>
  C13 (refinement of owner programs): the run of a program from a reachable owner state,
  read through \<open>owner_abs\<close>, is the run of its specification \<open>abs_run\<close> on the abstract state.
\<close>

theorem owner_run_refines:
  assumes "owner_reach (registered reg) s"
  shows "map_option (\<lambda>(rs, s'). (rs, owner_abs s')) (owner_run (registered reg) ops s) = Some (abs_run ops (owner_abs s))"
  using owner_run_abs[OF assms, of ops] by auto

section \<open>Locality and interleaving\<close>

lemma abs_exec_frame: "x \<notin> op_objs op \<Longrightarrow> snd (abs_exec op A) x = A x"
  by (cases op) (auto simp: abs_token_def split: option.splits sum.splits)

lemma abs_exec_local:
  assumes "\<forall>x \<in> op_objs op. A x = B x"
  shows "fst (abs_exec op A) = fst (abs_exec op B) \<and> (\<forall>x \<in> op_objs op. snd (abs_exec op A) x = snd (abs_exec op B) x)"
  using assms by (cases op) (auto simp: abs_token_def domIff split: option.splits sum.splits)

lemma ops_objs_simps [simp]:
  "ops_objs [] = {}" "ops_objs (op # ops) = op_objs op \<union> ops_objs ops"
  by (simp_all add: ops_objs_def)

lemma abs_run_Cons [simp]:
  "abs_run (op # ops) A =
   (fst (abs_exec op A) # fst (abs_run ops (snd (abs_exec op A))), snd (abs_run ops (snd (abs_exec op A))))"
  by (simp add: split_def Let_def)

declare abs_run.simps(2) [simp del]

lemma abs_run_frame: "x \<notin> ops_objs ops \<Longrightarrow> snd (abs_run ops A) x = A x"
proof (induction ops arbitrary: A)
  case (Cons op ops)
  then show ?case using abs_exec_frame[of x op A] by simp
qed simp

lemma abs_run_local:
  "\<forall>x \<in> ops_objs ops. A x = B x \<Longrightarrow>
   fst (abs_run ops A) = fst (abs_run ops B) \<and> (\<forall>x \<in> ops_objs ops. snd (abs_run ops A) x = snd (abs_run ops B) x)"
proof (induction ops arbitrary: A B)
  case (Cons op ops)
  let ?A1 = "snd (abs_exec op A)" and ?B1 = "snd (abs_exec op B)"
  have l: "fst (abs_exec op A) = fst (abs_exec op B)" "\<forall>x \<in> op_objs op. ?A1 x = ?B1 x"
    using abs_exec_local[of op A B] Cons.prems by auto
  have "\<forall>x \<in> ops_objs ops. ?A1 x = ?B1 x"
  proof
    fix x assume x: "x \<in> ops_objs ops"
    show "?A1 x = ?B1 x"
    proof (cases "x \<in> op_objs op")
      case False
      then show ?thesis using abs_exec_frame[OF False] Cons.prems x by simp
    qed (use l in simp)
  qed
  note ih = Cons.IH[OF this]
  have "snd (abs_run (op # ops) A) x = snd (abs_run (op # ops) B) x" if x: "x \<in> op_objs op \<union> ops_objs ops" for x
  proof (cases "x \<in> ops_objs ops")
    case False
    then show ?thesis using abs_run_frame[OF False, of ?A1] abs_run_frame[OF False, of ?B1] l(2) x
      by simp
  qed (use ih in simp)
  then show ?case using l(1) ih by simp
qed simp

lemma abs_commute:
  assumes d: "op_objs op \<inter> ops_objs ops = {}"
  shows "snd (abs_run ops (snd (abs_exec op A))) = snd (abs_exec op (snd (abs_run ops A)))"
proof
  fix x
  let ?A1 = "snd (abs_exec op A)" and ?B = "snd (abs_run ops A)"
  show "snd (abs_run ops ?A1) x = snd (abs_exec op ?B) x"
  proof (cases "x \<in> ops_objs ops")
    case True
    have "\<forall>y \<in> ops_objs ops. ?A1 y = A y" using abs_exec_frame d by blast
    then have "snd (abs_run ops ?A1) x = ?B x" using abs_run_local True by blast
    moreover have "x \<notin> op_objs op" using True d by blast
    ultimately show ?thesis using abs_exec_frame by simp
  next
    case False
    have "\<forall>y \<in> op_objs op. ?B y = A y" using abs_run_frame d by blast
    then have "snd (abs_exec op ?B) x = ?A1 x \<or> x \<notin> op_objs op"
      using abs_exec_local[of op ?B A] by auto
    then show ?thesis using abs_run_frame[OF False] abs_exec_frame False
      \<open>\<forall>y \<in> op_objs op. ?B y = A y\<close> abs_run_frame[OF False, of A] by (cases "x \<in> op_objs op") auto
  qed
qed

lemma abs_run_agree:
  "op_objs op \<inter> ops_objs ops = {} \<Longrightarrow> fst (abs_run ops (snd (abs_exec op A))) = fst (abs_run ops A)"
  using abs_run_local[of ops "snd (abs_exec op A)" A] abs_exec_frame[of _ op A] by blast

lemma abs_run_interleave:
  "interleaving xs ys zs \<Longrightarrow> ops_objs xs \<inter> ops_objs ys = {} \<Longrightarrow>
   interleaving (fst (abs_run xs A)) (fst (abs_run ys A)) (fst (abs_run zs A)) \<and>
   snd (abs_run zs A) = snd (abs_run ys (snd (abs_run xs A)))"
proof (induction arbitrary: A rule: interleaving.induct)
  case il_nil
  then show ?case by (simp add: interleaving.il_nil)
next
  case (il_left xs ys zs x)
  have "fst (abs_run ys (snd (abs_exec x A))) = fst (abs_run ys A)"
    using abs_run_agree il_left.prems by auto
  then show ?case using il_left.IH[of "snd (abs_exec x A)"] il_left.prems
    by (auto intro: interleaving.il_left)
next
  case (il_right xs ys zs y)
  have "fst (abs_run xs (snd (abs_exec y A))) = fst (abs_run xs A)"
    using abs_run_agree il_right.prems by auto
  moreover have "snd (abs_run xs (snd (abs_exec y A))) = snd (abs_exec y (snd (abs_run xs A)))"
    using abs_commute il_right.prems by auto
  ultimately show ?case using il_right.IH[of "snd (abs_exec y A)"] il_right.prems
    by (auto intro: interleaving.il_right)
qed

lemma abs_run_append:
  "abs_run (xs @ ys) A = (fst (abs_run xs A) @ fst (abs_run ys (snd (abs_run xs A))), snd (abs_run ys (snd (abs_run xs A))))"
  by (induction xs arbitrary: A) simp_all

text \<open>
  C14 (interleaving of threads on disjoint objects): for two programs \<open>xs\<close> and \<open>ys\<close> whose
  operations touch disjoint sets of objects, every interleaving \<open>zs\<close> of their calls runs to
  completion, its results interleave the results each program has alone, and its final
  abstract state is that of running \<open>xs\<close> and then \<open>ys\<close>.
\<close>

theorem owner_threads_serialise:
  assumes r: "owner_reach (registered reg) s"
      and il: "interleaving xs ys zs" and d: "ops_objs xs \<inter> ops_objs ys = {}"
  shows "\<exists>rx sx ry sy rz sz rxy sxy.
           owner_run (registered reg) xs s = Some (rx, sx) \<and> owner_run (registered reg) ys s = Some (ry, sy) \<and>
           owner_run (registered reg) zs s = Some (rz, sz) \<and> owner_run (registered reg) (xs @ ys) s = Some (rxy, sxy) \<and>
           interleaving rx ry rz \<and> owner_abs sz = owner_abs sxy"
proof -
  obtain rx sx where x: "owner_run (registered reg) xs s = Some (rx, sx)" "abs_run xs (owner_abs s) = (rx, owner_abs sx)"
    using owner_run_abs[OF r, of xs] by blast
  obtain ry sy where y: "owner_run (registered reg) ys s = Some (ry, sy)" "abs_run ys (owner_abs s) = (ry, owner_abs sy)"
    using owner_run_abs[OF r, of ys] by blast
  obtain rz sz where z: "owner_run (registered reg) zs s = Some (rz, sz)" "abs_run zs (owner_abs s) = (rz, owner_abs sz)"
    using owner_run_abs[OF r, of zs] by blast
  obtain rxy sxy where xy: "owner_run (registered reg) (xs @ ys) s = Some (rxy, sxy)"
      "abs_run (xs @ ys) (owner_abs s) = (rxy, owner_abs sxy)"
    using owner_run_abs[OF r, of "xs @ ys"] by blast
  have "interleaving rx ry rz \<and> owner_abs sz = owner_abs sxy"
    using abs_run_interleave[OF il d, of "owner_abs s"] x(2) y(2) z(2) xy(2)
    by (simp add: abs_run_append)
  then show ?thesis using x(1) y(1) z(1) xy(1) by blast
qed

theorem owner_run_refines_witness:
  "owner_reach (registered Map.empty) (init_world, Map.empty) \<and>
   map_option (\<lambda>(rs, s'). (rs, owner_abs s')) (owner_run (registered Map.empty) [Create_Default 0, To_Text 0] (init_world, Map.empty)) =
   Some (abs_run [Create_Default 0, To_Text 0] (owner_abs (init_world, Map.empty)))"
  using owner_run_refines[OF owner_init, of Map.empty "[Create_Default 0, To_Text 0]"] owner_init by blast

theorem owner_threads_serialise_witness:
  "owner_reach (registered Map.empty) (init_world, Map.empty) \<and>
   interleaving [Create_Default 0, To_Text 0] [Create_From_Text 1 (Some [])] [Create_Default 0, Create_From_Text 1 (Some []), To_Text 0] \<and>
   ops_objs [Create_Default 0, To_Text 0] \<inter> ops_objs [Create_From_Text 1 (Some [])] = {} \<and>
   (\<exists>rx sx ry sy rz sz rxy sxy.
      owner_run (registered Map.empty) [Create_Default 0, To_Text 0] (init_world, Map.empty) = Some (rx, sx) \<and>
      owner_run (registered Map.empty) [Create_From_Text 1 (Some [])] (init_world, Map.empty) = Some (ry, sy) \<and>
      owner_run (registered Map.empty) [Create_Default 0, Create_From_Text 1 (Some []), To_Text 0] (init_world, Map.empty) = Some (rz, sz) \<and>
      owner_run (registered Map.empty) ([Create_Default 0, To_Text 0] @ [Create_From_Text 1 (Some [])]) (init_world, Map.empty) = Some (rxy, sxy) \<and>
      interleaving rx ry rz \<and> owner_abs sz = owner_abs sxy)"
proof -
  have il: "interleaving [Create_Default 0, To_Text 0] [Create_From_Text 1 (Some [])] [Create_Default 0, Create_From_Text 1 (Some []), To_Text 0]"
    by (intro interleaving.intros)
  have d: "ops_objs [Create_Default 0, To_Text 0] \<inter> ops_objs [Create_From_Text (1::obj) (Some [])] = {}" by simp
  show ?thesis using owner_threads_serialise[OF owner_init il d, of Map.empty] owner_init il d by blast
qed

end
