(* ===== verification/StringName_Table.thy ===== *)
theory StringName_Table
  imports Glue
begin

text \<open>
  The engine's interning table as \<open>core/string/string_name.cpp\<close> builds it (outside this
  repository, modelled from the engine's code in the shape the spec's data model names):
  \<open>_table\<close> is an array of \<open>STRING_TABLE_LEN = 2^12\<close> chains of \<open>_Data\<close> nodes, a text goes
  to the chain \<open>hash & STRING_TABLE_MASK\<close> of its djb2 hash \<open>String::hash\<close>, each node caches
  its hash and chain index, and its reference count is the 32-bit \<open>SafeRefCount\<close>, whose
  \<open>ref()\<close> is a conditional increment that can wrap. \<open>StringName\<close> theory merges the chains
  into one; this theory shows the merge sound: \<open>ht_abs\<close> maps the hashed table to the single
  chain, every operation refines the single-chain operation while no count is at its
  limit, the invariant \<open>ht_ok\<close> is kept, and at the limit the count wraps and breaks the
  one-node-per-text invariant the glue's by-value equality rests on.
\<close>

section \<open>Data\<close>

text \<open>\<open>STRING_TABLE_BITS\<close>, \<open>STRING_TABLE_LEN\<close>, \<open>STRING_TABLE_MASK\<close> of \<open>string_name.h\<close>.\<close>

definition STRING_TABLE_BITS :: nat where
  "STRING_TABLE_BITS = 12"

definition STRING_TABLE_LEN :: nat where
  "STRING_TABLE_LEN = 2 ^ STRING_TABLE_BITS"

definition STRING_TABLE_MASK :: "32 word" where
  "STRING_TABLE_MASK = of_nat STRING_TABLE_LEN - 1"

text \<open>
  A \<open>_Data\<close> node: its text, \<open>SafeRefCount refcount\<close> (a \<open>uint32_t\<close>), cached \<open>hash\<close> and
  \<open>idx\<close>; the \<open>prev\<close>/\<open>next\<close> links are the order of the chain list.
\<close>

record hnode =
  hn_name :: gstring
  hn_refcount :: "32 word"
  hn_hash :: "32 word"
  hn_idx :: nat

record ht_state = alloc_state +
  ht_table :: "(addr \<times> hnode) list list"

section \<open>String hash and reference count\<close>

text \<open>
  \<open>String::hash()\<close>: djb2 over the characters up to the terminating NUL,
  \<open>hashv = ((hashv << 5) + hashv) + c\<close> in \<open>uint32_t\<close>.
\<close>

fun hash_loop :: "32 word \<Rightarrow> gstring \<Rightarrow> 32 word" where
  "hash_loop h [] = h"
| "hash_loop h (c # cs) = (if c = 0 then h else hash_loop (push_bit 5 h + h + c) cs)"

definition string_hash :: "gstring \<Rightarrow> 32 word" where
  "string_hash s = hash_loop 5381 s"

definition bucket_of :: "32 word \<Rightarrow> nat" where
  "bucket_of h = unat (h AND STRING_TABLE_MASK)"

text \<open>
  \<open>SafeRefCount::ref()\<close>, the conditional increment: a count of 0 stays 0 and fails; otherwise
  the count is raised (modulo 2^32) and the ref succeeds unless the new count is 0.
  \<open>SafeRefCount::unref()\<close>: decrement, and report whether the count reached 0.
\<close>

definition rc_ref :: "32 word \<Rightarrow> bool \<times> 32 word" where
  "rc_ref c = (if c = 0 then (False, c) else (c + 1 \<noteq> 0, c + 1))"

definition rc_unref :: "32 word \<Rightarrow> bool \<times> 32 word" where
  "rc_unref c = (c - 1 = 0, c - 1)"

section \<open>Operations\<close>

text \<open>The scan of chain \<open>idx\<close>: \<open>_data->hash == hash && _data->get_name() == p_name\<close>.\<close>

fun ht_find :: "32 word \<Rightarrow> gstring \<Rightarrow> (addr \<times> hnode) list \<Rightarrow> (addr \<times> hnode) option" where
  "ht_find h s [] = None"
| "ht_find h s ((d, e) # t) = (if hn_hash e = h \<and> hn_name e = s then Some (d, e) else ht_find h s t)"

text \<open>The node a \<open>_data\<close> pointer reaches, in whichever chain it is linked.\<close>

definition ht_node :: "'a ht_state_scheme \<Rightarrow> addr \<Rightarrow> hnode option" where
  "ht_node st d = map_of (concat (ht_table st)) d"

text \<open>The store of a new count into the node at \<open>d\<close> (the atomic \<open>refcount\<close> update).\<close>

definition ht_set_count :: "addr \<Rightarrow> 32 word \<Rightarrow> 'a ht_state_scheme \<Rightarrow> 'a ht_state_scheme" where
  "ht_set_count d c st = st\<lparr>ht_table := map (update_node d (\<lambda>e. e\<lparr>hn_refcount := c\<rparr>)) (ht_table st)\<rparr>"

text \<open>
  \<open>memnew(_Data)\<close> with count \<open>init()\<close> = 1, \<open>hash\<close> and \<open>idx\<close> set, linked at the head of
  \<open>_table[idx]\<close>.
\<close>

definition ht_link :: "gstring \<Rightarrow> 32 word \<Rightarrow> nat \<Rightarrow> 'a ht_state_scheme \<Rightarrow> string_name \<times> 'a ht_state_scheme" where
  "ht_link s h i st =
     (let (d, st') = memnew st
      in (Some d, st'\<lparr>ht_table := (ht_table st')[i :=
            (d, \<lparr>hn_name = s, hn_refcount = 1, hn_hash = h, hn_idx = i\<rparr>) # ht_table st' ! i]\<rparr>))"

text \<open>
  \<open>StringName(const String &)\<close>: the empty text is the null name; otherwise scan the chain
  of the text's hash; a found node whose \<open>ref()\<close> succeeds is shared, and else (no node, or
  a failed \<open>ref()\<close>, whose store of the wrapped count stays) a new node is linked in.
\<close>

definition ht_from_string :: "gstring \<Rightarrow> 'a ht_state_scheme \<Rightarrow> string_name \<times> 'a ht_state_scheme" where
  "ht_from_string s st =
     (if s = [] then (None, st)
      else
        (let h = string_hash s; i = bucket_of h
         in case ht_find h s (ht_table st ! i) of
              Some (d, e) \<Rightarrow>
                (let (ok, c) = rc_ref (hn_refcount e); st' = ht_set_count d c st
                 in if ok then (Some d, st') else ht_link s h i st')
            | None \<Rightarrow> ht_link s h i st))"

text \<open>
  \<open>StringName(const StringName &)\<close>: share the node if its \<open>ref()\<close> succeeds, else the
  null name; reading a node no longer linked is undefined behaviour, \<open>None\<close>.
\<close>

definition ht_copy :: "string_name \<Rightarrow> 'a ht_state_scheme \<Rightarrow> (string_name \<times> 'a ht_state_scheme) option" where
  "ht_copy n st =
     (case n of
        None \<Rightarrow> Some (None, st)
      | Some d \<Rightarrow>
          (case ht_node st d of
             None \<Rightarrow> None
           | Some e \<Rightarrow>
               (let (ok, c) = rc_ref (hn_refcount e); st' = ht_set_count d c st
                in if ok then Some (Some d, st') else Some (None, st'))))"

text \<open>
  \<open>StringName::unref()\<close>: \<open>refcount.unref()\<close>, and at zero unlink the node from
  \<open>_table[_data->idx]\<close> and delete it.
\<close>

definition ht_unref :: "string_name \<Rightarrow> 'a ht_state_scheme \<Rightarrow> 'a ht_state_scheme option" where
  "ht_unref n st =
     (case n of
        None \<Rightarrow> Some st
      | Some d \<Rightarrow>
          (case ht_node st d of
             None \<Rightarrow> None
           | Some e \<Rightarrow>
               (let (z, c) = rc_unref (hn_refcount e); st' = ht_set_count d c st
                in if z then Some (st'\<lparr>ht_table := (ht_table st')[hn_idx e :=
                                filter (\<lambda>(a, _). a \<noteq> d) (ht_table st' ! hn_idx e)]\<rparr>)
                   else Some st')))"

text \<open>\<open>StringName::operator String()\<close>: the node's text, the empty String for null.\<close>

definition ht_to_string :: "string_name \<Rightarrow> 'a ht_state_scheme \<Rightarrow> gstring option" where
  "ht_to_string n st =
     (case n of
        None \<Rightarrow> Some []
      | Some d \<Rightarrow> map_option hn_name (ht_node st d))"

section \<open>Abstraction to one chain\<close>

text \<open>
  The single chain a hashed table stands for: the chains concatenated, counts read as
  naturals. \<open>sn_equiv\<close> is equality of single-chain states up to the order of the nodes.
\<close>

definition ht_abs_node :: "hnode \<Rightarrow> sn_data" where
  "ht_abs_node e = \<lparr>sd_name = hn_name e, sd_refcount = unat (hn_refcount e)\<rparr>"

definition ht_abs :: "'a ht_state_scheme \<Rightarrow> sn_state" where
  "ht_abs st = \<lparr>next_addr = next_addr st,
                sn_table = map (\<lambda>(d, e). (d, ht_abs_node e)) (concat (ht_table st))\<rparr>"

definition sn_equiv :: "'a sn_state_scheme \<Rightarrow> 'b sn_state_scheme \<Rightarrow> bool" where
  "sn_equiv st st' \<longleftrightarrow> next_addr st = next_addr st' \<and> mset (sn_table st) = mset (sn_table st')"

abbreviation abs_entry :: "addr \<times> hnode \<Rightarrow> addr \<times> sn_data" where
  "abs_entry \<equiv> \<lambda>(d, e). (d, ht_abs_node e)"

text \<open>
  The invariant: 4096 chains, each node in the chain of its hash with hash and index cached,
  and the single chain it stands for satisfying \<open>sn_table_ok\<close>. \<open>ht_no_wrap\<close>: no count is at
  2^32-1, the one state in which \<open>ref()\<close> wraps.
\<close>

definition ht_buckets_ok :: "(addr \<times> hnode) list list \<Rightarrow> bool" where
  "ht_buckets_ok ts \<longleftrightarrow>
     (\<forall>i < length ts. \<forall>(d, e) \<in> set (ts ! i).
        hn_hash e = string_hash (hn_name e) \<and> hn_idx e = i \<and> bucket_of (hn_hash e) = i)"

definition ht_ok :: "'a ht_state_scheme \<Rightarrow> bool" where
  "ht_ok st \<longleftrightarrow>
     length (ht_table st) = STRING_TABLE_LEN \<and> 0 < next_addr st \<and> sn_table_ok (ht_abs st) \<and>
     ht_buckets_ok (ht_table st)"

definition ht_no_wrap :: "'a ht_state_scheme \<Rightarrow> bool" where
  "ht_no_wrap st \<longleftrightarrow> list_all (\<lambda>(d, e). hn_refcount e \<noteq> - 1) (concat (ht_table st))"

text \<open>The table after \<open>StringName::setup()\<close>: every chain empty, address 0 kept for null.\<close>

definition ht_empty :: ht_state where
  "ht_empty = \<lparr>next_addr = 1, ht_table = replicate STRING_TABLE_LEN []\<rparr>"

section \<open>Lemmas on buckets\<close>

lemma bucket_of_less [simp]: "bucket_of h < STRING_TABLE_LEN"
proof -
  have "(STRING_TABLE_MASK :: 32 word) = mask 12"
    by (simp add: STRING_TABLE_MASK_def STRING_TABLE_LEN_def STRING_TABLE_BITS_def mask_eq_exp_minus_1)
  then have "h AND STRING_TABLE_MASK = take_bit 12 h" by (simp add: take_bit_eq_mask)
  then have "bucket_of h = unat (take_bit 12 h)" by (simp only: bucket_of_def)
  also have "\<dots> = unat h mod 4096" by (simp only: unsigned_take_bit_eq) (simp add: take_bit_eq_mod)
  finally have "bucket_of h = unat h mod 4096" .
  then show ?thesis by (simp add: STRING_TABLE_LEN_def STRING_TABLE_BITS_def)
qed

lemma ht_find_Some: "ht_find h s b = Some (d, e) \<Longrightarrow> (d, e) \<in> set b \<and> hn_hash e = h \<and> hn_name e = s"
  by (induction h s b rule: ht_find.induct) (auto split: if_splits)

lemma ht_find_None: "ht_find h s b = None \<longleftrightarrow> (\<forall>(d, e) \<in> set b. \<not> (hn_hash e = h \<and> hn_name e = s))"
  by (induction h s b rule: ht_find.induct) auto

lemma concat_update_node: "concat (map (update_node d f) ts) = update_node d f (concat ts)"
  by (induction ts) (simp_all add: update_node_def)

lemma map_update_node:
  "(\<And>e. F (f e) = g (F e)) \<Longrightarrow>
   map (\<lambda>(a, e). (a, F e)) (update_node d f t) = update_node d g (map (\<lambda>(a, e). (a, F e)) t)"
  by (induction t) (auto simp: update_node_def)

lemma update_node_cong:
  "(\<And>e. (d, e) \<in> set t \<Longrightarrow> f e = g e) \<Longrightarrow> update_node d f t = update_node d g t"
  by (induction t) (auto simp: update_node_def)

lemma filter_update_node:
  "filter (\<lambda>(a, _). a \<noteq> d) (update_node d f t) = filter (\<lambda>(a, _). a \<noteq> d) t"
  by (induction t) (auto simp: update_node_def)

lemma filter_absent: "d \<notin> fst ` set t \<Longrightarrow> filter (\<lambda>(a, _). a \<noteq> d) t = t"
  by (induction t) auto

lemma mset_concat_push:
  "i < length ts \<Longrightarrow> mset (concat (ts[i := x # ts ! i])) = add_mset x (mset (concat ts))"
proof (induction ts arbitrary: i)
  case (Cons b ts)
  then show ?case by (cases i) auto
qed simp

lemma concat_filter_bucket:
  "distinct (map fst (concat ts)) \<Longrightarrow> k < length ts \<Longrightarrow> d \<in> fst ` set (ts ! k) \<Longrightarrow>
   concat (ts[k := filter (\<lambda>(a, _). a \<noteq> d) (ts ! k)]) = filter (\<lambda>(a, _). a \<noteq> d) (concat ts)"
proof (induction ts arbitrary: k)
  case (Cons b ts)
  have D: "fst ` set b \<inter> fst ` set (concat ts) = {}"
    using Cons.prems(1) by (metis distinct_append list.set_map map_append concat.simps(2))
  show ?case
  proof (cases k)
    case 0
    have "d \<notin> fst ` set (concat ts)" using Cons.prems(3) 0 D by auto
    then have "filter (\<lambda>(a, _). a \<noteq> d) (concat ts) = concat ts" by (rule filter_absent)
    then show ?thesis using 0 by simp
  next
    case (Suc k')
    have "d \<in> fst ` set (concat ts)" using Cons.prems(2,3) Suc by force
    then have "d \<notin> fst ` set b" using D by blast
    then have "filter (\<lambda>(a, _). a \<noteq> d) b = b" by (rule filter_absent)
    then show ?thesis using Cons Suc by simp
  qed
qed simp

section \<open>The abstraction\<close>

lemma ht_abs_table: "sn_table (ht_abs st) = map abs_entry (concat (ht_table st))"
  and ht_abs_next [simp]: "next_addr (ht_abs st) = next_addr st"
  by (simp_all add: ht_abs_def)

lemma ht_abs_keys: "map fst (sn_table (ht_abs st)) = map fst (concat (ht_table st))"
  by (simp add: ht_abs_table comp_def split_def)

lemma ht_abs_mem: "(d, e) \<in> set (concat (ht_table st)) \<Longrightarrow> (d, ht_abs_node e) \<in> set (sn_table (ht_abs st))"
  by (force simp: ht_abs_table)

lemma ht_abs_map_of: "map_of (sn_table (ht_abs st)) d = map_option ht_abs_node (ht_node st d)"
  by (simp add: ht_abs_table ht_node_def map_of_map)

lemma ht_abs_set_count:
  "ht_abs (ht_set_count d c st) =
   (ht_abs st)\<lparr>sn_table := update_node d (\<lambda>e. e\<lparr>sd_refcount := unat c\<rparr>) (sn_table (ht_abs st))\<rparr>"
proof -
  have "map abs_entry (update_node d (\<lambda>e. e\<lparr>hn_refcount := c\<rparr>) t) =
        update_node d (\<lambda>e. e\<lparr>sd_refcount := unat c\<rparr>) (map abs_entry t)" for t
    by (rule map_update_node) (simp add: ht_abs_node_def)
  then show ?thesis by (simp add: ht_abs_def ht_set_count_def concat_update_node)
qed

lemma ht_set_count_table [simp]: "length (ht_table (ht_set_count d c st)) = length (ht_table st)"
  and ht_set_count_next [simp]: "next_addr (ht_set_count d c st) = next_addr st"
  and ht_set_count_nth: "i < length (ht_table st) \<Longrightarrow>
        ht_table (ht_set_count d c st) ! i = update_node d (\<lambda>e. e\<lparr>hn_refcount := c\<rparr>) (ht_table st ! i)"
  by (simp_all add: ht_set_count_def)

lemma ht_okD:
  assumes "ht_ok st" "i < length (ht_table st)" "(d, e) \<in> set (ht_table st ! i)"
  shows "hn_hash e = string_hash (hn_name e)" "hn_idx e = i" "bucket_of (hn_hash e) = i"
  using assms unfolding ht_ok_def ht_buckets_ok_def by fastforce+

lemma ht_ok_bucket:
  assumes "ht_ok st" "(d, e) \<in> set (concat (ht_table st))"
  shows "hn_idx e < length (ht_table st) \<and> (d, e) \<in> set (ht_table st ! hn_idx e) \<and>
         hn_hash e = string_hash (hn_name e) \<and> bucket_of (hn_hash e) = hn_idx e"
proof -
  obtain i where "i < length (ht_table st)" "(d, e) \<in> set (ht_table st ! i)"
    using assms(2) by (metis UN_E set_concat in_set_conv_nth)
  then show ?thesis using ht_okD[OF assms(1)] by metis
qed

lemma ht_ok_node:
  assumes "ht_ok st"
  shows "ht_node st d = Some e \<longleftrightarrow> (d, e) \<in> set (concat (ht_table st))"
proof -
  have "distinct (map fst (concat (ht_table st)))"
    using assms ht_abs_keys[of st] by (simp add: ht_ok_def sn_table_ok_def)
  then show ?thesis by (simp add: ht_node_def map_of_eq_Some_iff)
qed

lemma ht_ok_count:
  "ht_ok st \<Longrightarrow> (d, e) \<in> set (concat (ht_table st)) \<Longrightarrow> 0 < unat (hn_refcount e)"
  using sn_table_okD(4)[of "ht_abs st" d "ht_abs_node e"] ht_abs_mem[of d e st]
  by (simp add: ht_ok_def ht_abs_node_def)

lemma ht_ok_node_abs:
  assumes "ht_ok st" "(d, e) \<in> set (concat (ht_table st))" "(d, e') \<in> set (sn_table (ht_abs st))"
  shows "e' = ht_abs_node e"
proof -
  have "sn_table_ok (ht_abs st)" using assms(1) by (simp add: ht_ok_def)
  then show ?thesis using table_map_of[OF _ assms(3)] table_map_of[OF _ ht_abs_mem[OF assms(2)]] by simp
qed

section \<open>The reference count\<close>

lemma rc_ref_live:
  assumes "0 < unat c" "c \<noteq> - 1"
  shows "rc_ref c = (True, c + 1)" "unat (c + 1) = Suc (unat c)"
proof -
  have "c \<noteq> 0" using assms(1) by auto
  moreover have "c + 1 \<noteq> 0" using assms(2) by (metis add.inverse_unique add.commute)
  ultimately show "rc_ref c = (True, c + 1)" by (simp add: rc_ref_def)
  show "unat (c + 1) = Suc (unat c)" using \<open>c + 1 \<noteq> 0\<close> unatSuc[of c] by (simp add: add.commute)
qed

lemma rc_unref_live:
  assumes "0 < unat c"
  shows "rc_unref c = (unat c = 1, c - 1)" "unat (c - 1) = unat c - 1"
proof -
  show "unat (c - 1) = unat c - 1" using unat_minus_const[of 1 c] assms by simp
  have "unat c = 1 \<longleftrightarrow> c = 1" by (metis unat_1 word_unat_eq_iff)
  then have "c - 1 = 0 \<longleftrightarrow> unat c = 1" by simp
  then show "rc_unref c = (unat c = 1, c - 1)" by (simp add: rc_unref_def)
qed

lemma ht_no_wrapD: "ht_no_wrap st \<Longrightarrow> (d, e) \<in> set (concat (ht_table st)) \<Longrightarrow> hn_refcount e \<noteq> - 1"
  unfolding ht_no_wrap_def list_all_iff by fastforce

lemma ht_abs_count_cong:
  assumes "ht_ok st" "(d, e) \<in> set (concat (ht_table st))" "\<And>e'. f e' = e'\<lparr>sd_refcount := n (sd_refcount e')\<rparr>"
    "unat c = n (unat (hn_refcount e))"
  shows "ht_abs (ht_set_count d c st) = (ht_abs st)\<lparr>sn_table := update_node d f (sn_table (ht_abs st))\<rparr>"
proof -
  have "update_node d (\<lambda>e. e\<lparr>sd_refcount := unat c\<rparr>) (sn_table (ht_abs st)) = update_node d f (sn_table (ht_abs st))"
  proof (rule update_node_cong)
    fix e'
    assume "(d, e') \<in> set (sn_table (ht_abs st))"
    then have "e' = ht_abs_node e" by (rule ht_ok_node_abs[OF assms(1,2)])
    then show "e'\<lparr>sd_refcount := unat c\<rparr> = f e'" using assms(3,4) by (simp add: ht_abs_node_def)
  qed
  then show ?thesis by (simp add: ht_abs_set_count)
qed

lemma ht_ref_step:
  assumes "ht_ok st" "ht_no_wrap st" "(d, e) \<in> set (concat (ht_table st))"
  shows "rc_ref (hn_refcount e) = (True, hn_refcount e + 1)"
    "ht_abs (ht_set_count d (hn_refcount e + 1) st) = (ht_abs st)\<lparr>sn_table := update_node d inc_node (sn_table (ht_abs st))\<rparr>"
  using rc_ref_live[OF ht_ok_count[OF assms(1,3)] ht_no_wrapD[OF assms(2,3)]]
    ht_abs_count_cong[OF assms(1,3), of inc_node Suc] by simp_all

lemma ht_unref_step:
  assumes "ht_ok st" "(d, e) \<in> set (concat (ht_table st))"
  shows "rc_unref (hn_refcount e) = (unat (hn_refcount e) = 1, hn_refcount e - 1)"
    "ht_abs (ht_set_count d (hn_refcount e - 1) st) = (ht_abs st)\<lparr>sn_table := update_node d dec_node (sn_table (ht_abs st))\<rparr>"
  using rc_unref_live[OF ht_ok_count[OF assms]] ht_abs_count_cong[OF assms, of dec_node "\<lambda>k. k - 1"] by simp_all

lemma abs_filter: "map abs_entry (filter (\<lambda>(a, _). a \<noteq> d) t) = filter (\<lambda>(a, _). a \<noteq> d) (map abs_entry t)"
  by (induction t) auto

section \<open>Refinement of the single chain\<close>

lemma ht_to_string_refines: "ht_to_string n st = string_name_to_string n (ht_abs st)"
  by (simp add: ht_to_string_def string_name_to_string_def ht_abs_map_of option.map_comp comp_def
      ht_abs_node_def split: option.splits)

lemma ht_copy_refines:
  assumes ok: "ht_ok st" and nw: "ht_no_wrap st"
  shows "map_option (\<lambda>(n', st'). (n', ht_abs st')) (ht_copy n st) = string_name_copy n (ht_abs st)"
proof (cases n)
  case (Some d)
  note nd = Some
  show ?thesis
  proof (cases "ht_node st d")
    case None
    then show ?thesis using nd by (simp add: ht_copy_def string_name_copy_def ht_abs_map_of)
  next
    case (Some e)
    then have m: "(d, e) \<in> set (concat (ht_table st))" using ht_ok_node[OF ok] by simp
    have "sn_table_ok (ht_abs st)" using ok by (simp add: ht_ok_def)
    note flat = copy_node[OF this ht_abs_mem[OF m]]
    show ?thesis using nd Some flat ht_ref_step[OF ok nw m] by (simp add: ht_copy_def)
  qed
qed (simp add: ht_copy_def)

lemma ht_unref_refines:
  assumes ok: "ht_ok st"
  shows "map_option ht_abs (ht_unref n st) = string_name_unref n (ht_abs st)"
proof (cases n)
  case (Some d)
  note nd = Some
  show ?thesis
  proof (cases "ht_node st d")
    case None
    then show ?thesis using nd by (simp add: ht_unref_def string_name_unref_def ht_abs_map_of)
  next
    case (Some e)
    then have m: "(d, e) \<in> set (concat (ht_table st))" using ht_ok_node[OF ok] by simp
    have sok: "sn_table_ok (ht_abs st)" using ok by (simp add: ht_ok_def)
    note step = ht_unref_step[OF ok m]
    let ?c = "hn_refcount e - 1" and ?k = "hn_idx e" and ?P = "\<lambda>(a :: addr, _ :: hnode). a \<noteq> d"
    let ?st' = "ht_set_count d ?c st"
    show ?thesis
    proof (cases "unat (hn_refcount e) = 1")
      case True
      have b: "?k < length (ht_table st)" "(d, e) \<in> set (ht_table st ! ?k)" using ht_ok_bucket[OF ok m] by simp_all
      have "distinct (map fst (concat (ht_table ?st')))"
        using sok ht_abs_keys[of ?st'] ht_abs_keys[of st]
        by (simp add: sn_table_ok_def ht_set_count_def concat_update_node)
      moreover have "d \<in> fst ` set (ht_table ?st' ! ?k)"
        using b by (force simp: ht_set_count_nth)
      ultimately have "concat ((ht_table ?st')[?k := filter ?P (ht_table ?st' ! ?k)]) = filter ?P (concat (ht_table ?st'))"
        using b(1) by (intro concat_filter_bucket) simp_all
      also have "\<dots> = filter ?P (concat (ht_table st))"
        by (simp add: ht_set_count_def concat_update_node filter_update_node)
      finally have "ht_abs (?st'\<lparr>ht_table := (ht_table ?st')[?k := filter ?P (ht_table ?st' ! ?k)]\<rparr>) =
                    (ht_abs st)\<lparr>sn_table := filter (\<lambda>(a, _). a \<noteq> d) (sn_table (ht_abs st))\<rparr>"
        by (simp add: ht_abs_def abs_filter)
      moreover have "sd_refcount (ht_abs_node e) = 1" using True by (simp add: ht_abs_node_def)
      ultimately show ?thesis using nd Some step(1) True unref_last[OF sok ht_abs_mem[OF m]]
        by (simp add: ht_unref_def Let_def)
    next
      case False
      then have "sd_refcount (ht_abs_node e) \<noteq> 1" by (simp add: ht_abs_node_def)
      then show ?thesis using nd Some step False unref_shared[OF sok ht_abs_mem[OF m]]
        by (simp add: ht_unref_def)
    qed
  qed
qed (simp add: ht_unref_def)

lemma sn_equiv_refl [simp]: "sn_equiv st st"
  by (simp add: sn_equiv_def)

lemma ht_link_abs:
  assumes "i < length (ht_table st)"
  shows "fst (ht_link s h i st) = Some (next_addr st)"
    "next_addr (snd (ht_link s h i st)) = Suc (next_addr st)"
    "length (ht_table (snd (ht_link s h i st))) = length (ht_table st)"
    "mset (sn_table (ht_abs (snd (ht_link s h i st)))) =
     add_mset (next_addr st, \<lparr>sd_name = s, sd_refcount = 1\<rparr>) (mset (sn_table (ht_abs st)))"
  using mset_concat_push[OF assms] by (simp_all add: ht_link_def memnew_def ht_abs_table ht_abs_node_def)

lemma ht_find_absent:
  assumes ok: "ht_ok st" and f: "ht_find (string_hash s) s (ht_table st ! bucket_of (string_hash s)) = None"
    and a: "(d, e') \<in> set (sn_table (ht_abs st))"
  shows "sd_name e' \<noteq> s"
proof
  assume "sd_name e' = s"
  with a obtain e where m: "(d, e) \<in> set (concat (ht_table st))" and n: "hn_name e = s"
    by (auto simp: ht_abs_table ht_abs_node_def simp del: set_concat)
  note b = ht_ok_bucket[OF ok m]
  then have "(d, e) \<in> set (ht_table st ! bucket_of (string_hash s))" and "hn_hash e = string_hash s"
    using n by metis+
  then show False using f n by (auto simp: ht_find_None)
qed

lemma ht_from_string_refines:
  assumes ok: "ht_ok st" and nw: "ht_no_wrap st"
  shows "fst (ht_from_string s st) = fst (string_name_from_string s (ht_abs st)) \<and>
         sn_equiv (ht_abs (snd (ht_from_string s st))) (snd (string_name_from_string s (ht_abs st)))"
proof (cases "s = []")
  case False
  let ?h = "string_hash s"
  let ?i = "bucket_of ?h"
  have sok: "sn_table_ok (ht_abs st)" using ok by (simp add: ht_ok_def)
  have i: "?i < length (ht_table st)" using ok by (simp add: ht_ok_def)
  show ?thesis
  proof (cases "ht_find ?h s (ht_table st ! ?i)")
    case None
    have "\<forall>(d, e) \<in> set (sn_table (ht_abs st)). sd_name e \<noteq> s"
      using ht_find_absent[OF ok None] by blast
    note flat = from_string_fresh[OF False this]
    show ?thesis using False None flat ht_link_abs[OF i, of s ?h]
      by (simp add: ht_from_string_def sn_equiv_def Let_def)
  next
    case (Some x)
    obtain d e where x: "x = (d, e)" by (cases x)
    have "(d, e) \<in> set (ht_table st ! ?i)" "hn_name e = s" using ht_find_Some Some x by simp_all
    then have m: "(d, e) \<in> set (concat (ht_table st))" and n: "sd_name (ht_abs_node e) = s"
      using i by (auto simp: ht_abs_node_def)
    note flat = from_string_found[OF sok ht_abs_mem[OF m] n]
    show ?thesis using False Some x flat ht_ref_step[OF ok nw m] by (simp add: ht_from_string_def Let_def)
  qed
qed (simp add: ht_from_string_def)

section \<open>The invariant\<close>

lemma sn_equiv_ok: "sn_equiv st st' \<Longrightarrow> sn_table_ok st = sn_table_ok st'"
proof -
  assume e: "sn_equiv st st'"
  then have m: "mset (sn_table st) = mset (sn_table st')" and n: "next_addr st = next_addr st'"
    by (simp_all add: sn_equiv_def)
  have d1: "distinct (map fst (sn_table st)) = distinct (map fst (sn_table st'))"
    using m by (metis mset_map mset_eq_imp_distinct_iff)
  have d2: "distinct (map (sd_name \<circ> snd) (sn_table st)) = distinct (map (sd_name \<circ> snd) (sn_table st'))"
    using m by (metis mset_map mset_eq_imp_distinct_iff)
  have "set (sn_table st) = set (sn_table st')" using m by (metis set_mset_mset)
  then show ?thesis using n d1 d2 by (simp add: sn_table_ok_def)
qed

lemma from_string_ok:
  assumes ok: "sn_table_ok st" and n: "0 < next_addr st"
  shows "sn_table_ok (snd (string_name_from_string s st))"
proof (cases "s = []")
  case False
  show ?thesis
  proof (cases "sn_lookup s (sn_table st)")
    case None
    then have a: "\<forall>(d, e) \<in> set (sn_table st). sd_name e \<noteq> s" by (simp only: sn_lookup_None)
    show ?thesis using from_string_fresh[OF False a] sn_table_ok_fresh[OF ok False a n] by simp
  next
    case (Some x)
    obtain d e where x: "x = (d, e)" by (cases x)
    then have "(d, e) \<in> set (sn_table st)" "sd_name e = s" using sn_lookup_Some Some by simp_all
    then show ?thesis using from_string_found[OF ok] sn_table_ok_inc[OF ok] by simp
  qed
qed (simp add: ok)

lemma copy_ok: "sn_table_ok st \<Longrightarrow> string_name_copy n st = Some (n', st') \<Longrightarrow> sn_table_ok st'"
  by (auto simp: string_name_copy_def sn_table_ok_inc split: option.splits if_splits)

lemma unref_ok:
  assumes ok: "sn_table_ok st" and u: "string_name_unref n st = Some st'"
  shows "sn_table_ok st'"
proof (cases n)
  case (Some d)
  then obtain e where m: "(d, e) \<in> set (sn_table st)"
    using u ok by (auto simp: string_name_unref_def sn_table_ok_map_of split: option.splits)
  show ?thesis
    by (cases "sd_refcount e = 1")
       (use u Some unref_last[OF ok m] unref_shared[OF ok m] sn_table_ok_unlink[OF ok] sn_table_ok_dec[OF ok m] in auto)
qed (use u ok in simp)

lemma buckets_ok_set_count:
  "ht_buckets_ok ts \<Longrightarrow> ht_buckets_ok (map (update_node d (\<lambda>e. e\<lparr>hn_refcount := c\<rparr>)) ts)"
  unfolding ht_buckets_ok_def by (fastforce simp: set_update_node)

lemma buckets_ok_push:
  "ht_buckets_ok ts \<Longrightarrow> i = bucket_of (string_hash s) \<Longrightarrow> i < length ts \<Longrightarrow>
   ht_buckets_ok (ts[i := (d, \<lparr>hn_name = s, hn_refcount = c, hn_hash = string_hash s, hn_idx = i\<rparr>) # ts ! i])"
  unfolding ht_buckets_ok_def by (auto simp: nth_list_update split: if_splits)

lemma buckets_ok_filter: "ht_buckets_ok ts \<Longrightarrow> ht_buckets_ok (ts[k := filter P (ts ! k)])"
  unfolding ht_buckets_ok_def by (cases "k < length ts") (auto simp: nth_list_update split: if_splits)

lemma ht_ok_intro:
  "length (ht_table st) = STRING_TABLE_LEN \<Longrightarrow> 0 < next_addr st \<Longrightarrow> sn_table_ok (ht_abs st) \<Longrightarrow>
   ht_buckets_ok (ht_table st) \<Longrightarrow> ht_ok st"
  by (simp add: ht_ok_def)

lemma ht_ok_set_count: "ht_ok st \<Longrightarrow> c \<noteq> 0 \<Longrightarrow> ht_ok (ht_set_count d c st)"
proof -
  assume ok: "ht_ok st" and c: "c \<noteq> 0"
  have "sn_table_ok (ht_abs (ht_set_count d c st))"
    unfolding ht_abs_set_count
    by (rule sn_table_ok_update) (use ok c in \<open>simp_all add: ht_ok_def unat_gt_0\<close>)
  then show ?thesis using ok by (simp add: ht_ok_def ht_set_count_def buckets_ok_set_count)
qed

lemma ht_link_shape:
  assumes "ht_buckets_ok (ht_table st)" "length (ht_table st) = STRING_TABLE_LEN"
  shows "ht_buckets_ok (ht_table (snd (ht_link s (string_hash s) (bucket_of (string_hash s)) st))) \<and>
         length (ht_table (snd (ht_link s (string_hash s) (bucket_of (string_hash s)) st))) = STRING_TABLE_LEN \<and>
         next_addr (snd (ht_link s (string_hash s) (bucket_of (string_hash s)) st)) = Suc (next_addr st)"
  using buckets_ok_push[OF assms(1) refl, of s] bucket_of_less[of "string_hash s"] assms(2)
  by (simp add: ht_link_def memnew_def)

lemma ht_set_count_shape: "ht_buckets_ok (ht_table st) \<Longrightarrow> ht_buckets_ok (ht_table (ht_set_count d c st))"
  by (simp add: ht_set_count_def buckets_ok_set_count)

lemma ht_from_string_shape:
  assumes "ht_ok st"
  shows "length (ht_table (snd (ht_from_string s st))) = STRING_TABLE_LEN \<and>
         0 < next_addr (snd (ht_from_string s st)) \<and> ht_buckets_ok (ht_table (snd (ht_from_string s st)))"
proof -
  have b: "ht_buckets_ok (ht_table st)" "length (ht_table st) = STRING_TABLE_LEN" "0 < next_addr st"
    using assms by (simp_all add: ht_ok_def)
  note l = ht_link_shape[OF b(1,2), of s] ht_link_shape[OF ht_set_count_shape[OF b(1)], of _ _ s]
  show ?thesis using b l ht_set_count_shape[OF b(1)]
    by (simp add: ht_from_string_def Let_def split: option.splits prod.splits)
qed

lemma ht_ok_from_string: "ht_ok st \<Longrightarrow> ht_no_wrap st \<Longrightarrow> ht_ok (snd (ht_from_string s st))"
proof -
  assume ok: "ht_ok st" and nw: "ht_no_wrap st"
  have "sn_table_ok (snd (string_name_from_string s (ht_abs st)))"
    using ok by (intro from_string_ok) (simp_all add: ht_ok_def)
  then have "sn_table_ok (ht_abs (snd (ht_from_string s st)))"
    using ht_from_string_refines[OF ok nw] sn_equiv_ok by blast
  then show ?thesis using ht_from_string_shape[OF ok] by (simp add: ht_ok_def)
qed

lemma ht_copy_cases: "ht_copy n st = Some (n', st') \<Longrightarrow> st' = st \<or> (\<exists>d c. st' = ht_set_count d c st)"
  by (auto simp: ht_copy_def Let_def split: option.splits prod.splits if_splits)

lemma ht_unref_shape:
  "ht_unref n st = Some st' \<Longrightarrow> length (ht_table st') = length (ht_table st) \<and> next_addr st' = next_addr st \<and>
   (ht_buckets_ok (ht_table st) \<longrightarrow> ht_buckets_ok (ht_table st'))"
  by (auto simp: ht_unref_def Let_def ht_set_count_shape buckets_ok_filter split: option.splits prod.splits if_splits)

lemma ht_ok_copy: "ht_ok st \<Longrightarrow> ht_no_wrap st \<Longrightarrow> ht_copy n st = Some (n', st') \<Longrightarrow> ht_ok st'"
proof -
  assume ok: "ht_ok st" and nw: "ht_no_wrap st" and c: "ht_copy n st = Some (n', st')"
  have "string_name_copy n (ht_abs st) = Some (n', ht_abs st')"
    using ht_copy_refines[OF ok nw, of n] c by simp
  moreover have "sn_table_ok (ht_abs st)" using ok by (simp add: ht_ok_def)
  ultimately have "sn_table_ok (ht_abs st')" using copy_ok by blast
  moreover have b: "length (ht_table st) = STRING_TABLE_LEN" "0 < next_addr st" "ht_buckets_ok (ht_table st)"
    using ok by (simp_all add: ht_ok_def)
  from ht_copy_cases[OF c]
  have "length (ht_table st') = STRING_TABLE_LEN \<and> 0 < next_addr st' \<and> ht_buckets_ok (ht_table st')"
    by (elim disjE exE) (simp_all add: b ht_set_count_shape)
  ultimately show ?thesis by (simp add: ht_ok_def)
qed

lemma ht_ok_unref: "ht_ok st \<Longrightarrow> ht_unref n st = Some st' \<Longrightarrow> ht_ok st'"
proof -
  assume ok: "ht_ok st" and u: "ht_unref n st = Some st'"
  have "string_name_unref n (ht_abs st) = Some (ht_abs st')"
    using ht_unref_refines[OF ok, of n] u by simp
  moreover have "sn_table_ok (ht_abs st)" using ok by (simp add: ht_ok_def)
  ultimately have "sn_table_ok (ht_abs st')" using unref_ok by blast
  then show ?thesis using ht_unref_shape[OF u] ok by (simp add: ht_ok_def)
qed

lemma ht_ok_empty: "ht_ok ht_empty"
proof (rule ht_ok_intro)
  show "length (ht_table ht_empty) = STRING_TABLE_LEN" by (simp add: ht_empty_def)
  show "0 < next_addr ht_empty" by (simp add: ht_empty_def)
  have "ht_abs ht_empty = \<lparr>next_addr = 1, sn_table = []\<rparr>" by (simp add: ht_abs_def ht_empty_def del: set_concat)
  then show "sn_table_ok (ht_abs ht_empty)" by (simp add: sn_table_ok_def)
  show "ht_buckets_ok (ht_table ht_empty)" by (simp add: ht_empty_def ht_buckets_ok_def)
qed

lemma ht_no_wrap_empty: "ht_no_wrap ht_empty"
  by (simp add: ht_no_wrap_def ht_empty_def del: set_concat)

section \<open>A count at its limit\<close>

lemma set_concat_push:
  "i < length ts \<Longrightarrow> set (concat (ts[i := x # ts ! i])) = insert x (set (concat ts))"
  using mset_concat_push by (metis set_mset_add_mset_insert set_mset_mset)

lemma names_not_distinct:
  "(a, x) \<in> set t \<Longrightarrow> (b, y) \<in> set t \<Longrightarrow> a \<noteq> b \<Longrightarrow> sd_name x = sd_name y \<Longrightarrow>
   \<not> distinct (map (sd_name \<circ> snd) t)"
  unfolding distinct_map inj_on_def by (metis comp_apply prod.inject snd_conv)

text \<open>
  C17 (overflow of the 32-bit reference count): when the node holding a text has count
  2^32-1, a new name for that text wraps the count to 0, so the ref fails and a second node
  with the same text is linked in; the glue's \<open>operator_Equals\<close> result for the new and the
  old name, \<open>(MonoBoolean)\<close> of their comparison, is 0 although their texts are equal; the old
  node is still held with count 0, and the table no longer keeps one node per text.
\<close>

theorem ht_refcount_wrap:
  assumes ok: "ht_ok st"
    and f: "ht_find (string_hash s) s (ht_table st ! bucket_of (string_hash s)) = Some (d, e)"
    and w: "hn_refcount e = - 1"
  shows "fst (ht_from_string s st) = Some (next_addr st) \<and>
         mono_boolean_of (string_name_eq (fst (ht_from_string s st)) (Some d)) = 0 \<and>
         (d, e\<lparr>hn_refcount := 0\<rparr>) \<in> set (concat (ht_table (snd (ht_from_string s st)))) \<and>
         (next_addr st, \<lparr>hn_name = s, hn_refcount = 1, hn_hash = string_hash s, hn_idx = bucket_of (string_hash s)\<rparr>)
           \<in> set (concat (ht_table (snd (ht_from_string s st)))) \<and>
         \<not> sn_table_ok (ht_abs (snd (ht_from_string s st)))"
proof -
  let ?h = "string_hash s" let ?i = "bucket_of ?h"
  let ?st' = "ht_set_count d 0 st"
  let ?x = "(next_addr st, \<lparr>hn_name = s, hn_refcount = 1, hn_hash = ?h, hn_idx = ?i\<rparr>)"
  have i: "?i < length (ht_table st)" and sok: "sn_table_ok (ht_abs st)" using ok by (simp_all add: ht_ok_def)
  have b: "(d, e) \<in> set (ht_table st ! ?i)" "hn_name e = s" using ht_find_Some[OF f] by simp_all
  then have m: "(d, e) \<in> set (concat (ht_table st))" using i by auto
  have "s \<noteq> []" "d < next_addr st"
    using sn_table_okD(2,3)[OF sok ht_abs_mem[OF m]] b(2) by (simp_all add: ht_abs_node_def)
  moreover have "rc_ref (hn_refcount e) = (False, 0)" using w by (simp add: rc_ref_def)
  ultimately have r: "ht_from_string s st = ht_link s ?h ?i ?st'" using f by (simp add: ht_from_string_def Let_def)
  have t: "set (concat (ht_table (snd (ht_link s ?h ?i ?st')))) = insert ?x (set (concat (ht_table ?st')))"
    using set_concat_push[of ?i "ht_table ?st'" ?x] i by (simp add: ht_link_def memnew_def ht_set_count_nth)
  have "(d, e\<lparr>hn_refcount := 0\<rparr>) \<in> set (concat (ht_table ?st'))"
    using m by (auto simp: ht_set_count_def concat_update_node set_update_node)
  then have two: "(d, e\<lparr>hn_refcount := 0\<rparr>) \<in> set (concat (ht_table (snd (ht_from_string s st))))"
    "?x \<in> set (concat (ht_table (snd (ht_from_string s st))))" using r t by simp_all
  have "\<not> distinct (map (sd_name \<circ> snd) (sn_table (ht_abs (snd (ht_from_string s st)))))"
    using names_not_distinct[OF ht_abs_mem[OF two(1)] ht_abs_mem[OF two(2)]] \<open>d < next_addr st\<close> b(2)
    by (simp add: ht_abs_node_def)
  then have "\<not> sn_table_ok (ht_abs (snd (ht_from_string s st)))" by (simp add: sn_table_ok_def)
  moreover have "fst (ht_from_string s st) = Some (next_addr st)" using r by (simp add: ht_link_def memnew_def)
  ultimately show ?thesis using two \<open>d < next_addr st\<close> by (simp add: string_name_eq_def mono_boolean_of_def)
qed

section \<open>Refinement and invariant of the hashed table\<close>

text \<open>
  C15 (the hashed table implements the single chain): from a table satisfying \<open>ht_ok\<close> in
  which no count is at 2^32-1, each table operation gives the result of the same
  operation on the single-chain table \<open>ht_abs\<close>: lookup-or-create up to the order of
  the nodes, copy, release and read-back exactly.
\<close>

theorem ht_refines_chain:
  assumes "ht_ok st" and "ht_no_wrap st"
  shows "fst (ht_from_string s st) = fst (string_name_from_string s (ht_abs st)) \<and>
         sn_equiv (ht_abs (snd (ht_from_string s st))) (snd (string_name_from_string s (ht_abs st))) \<and>
         map_option (\<lambda>(n', st'). (n', ht_abs st')) (ht_copy n st) = string_name_copy n (ht_abs st) \<and>
         map_option ht_abs (ht_unref n st) = string_name_unref n (ht_abs st) \<and>
         ht_to_string n st = string_name_to_string n (ht_abs st)"
  using ht_from_string_refines[OF assms] ht_copy_refines[OF assms] ht_unref_refines[OF assms(1)]
    ht_to_string_refines by blast

text \<open>
  C16 (the invariant of the hashed table): the empty table satisfies \<open>ht_ok\<close> (4096
  buckets, every node in the bucket of its hash with its hash and index cached, one node
  per text, positive counts), and lookup-or-create, copy and release keep it while no
  count is at 2^32-1.
\<close>

theorem ht_ok_preserved:
  assumes "ht_ok st" and "ht_no_wrap st"
  shows "ht_ok ht_empty \<and> ht_ok (snd (ht_from_string s st)) \<and>
         (ht_copy n st = Some (n', st') \<longrightarrow> ht_ok st') \<and> (ht_unref n st = Some st'' \<longrightarrow> ht_ok st'')"
  using ht_ok_empty ht_ok_from_string[OF assms] ht_ok_copy[OF assms] ht_ok_unref[OF assms(1)] by blast

theorem ht_refines_chain_witness:
  "ht_ok ht_empty \<and> ht_no_wrap ht_empty \<and>
   fst (ht_from_string [97] ht_empty) = fst (string_name_from_string [97] (ht_abs ht_empty)) \<and>
   sn_equiv (ht_abs (snd (ht_from_string [97] ht_empty))) (snd (string_name_from_string [97] (ht_abs ht_empty))) \<and>
   map_option (\<lambda>(n', st'). (n', ht_abs st')) (ht_copy (Some 1) ht_empty) = string_name_copy (Some 1) (ht_abs ht_empty) \<and>
   map_option ht_abs (ht_unref (Some 1) ht_empty) = string_name_unref (Some 1) (ht_abs ht_empty) \<and>
   ht_to_string (Some 1) ht_empty = string_name_to_string (Some 1) (ht_abs ht_empty)"
  using ht_refines_chain[OF ht_ok_empty ht_no_wrap_empty, of "[97]" "Some 1"] ht_ok_empty ht_no_wrap_empty
  by blast

theorem ht_ok_preserved_witness:
  "ht_ok ht_empty \<and> ht_no_wrap ht_empty \<and> ht_ok (snd (ht_from_string [97] ht_empty)) \<and>
   ht_copy None ht_empty = Some (None, ht_empty) \<and> ht_unref None ht_empty = Some ht_empty \<and> ht_ok ht_empty"
proof -
  have c: "ht_copy None ht_empty = Some (None, ht_empty)" by (simp add: ht_copy_def)
  have u: "ht_unref None ht_empty = Some ht_empty" by (simp add: ht_unref_def)
  show ?thesis
    using ht_ok_preserved[OF ht_ok_empty ht_no_wrap_empty, of "[97]" None None ht_empty ht_empty]
      ht_ok_empty ht_no_wrap_empty c u by blast
qed

theorem ht_refcount_wrap_witness:
  "ht_ok (ht_set_count 1 (- 1) (snd (ht_from_string [97] ht_empty))) \<and>
   ht_find (string_hash [97]) [97]
     (ht_table (ht_set_count 1 (- 1) (snd (ht_from_string [97] ht_empty))) ! bucket_of (string_hash [97])) =
     Some (1, \<lparr>hn_name = [97], hn_refcount = - 1, hn_hash = 177670, hn_idx = 1542\<rparr>) \<and>
   hn_refcount \<lparr>hn_name = [97], hn_refcount = - 1 :: 32 word, hn_hash = 177670, hn_idx = 1542\<rparr> = - 1 \<and>
   \<not> sn_table_ok (ht_abs (snd (ht_from_string [97] (ht_set_count 1 (- 1) (snd (ht_from_string [97] ht_empty))))))"
proof -
  let ?W = "ht_set_count 1 (- 1) (snd (ht_from_string [97] ht_empty))"
  have ok: "ht_ok ?W" by (rule ht_ok_set_count[OF ht_ok_from_string[OF ht_ok_empty ht_no_wrap_empty]]) simp
  have e: "ht_from_string [97] ht_empty =
           (Some 1, \<lparr>next_addr = 2, ht_table = (replicate STRING_TABLE_LEN [])[1542 :=
              [(1, \<lparr>hn_name = [97], hn_refcount = 1, hn_hash = 177670, hn_idx = 1542\<rparr>)]]\<rparr>)"
    by (simp add: ht_from_string_def ht_empty_def string_hash_def bucket_of_def STRING_TABLE_MASK_def
        STRING_TABLE_LEN_def STRING_TABLE_BITS_def ht_link_def memnew_def)
  have f: "ht_find (string_hash [97]) [97] (ht_table ?W ! bucket_of (string_hash [97])) =
           Some (1, \<lparr>hn_name = [97], hn_refcount = - 1, hn_hash = 177670, hn_idx = 1542\<rparr>)"
    unfolding e by (simp add: ht_set_count_def string_hash_def bucket_of_def STRING_TABLE_MASK_def
        STRING_TABLE_LEN_def STRING_TABLE_BITS_def update_node_def map_update)
  show ?thesis using ht_refcount_wrap[OF ok f] ok f by simp
qed

end
