(* ===== verification/StringName_Threads.thy ===== *)
theory StringName_Threads
  imports StringName_Table
begin

text \<open>
  Threads sharing the engine's interning table. In \<open>core/string/string_name.cpp\<close>,
  \<open>StringName(const String &)\<close> runs under the table mutex, the copy constructor's
  \<open>refcount.ref()\<close> is a lock-free atomic, and \<open>unref()\<close> decrements the count lock-free and
  only then takes the mutex to unlink a node whose count reached 0. A configuration is the
  table and the multiset of names the threads hold (\<open>Held d\<close>) or are about to unlink
  (\<open>Pending d\<close>); \<open>tstep\<close> is one atomic step of any thread, so \<open>treach\<close> covers every
  interleaving. Each step is atomic at the granularity of the engine's atomics and of its
  mutex: the scan of a chain reads names and hashes, which no lock-free step changes, so a
  count change between the scan and the ref is the same as one before the whole creation.
  The invariant \<open>tinv\<close> ties every count to the number of held names and a count of 0 to a
  pending unlink, and keeps in each chain every node of a text after the first at count 0.
  Creation is bounded by \<open>name_limit\<close>, fewer than 2^32-2 names at a time, below the
  count's wrap-around (see \<open>ht_refcount_wrap\<close> for what happens past it).
\<close>

section \<open>Release in two steps\<close>

text \<open>
  The two halves of \<open>StringName::unref()\<close>: the lock-free \<open>refcount.unref()\<close>, and, when it
  reached 0, the unlink from \<open>_table[_data->idx]\<close> under the mutex (\<open>ht_unref_split\<close>: run
  back to back they are \<open>ht_unref\<close>).
\<close>

definition ht_unref_dec :: "addr \<Rightarrow> 'a ht_state_scheme \<Rightarrow> (bool \<times> 'a ht_state_scheme) option" where
  "ht_unref_dec d st =
     (case ht_node st d of
        None \<Rightarrow> None
      | Some e \<Rightarrow> (let (z, c) = rc_unref (hn_refcount e) in Some (z, ht_set_count d c st)))"

definition ht_unlink :: "addr \<Rightarrow> 'a ht_state_scheme \<Rightarrow> 'a ht_state_scheme option" where
  "ht_unlink d st =
     (case ht_node st d of
        None \<Rightarrow> None
      | Some e \<Rightarrow> Some (st\<lparr>ht_table := (ht_table st)[hn_idx e := filter (\<lambda>(a, _). a \<noteq> d) (ht_table st ! hn_idx e)]\<rparr>))"

section \<open>Threads sharing the table\<close>

text \<open>
  A name a thread holds, or a node whose count its release brought to 0 and which it is
  about to unlink. Creation and copy are bounded by \<open>name_limit\<close> live names.
\<close>

datatype tname = Held addr | Pending addr

type_synonym tconf = "ht_state \<times> tname multiset"

definition name_limit :: nat where
  "name_limit = 2 ^ 32 - 2"

inductive tstep :: "tconf \<Rightarrow> tconf \<Rightarrow> bool" where
  t_create: "s \<noteq> [] \<Longrightarrow> size H < name_limit \<Longrightarrow> ht_from_string s st = (Some d, st') \<Longrightarrow>
             tstep (st, H) (st', add_mset (Held d) H)"
| t_copy: "Held d \<in># H \<Longrightarrow> size H < name_limit \<Longrightarrow> ht_copy (Some d) st = Some (Some d', st') \<Longrightarrow>
             tstep (st, H) (st', add_mset (Held d') H)"
| t_release: "Held d \<in># H \<Longrightarrow> ht_unref_dec d st = Some (z, st') \<Longrightarrow>
             tstep (st, H) (st', (if z then add_mset (Pending d) else id) (H - {#Held d#}))"
| t_unlink: "Pending d \<in># H \<Longrightarrow> ht_unlink d st = Some st' \<Longrightarrow>
             tstep (st, H) (st', H - {#Pending d#})"

inductive treach :: "tconf \<Rightarrow> bool" where
  treach_init: "treach (ht_empty, {#})"
| treach_step: "treach C \<Longrightarrow> tstep C C' \<Longrightarrow> treach C'"

inductive_cases tstepE: "tstep C C'"

primrec tweight :: "tname \<Rightarrow> nat" where
  "tweight (Held d) = 2"
| "tweight (Pending d) = 1"

section \<open>The invariant of the shared table\<close>

primrec tname_addr :: "tname \<Rightarrow> addr" where
  "tname_addr (Held d) = d"
| "tname_addr (Pending d) = d"

definition live_first :: "(addr \<times> hnode) list \<Rightarrow> bool" where
  "live_first b \<longleftrightarrow>
     (\<forall>(d, e) \<in> set b. list_all (\<lambda>(d', e'). hn_refcount e' = 0) (tl (filter (\<lambda>(d', e'). hn_name e' = hn_name e) b)))"

definition tinv :: "tconf \<Rightarrow> bool" where
  "tinv C \<longleftrightarrow>
     (let st = fst C; H = snd C; t = concat (ht_table st) in
      length (ht_table st) = STRING_TABLE_LEN \<and> 0 < next_addr st \<and> ht_buckets_ok (ht_table st) \<and>
      distinct (map fst t) \<and> size H < 2 ^ 32 - 1 \<and>
      (\<forall>(d, e) \<in> set t. 0 < d \<and> d < next_addr st \<and> hn_name e \<noteq> [] \<and>
         unat (hn_refcount e) = count H (Held d) \<and> count H (Pending d) = (if hn_refcount e = 0 then 1 else 0)) \<and>
      (\<forall>x \<in># H. tname_addr x \<in> fst ` set t) \<and>
      list_all live_first (ht_table st))"

section \<open>Lemmas\<close>

lemma ht_node_set_count: "ht_node (ht_set_count d c st) d' =
   (if d' = d then map_option (\<lambda>e. e\<lparr>hn_refcount := c\<rparr>) (ht_node st d) else ht_node st d')"
  by (simp add: ht_node_def ht_set_count_def concat_update_node)

lemma ht_unref_split:
  "ht_unref (Some d) st =
   (case ht_unref_dec d st of None \<Rightarrow> None | Some (z, st') \<Rightarrow> if z then ht_unlink d st' else Some st')"
  by (auto simp: ht_unref_def ht_unref_dec_def ht_unlink_def ht_node_set_count Let_def
      split: option.splits prod.splits)

lemma ht_find_first:
  "\<forall>(d, e) \<in> set b. hn_hash e = string_hash (hn_name e) \<Longrightarrow>
   ht_find (string_hash s) s b = (case filter (\<lambda>(d, e). hn_name e = s) b of [] \<Rightarrow> None | x # _ \<Rightarrow> Some x)"
  by (induction b) auto

abbreviation of_text :: "gstring \<Rightarrow> (addr \<times> hnode) list \<Rightarrow> (addr \<times> hnode) list" where
  "of_text s b \<equiv> filter (\<lambda>(d, e). hn_name e = s) b"

lemma live_first_iff:
  "live_first b \<longleftrightarrow> (\<forall>s. \<forall>x \<in> set (tl (of_text s b)). hn_refcount (snd x) = 0)"
proof
  assume l: "live_first b"
  show "\<forall>s. \<forall>x \<in> set (tl (of_text s b)). hn_refcount (snd x) = 0"
  proof (intro allI ballI)
    fix s x
    assume x: "x \<in> set (tl (of_text s b))"
    then obtain y ys where F: "of_text s b = y # ys" by (cases "of_text s b") auto
    have "y \<in> set (of_text s b)" using F by simp
    then have y: "y \<in> set b" "hn_name (snd y) = s" by (auto simp: case_prod_beta)
    have "list_all (\<lambda>(d', e'). hn_refcount e' = 0) (tl (of_text (hn_name (snd y)) b))"
      using l y(1) unfolding live_first_def by (cases y) auto
    then show "hn_refcount (snd x) = 0" using x y(2) by (auto simp: list_all_iff case_prod_beta)
  qed
next
  assume "\<forall>s. \<forall>x \<in> set (tl (of_text s b)). hn_refcount (snd x) = 0"
  then show "live_first b" unfolding live_first_def list_all_iff by (auto simp: case_prod_beta)
qed

lemma live_unique:
  assumes "live_first b" "distinct (map fst b)" "(d1, e1) \<in> set b" "(d2, e2) \<in> set b"
    "hn_name e1 = hn_name e2" "hn_refcount e1 \<noteq> 0" "hn_refcount e2 \<noteq> 0"
  shows "d1 = d2"
proof -
  let ?F = "of_text (hn_name e1) b"
  have m: "(d1, e1) \<in> set ?F" "(d2, e2) \<in> set ?F" using assms(3-5) by auto
  then obtain y ys where F: "?F = y # ys" by (cases ?F) auto
  have z: "\<forall>x \<in> set ys. hn_refcount (snd x) = 0" using assms(1) F by (metis live_first_iff list.sel(3))
  have "(d1, e1) = y" "(d2, e2) = y" using m F z assms(6,7) by fastforce+
  then show ?thesis by (metis fst_conv)
qed

lemma live_not_in_tl:
  assumes "live_first b" "distinct (map fst b)" "(d, e) \<in> set b" "hn_refcount e \<noteq> 0"
  shows "d \<notin> fst ` set (tl (of_text s b))"
proof
  assume "d \<in> fst ` set (tl (of_text s b))"
  then obtain e' where t: "(d, e') \<in> set (tl (of_text s b))" by auto
  then have "(d, e') \<in> set b" by (metis filter_is_subset list.set_sel(2) subsetD tl_Nil empty_iff list.set(1))
  then have "e' = e" using assms(2,3) by (metis eq_key_imp_eq_value)
  then show False using t assms(1,4) live_first_iff by fastforce
qed

lemma of_text_update_node:
  "(\<And>e. hn_name (f e) = hn_name e) \<Longrightarrow> of_text s (update_node d f b) = update_node d f (of_text s b)"
  unfolding update_node_def by (induction b) (auto simp: case_prod_beta)

lemma live_first_update:
  assumes "live_first b" "distinct (map fst b)" "(d, e) \<in> set b" "hn_refcount e \<noteq> 0"
    "\<And>e. hn_name (f e) = hn_name e"
  shows "live_first (update_node d f b)"
  unfolding live_first_iff
proof (intro allI)
  fix s
  have "d \<notin> fst ` set (tl (of_text s b))" by (rule live_not_in_tl[OF assms(1-4)])
  then have "tl (update_node d f (of_text s b)) = tl (of_text s b)"
    by (cases "of_text s b") (simp_all add: update_node_def update_node_absent[unfolded update_node_def])
  then show "\<forall>x \<in> set (tl (of_text s (update_node d f b))). hn_refcount (snd x) = 0"
    using assms(1) by (simp add: of_text_update_node[OF assms(5)] live_first_iff)
qed

lemma live_first_push:
  assumes "live_first b" "\<forall>x \<in> set (of_text (hn_name (snd x0)) b). hn_refcount (snd x) = 0"
  shows "live_first (x0 # b)"
  unfolding live_first_iff
proof (intro allI)
  fix s
  show "\<forall>x \<in> set (tl (of_text s (x0 # b))). hn_refcount (snd x) = 0"
    using assms by (cases x0) (auto simp: live_first_iff)
qed

lemma set_tl_sub: "set (tl xs) \<subseteq> set xs"
  by (cases xs) auto

lemma set_tl_filter: "set (tl (filter P xs)) \<subseteq> set (tl xs)"
proof (cases xs)
  case (Cons a ys)
  then show ?thesis using set_tl_sub[of "filter P ys"] by auto
qed simp

lemma of_text_filter: "of_text s (filter P b) = filter P (of_text s b)"
  by (simp add: filter_filter conj_commute)

lemma live_first_filter:
  assumes "live_first b"
  shows "live_first (filter P b)"
  unfolding live_first_iff of_text_filter
proof (intro allI ballI)
  fix s x
  assume "x \<in> set (tl (filter P (of_text s b)))"
  then have "x \<in> set (tl (of_text s b))" using set_tl_filter[of P "of_text s b"] by (rule rev_subsetD)
  then show "hn_refcount (snd x) = 0" using assms by (simp add: live_first_iff)
qed

lemma tinv_iff:
  "tinv (st, H) \<longleftrightarrow>
     length (ht_table st) = STRING_TABLE_LEN \<and> 0 < next_addr st \<and> ht_buckets_ok (ht_table st) \<and>
     distinct (map fst (concat (ht_table st))) \<and> size H < 2 ^ 32 - 1 \<and>
     (\<forall>(d, e) \<in> set (concat (ht_table st)). 0 < d \<and> d < next_addr st \<and> hn_name e \<noteq> [] \<and>
        unat (hn_refcount e) = count H (Held d) \<and> count H (Pending d) = (if hn_refcount e = 0 then 1 else 0)) \<and>
     (\<forall>x \<in># H. tname_addr x \<in> fst ` set (concat (ht_table st))) \<and>
     (\<forall>b \<in> set (ht_table st). live_first b)"
  by (simp add: tinv_def Let_def list_all_iff)

lemma tinv_node:
  assumes "tinv (st, H)" "(d, e) \<in> set (concat (ht_table st))"
  shows "0 < d" "d < next_addr st" "hn_name e \<noteq> []" "unat (hn_refcount e) = count H (Held d)"
    "count H (Pending d) = (if hn_refcount e = 0 then 1 else 0)"
  using assms unfolding tinv_iff by fastforce+

lemma tinv_node_of:
  assumes "tinv (st, H)" "x \<in># H"
  obtains e where "(tname_addr x, e) \<in> set (concat (ht_table st))" "ht_node st (tname_addr x) = Some e"
proof -
  have i: "distinct (map fst (concat (ht_table st)))" "tname_addr x \<in> fst ` set (concat (ht_table st))"
    using assms unfolding tinv_iff by auto
  then obtain e where m: "(tname_addr x, e) \<in> set (concat (ht_table st))" by force
  then have "ht_node st (tname_addr x) = Some e" using i(1) by (simp add: ht_node_def)
  then show ?thesis using that m by blast
qed

lemma unat_minus_one_32: "unat (- 1 :: 32 word) = 2 ^ 32 - 1"
  by (simp add: unsigned_minus_1_eq_mask mask_eq_exp_minus_1)

lemma tinv_held:
  assumes "tinv (st, H)" "Held d \<in># H"
  obtains e where "(d, e) \<in> set (concat (ht_table st))" "ht_node st d = Some e"
    "hn_refcount e \<noteq> 0" "hn_refcount e \<noteq> - 1" "0 < unat (hn_refcount e)"
proof -
  obtain e where m: "(d, e) \<in> set (concat (ht_table st))" "ht_node st d = Some e"
    using tinv_node_of[OF assms] by (metis tname_addr.simps(1))
  have c: "unat (hn_refcount e) = count H (Held d)" by (rule tinv_node(4)[OF assms(1) m(1)])
  have "count H (Held d) \<le> size H" by (rule count_le_size)
  moreover have "size H < 2 ^ 32 - 1" using assms(1) by (simp add: tinv_iff)
  moreover have "0 < count H (Held d)" using assms(2) by simp
  ultimately have "0 < unat (hn_refcount e)" "unat (hn_refcount e) < 2 ^ 32 - 1" using c by simp_all
  then show ?thesis using that m unat_minus_one_32 by (metis unat_0 less_irrefl)
qed

lemma tinv_pending:
  assumes "tinv (st, H)" "Pending d \<in># H"
  obtains e where "(d, e) \<in> set (concat (ht_table st))" "ht_node st d = Some e"
    "hn_refcount e = 0" "count H (Held d) = 0" "count H (Pending d) = 1"
proof -
  obtain e where m: "(d, e) \<in> set (concat (ht_table st))" "ht_node st d = Some e"
    using tinv_node_of[OF assms] by (metis tname_addr.simps(2))
  have "count H (Pending d) = (if hn_refcount e = 0 then 1 else 0)" by (rule tinv_node(5)[OF assms(1) m(1)])
  moreover have "0 < count H (Pending d)" using assms(2) by simp
  ultimately have z: "hn_refcount e = 0" "count H (Pending d) = 1" by (simp_all split: if_splits)
  moreover have "count H (Held d) = 0" using tinv_node(4)[OF assms(1) m(1)] z(1) by simp
  ultimately show ?thesis using that m by blast
qed

lemma distinct_bucket: "distinct (map fst (concat ts)) \<Longrightarrow> b \<in> set ts \<Longrightarrow> distinct (map fst b)"
  by (induction ts) auto

lemma update_node_id: "(\<And>e'. (d, e') \<in> set t \<Longrightarrow> f e' = e') \<Longrightarrow> update_node d f t = t"
  by (induction t) (auto simp: update_node_def)

lemma ht_set_count_same:
  assumes "distinct (map fst (concat (ht_table st)))" "(d, e) \<in> set (concat (ht_table st))"
  shows "ht_set_count d (hn_refcount e) st = st"
proof -
  have "update_node d (\<lambda>e. e\<lparr>hn_refcount := hn_refcount e0\<rparr>) b = b"
    if "b \<in> set (ht_table st)" "e0 = e" for b e0
  proof (rule update_node_id)
    fix e'
    assume "(d, e') \<in> set b"
    then have "(d, e') \<in> set (concat (ht_table st))" using that(1) by auto
    then have "e' = e" using assms by (metis eq_key_imp_eq_value)
    then show "e'\<lparr>hn_refcount := hn_refcount e0\<rparr> = e'" using that(2) by simp
  qed
  then have "map (update_node d (\<lambda>e'. e'\<lparr>hn_refcount := hn_refcount e\<rparr>)) (ht_table st) = ht_table st"
    by (simp add: map_idI)
  then show ?thesis by (simp add: ht_set_count_def)
qed

lemma ball_pairI: "(\<And>a b. (a, b) \<in> set t \<Longrightarrow> P a b) \<Longrightarrow> \<forall>(a, b) \<in> set t. P a b"
  by auto

lemma tinv_set_count_live:
  assumes inv: "tinv (st, H)" and m: "(d, e) \<in> set (concat (ht_table st))" and live: "hn_refcount e \<noteq> 0"
    and cH: "unat c = count H' (Held d)" and cP: "count H' (Pending d) = (if c = 0 then 1 else 0)"
    and other: "\<And>d'. d' \<noteq> d \<Longrightarrow> count H' (Held d') = count H (Held d') \<and> count H' (Pending d') = count H (Pending d')"
    and sub: "\<And>x. x \<in># H' \<Longrightarrow> x \<in># H \<or> tname_addr x = d"
    and sz: "size H' < 2 ^ 32 - 1"
  shows "tinv (ht_set_count d c st, H')"
proof -
  let ?f = "\<lambda>e. e\<lparr>hn_refcount := c\<rparr>" and ?T = "concat (ht_table st)"
  have T': "concat (ht_table (ht_set_count d c st)) = update_node d ?f ?T"
    by (simp add: ht_set_count_def concat_update_node)
  have dist: "distinct (map fst ?T)" and lf: "\<forall>b \<in> set (ht_table st). live_first b"
    and hs: "\<forall>x \<in># H. tname_addr x \<in> fst ` set ?T" using inv by (simp_all add: tinv_iff)
  have nodes: "0 < d' \<and> d' < next_addr st \<and> hn_name e' \<noteq> [] \<and>
      unat (hn_refcount e') = count H' (Held d') \<and> count H' (Pending d') = (if hn_refcount e' = 0 then 1 else 0)"
    if dm: "(d', e') \<in> set (update_node d ?f ?T)" for d' e'
  proof -
    obtain e0 where e0: "(d', e0) \<in> set ?T" "e' = (if d' = d then ?f e0 else e0)"
      using dm unfolding set_update_node by blast
    show ?thesis
    proof (cases "d' = d")
      case True
      then have "e0 = e" using e0(1) m dist by (metis eq_key_imp_eq_value)
      then show ?thesis using True e0 tinv_node[OF inv m] cH cP by simp
    next
      case False
      then show ?thesis using e0 tinv_node[OF inv e0(1)] other[OF False] by simp
    qed
  qed
  have handles: "\<forall>x \<in># H'. tname_addr x \<in> fst ` set (update_node d ?f ?T)"
    using sub hs m by (force simp: keys_update_node)
  have live_firsts: "\<forall>b \<in> set (map (update_node d ?f) (ht_table st)). live_first b"
  proof
    fix b
    assume "b \<in> set (map (update_node d ?f) (ht_table st))"
    then obtain b0 where b0: "b0 \<in> set (ht_table st)" "b = update_node d ?f b0" by auto
    show "live_first b"
    proof (cases "d \<in> fst ` set b0")
      case True
      then obtain e0 where "(d, e0) \<in> set b0" by auto
      moreover have "(d, e0) \<in> set ?T" using calculation b0(1) by auto
      ultimately have "(d, e) \<in> set b0" using m dist by (metis eq_key_imp_eq_value)
      then show ?thesis
        using live_first_update[OF _ distinct_bucket[OF dist b0(1)] _ live] lf b0 by simp
    next
      case False
      then show ?thesis using lf b0 by (simp add: update_node_absent)
    qed
  qed
  have tl: "ht_table (ht_set_count d c st) = map (update_node d ?f) (ht_table st)"
    by (simp add: ht_set_count_def)
  show ?thesis unfolding tinv_iff T'
  proof (intro conjI)
    show "\<forall>(a, b) \<in> set (update_node d ?f ?T). 0 < a \<and> a < next_addr (ht_set_count d c st) \<and> hn_name b \<noteq> [] \<and>
        unat (hn_refcount b) = count H' (Held a) \<and> count H' (Pending a) = (if hn_refcount b = 0 then 1 else 0)"
      by (rule ball_pairI) (simp only: ht_set_count_next nodes simp_thms)
    show "\<forall>b \<in> set (ht_table (ht_set_count d c st)). live_first b" unfolding tl by (rule live_firsts)
    show "ht_buckets_ok (ht_table (ht_set_count d c st))" using inv by (simp add: tinv_iff ht_set_count_shape)
  qed (use inv handles sz in \<open>simp_all add: tinv_iff\<close>)
qed

lemma buckets_ok_node:
  assumes "ht_buckets_ok ts" "(d, e) \<in> set (concat ts)"
  shows "hn_idx e < length ts \<and> (d, e) \<in> set (ts ! hn_idx e) \<and> bucket_of (string_hash (hn_name e)) = hn_idx e"
proof -
  obtain i where "i < length ts" "(d, e) \<in> set (ts ! i)"
    using assms(2) by (metis UN_E set_concat in_set_conv_nth)
  then show ?thesis using assms(1) unfolding ht_buckets_ok_def by fastforce
qed

lemma distinct_push:
  assumes "i < length ts"
  shows "distinct (map fst (concat (ts[i := x # ts ! i]))) \<longleftrightarrow>
         distinct (map fst (concat ts)) \<and> fst x \<notin> fst ` set (concat ts)"
proof -
  have "mset (map fst (concat (ts[i := x # ts ! i]))) = mset (fst x # map fst (concat ts))"
    using mset_concat_push[OF assms] by (simp add: mset_map)
  then show ?thesis by (metis mset_eq_imp_distinct_iff distinct.simps(2) list.set_map)
qed

lemma tinv_link:
  assumes inv: "tinv (st, H)" and s: "s \<noteq> []" and sz: "size H < name_limit"
    and z: "\<forall>x \<in> set (of_text s (ht_table st ! bucket_of (string_hash s))). hn_refcount (snd x) = 0"
  shows "tinv (snd (ht_link s (string_hash s) (bucket_of (string_hash s)) st), add_mset (Held (next_addr st)) H)"
proof -
  let ?i = "bucket_of (string_hash s)" and ?n = "next_addr st" and ?T = "concat (ht_table st)"
  let ?x = "(?n, \<lparr>hn_name = s, hn_refcount = 1, hn_hash = string_hash s, hn_idx = ?i\<rparr>)"
  let ?st' = "snd (ht_link s (string_hash s) ?i st)"
  have len: "length (ht_table st) = STRING_TABLE_LEN" and bo: "ht_buckets_ok (ht_table st)"
    and dist: "distinct (map fst ?T)" and szH: "size H < 2 ^ 32 - 1"
    and lf: "\<forall>b \<in> set (ht_table st). live_first b"
    and hs: "\<forall>x \<in># H. tname_addr x \<in> fst ` set ?T" using inv by (simp_all add: tinv_iff)
  have i: "?i < length (ht_table st)" using len by simp
  have tab: "ht_table ?st' = (ht_table st)[?i := ?x # ht_table st ! ?i]" "next_addr ?st' = Suc ?n"
    by (simp_all add: ht_link_def memnew_def)
  have fresh: "?n \<notin> fst ` set ?T" using tinv_node(2)[OF inv] by fastforce
  have noheld: "count H (Held ?n) = 0" "count H (Pending ?n) = 0"
    using hs fresh by (metis count_eq_zero_iff tname_addr.simps)+
  have T': "set (concat (ht_table ?st')) = insert ?x (set ?T)" using set_concat_push[OF i] tab(1) by simp
  have nodes: "0 < d' \<and> d' < next_addr ?st' \<and> hn_name e' \<noteq> [] \<and>
      unat (hn_refcount e') = count (add_mset (Held ?n) H) (Held d') \<and>
      count (add_mset (Held ?n) H) (Pending d') = (if hn_refcount e' = 0 then 1 else 0)"
    if dm: "(d', e') \<in> set (concat (ht_table ?st'))" for d' e'
  proof (cases "(d', e') = ?x")
    case True
    then show ?thesis using noheld s inv tab(2) by (auto simp: tinv_iff)
  next
    case False
    then have m: "(d', e') \<in> set ?T" using dm T' by blast
    then have "d' < ?n" by (rule tinv_node(2)[OF inv])
    then show ?thesis using tinv_node[OF inv m] tab(2) by simp
  qed
  have lf': "\<forall>b \<in> set (ht_table ?st'). live_first b"
  proof
    fix b
    assume "b \<in> set (ht_table ?st')"
    then have "b \<in> insert (?x # ht_table st ! ?i) (set (ht_table st))" using tab(1) set_update_subset_insert by fastforce
    moreover have "live_first (?x # ht_table st ! ?i)"
      using live_first_push[of "ht_table st ! ?i" ?x] lf i z by simp
    ultimately show "live_first b" using lf by blast
  qed
  show ?thesis unfolding tinv_iff
  proof (intro conjI)
    show "\<forall>(a, b) \<in> set (concat (ht_table ?st')). 0 < a \<and> a < next_addr ?st' \<and> hn_name b \<noteq> [] \<and>
        unat (hn_refcount b) = count (add_mset (Held ?n) H) (Held a) \<and>
        count (add_mset (Held ?n) H) (Pending a) = (if hn_refcount b = 0 then 1 else 0)"
      by (rule ball_pairI) (simp only: nodes simp_thms)
    show "distinct (map fst (concat (ht_table ?st')))" using distinct_push[OF i] dist fresh tab(1) by simp
    show "\<forall>x \<in># add_mset (Held ?n) H. tname_addr x \<in> fst ` set (concat (ht_table ?st'))"
      using hs T' by force
    show "size (add_mset (Held ?n) H) < 2 ^ 32 - 1" using sz by (simp add: name_limit_def)
    show "ht_buckets_ok (ht_table ?st')" "length (ht_table ?st') = STRING_TABLE_LEN"
      using ht_link_shape[OF bo len, of s] by simp_all
  qed (use lf' tab in simp_all)
qed

lemma tinv_unlink:
  assumes inv: "tinv (st, H)" and p: "Pending d \<in># H" and u: "ht_unlink d st = Some st'"
  shows "tinv (st', H - {#Pending d#})"
proof -
  obtain e where m: "(d, e) \<in> set (concat (ht_table st))" "ht_node st d = Some e"
    and c: "count H (Held d) = 0" "count H (Pending d) = 1"
    using tinv_pending[OF inv p] by metis
  let ?k = "hn_idx e" and ?P = "\<lambda>(a :: addr, _ :: hnode). a \<noteq> d" and ?T = "concat (ht_table st)"
  have bo: "ht_buckets_ok (ht_table st)" and dist: "distinct (map fst ?T)"
    and lf: "\<forall>b \<in> set (ht_table st). live_first b"
    and hs: "\<forall>x \<in># H. tname_addr x \<in> fst ` set ?T" using inv by (simp_all add: tinv_iff)
  have k: "?k < length (ht_table st)" "(d, e) \<in> set (ht_table st ! ?k)" using buckets_ok_node[OF bo m(1)] by simp_all
  have st': "st' = st\<lparr>ht_table := (ht_table st)[?k := filter ?P (ht_table st ! ?k)]\<rparr>"
    using u m(2) by (simp add: ht_unlink_def)
  have T': "concat (ht_table st') = filter ?P ?T"
    using concat_filter_bucket[OF dist k(1)] k(2) st' by force
  have nodes: "0 < d' \<and> d' < next_addr st' \<and> hn_name e' \<noteq> [] \<and>
      unat (hn_refcount e') = count (H - {#Pending d#}) (Held d') \<and>
      count (H - {#Pending d#}) (Pending d') = (if hn_refcount e' = 0 then 1 else 0)"
    if dm: "(d', e') \<in> set (concat (ht_table st'))" for d' e'
  proof -
    have "(d', e') \<in> set ?T" "d' \<noteq> d" using dm T' by auto
    then show ?thesis using tinv_node[OF inv] st' by simp
  qed
  have hs': "\<forall>x \<in># H - {#Pending d#}. tname_addr x \<in> fst ` set (concat (ht_table st'))"
  proof
    fix x
    assume x: "x \<in># H - {#Pending d#}"
    have "tname_addr x \<noteq> d"
    proof (cases x)
      case (Held a)
      then show ?thesis using x c(1) by (metis count_eq_zero_iff in_diffD tname_addr.simps(1))
    next
      case (Pending a)
      then show ?thesis using x c(2) by (auto simp: in_diff_count)
    qed
    moreover have "tname_addr x \<in> fst ` set ?T" using hs x by (auto dest: in_diffD)
    ultimately show "tname_addr x \<in> fst ` set (concat (ht_table st'))" using T' by force
  qed
  have lf': "\<forall>b \<in> set (ht_table st'). live_first b"
  proof
    fix b
    assume "b \<in> set (ht_table st')"
    then have "b \<in> insert (filter ?P (ht_table st ! ?k)) (set (ht_table st))"
      using st' set_update_subset_insert by fastforce
    then show "live_first b" using lf k(1) live_first_filter by fastforce
  qed
  show ?thesis unfolding tinv_iff
  proof (intro conjI)
    show "\<forall>(a, b) \<in> set (concat (ht_table st')). 0 < a \<and> a < next_addr st' \<and> hn_name b \<noteq> [] \<and>
        unat (hn_refcount b) = count (H - {#Pending d#}) (Held a) \<and>
        count (H - {#Pending d#}) (Pending a) = (if hn_refcount b = 0 then 1 else 0)"
      by (rule ball_pairI) (simp only: nodes simp_thms)
    show "distinct (map fst (concat (ht_table st')))" using T' dist by (simp add: distinct_map_filter)
    show "ht_buckets_ok (ht_table st')" using st' bo by (simp add: buckets_ok_filter)
    have "size (H - {#Pending d#}) \<le> size H" by (simp add: size_Diff1_le)
    then show "size (H - {#Pending d#}) < 2 ^ 32 - 1" using inv by (simp add: tinv_iff)
  qed (use inv hs' lf' st' in \<open>simp_all add: tinv_iff\<close>)
qed

lemma tinv_no_wrap:
  assumes "tinv (st, H)" "(d, e) \<in> set (concat (ht_table st))"
  shows "hn_refcount e \<noteq> - 1"
proof -
  have "unat (hn_refcount e) \<le> size H" using tinv_node(4)[OF assms] count_le_size by metis
  moreover have "size H < 2 ^ 32 - 1" using assms(1) by (simp add: tinv_iff)
  ultimately show ?thesis using unat_minus_one_32 by auto
qed

lemma tinv_share:
  assumes inv: "tinv (st, H)" and m: "(d, e) \<in> set (concat (ht_table st))" and c: "hn_refcount e \<noteq> 0"
    and sz: "size H < name_limit"
  shows "tinv (ht_set_count d (hn_refcount e + 1) st, add_mset (Held d) H)"
proof (rule tinv_set_count_live[OF inv m c])
  have r: "unat (hn_refcount e + 1) = Suc (unat (hn_refcount e))"
    using rc_ref_live(2)[OF _ tinv_no_wrap[OF inv m]] c by (simp add: unat_gt_0)
  then show "unat (hn_refcount e + 1) = count (add_mset (Held d) H) (Held d)" using tinv_node(4)[OF inv m] by simp
  have "hn_refcount e + 1 \<noteq> 0" using r by (metis unat_0 nat.distinct(1))
  then show "count (add_mset (Held d) H) (Pending d) = (if hn_refcount e + 1 = 0 then 1 else 0)"
    using tinv_node(5)[OF inv m] c by simp
  show "size (add_mset (Held d) H) < 2 ^ 32 - 1" using sz by (simp add: name_limit_def)
qed auto

lemma t_from_string_cases:
  assumes inv: "tinv (st, H)" and s: "s \<noteq> []"
  shows "(\<exists>d e. (d, e) \<in> set (concat (ht_table st)) \<and> hn_refcount e \<noteq> 0 \<and>
            ht_from_string s st = (Some d, ht_set_count d (hn_refcount e + 1) st)) \<or>
         ((\<forall>x \<in> set (of_text s (ht_table st ! bucket_of (string_hash s))). hn_refcount (snd x) = 0) \<and>
            ht_from_string s st = ht_link s (string_hash s) (bucket_of (string_hash s)) st)"
proof -
  let ?i = "bucket_of (string_hash s)"
  let ?b = "ht_table st ! ?i"
  have i: "?i < length (ht_table st)" and bo: "ht_buckets_ok (ht_table st)"
    and dist: "distinct (map fst (concat (ht_table st)))" and lf: "\<forall>b \<in> set (ht_table st). live_first b"
    using inv by (simp_all add: tinv_iff)
  have "\<forall>(d, e) \<in> set ?b. hn_hash e = string_hash (hn_name e)" using bo i unfolding ht_buckets_ok_def by blast
  note find = ht_find_first[OF this, of s]
  show ?thesis
  proof (cases "of_text s ?b")
    case Nil
    then show ?thesis using s find by (simp add: ht_from_string_def Let_def)
  next
    case (Cons x rest)
    obtain d e where x: "x = (d, e)" by (cases x)
    have "x \<in> set (of_text s ?b)" using Cons by simp
    then have xb: "(d, e) \<in> set ?b" "hn_name e = s" using x by auto
    then have m: "(d, e) \<in> set (concat (ht_table st))" using i by auto
    show ?thesis
    proof (cases "hn_refcount e = 0")
      case False
      have "rc_ref (hn_refcount e) = (True, hn_refcount e + 1)"
        using rc_ref_live(1)[OF _ tinv_no_wrap[OF inv m]] False by (simp add: unat_gt_0)
      then have "ht_from_string s st = (Some d, ht_set_count d (hn_refcount e + 1) st)"
        using s find Cons x by (simp add: ht_from_string_def Let_def)
      then show ?thesis using m False by blast
    next
      case True
      have "rc_ref (hn_refcount e) = (False, 0)" using True by (simp add: rc_ref_def)
      moreover have "ht_set_count d 0 st = st" using ht_set_count_same[OF dist m] True by simp
      moreover have "\<forall>y \<in> set rest. hn_refcount (snd y) = 0"
        using lf i Cons by (metis live_first_iff list.sel(3) nth_mem)
      ultimately show ?thesis using s find Cons x True by (simp add: ht_from_string_def Let_def)
    qed
  qed
qed

lemma tstep_tinv: "tstep C C' \<Longrightarrow> tinv C \<Longrightarrow> tinv C'"
proof (induction rule: tstep.induct)
  case (t_create s H st d st')
  show ?case
    using t_from_string_cases[OF t_create.prems t_create.hyps(1)]
  proof
    assume "\<exists>d e. (d, e) \<in> set (concat (ht_table st)) \<and> hn_refcount e \<noteq> 0 \<and>
              ht_from_string s st = (Some d, ht_set_count d (hn_refcount e + 1) st)"
    then obtain d0 e where "(d0, e) \<in> set (concat (ht_table st))" "hn_refcount e \<noteq> 0"
      "ht_from_string s st = (Some d0, ht_set_count d0 (hn_refcount e + 1) st)" by blast
    then show ?thesis using tinv_share[OF t_create.prems] t_create.hyps by auto
  next
    assume r: "(\<forall>x \<in> set (of_text s (ht_table st ! bucket_of (string_hash s))). hn_refcount (snd x) = 0) \<and>
              ht_from_string s st = ht_link s (string_hash s) (bucket_of (string_hash s)) st"
    then have "d = next_addr st" "st' = snd (ht_link s (string_hash s) (bucket_of (string_hash s)) st)"
      using t_create.hyps(3) by (simp_all add: ht_link_def memnew_def)
    then show ?thesis using tinv_link[OF t_create.prems t_create.hyps(1,2)] r by simp
  qed
next
  case (t_copy d H st d' st')
  obtain e where e: "(d, e) \<in> set (concat (ht_table st))" "ht_node st d = Some e"
    "hn_refcount e \<noteq> 0" "hn_refcount e \<noteq> - 1" "0 < unat (hn_refcount e)"
    using tinv_held[OF t_copy.prems t_copy.hyps(1)] by metis
  have "ht_copy (Some d) st = Some (Some d, ht_set_count d (hn_refcount e + 1) st)"
    using e rc_ref_live(1)[OF e(5,4)] by (simp add: ht_copy_def)
  then show ?case using tinv_share[OF t_copy.prems e(1,3) t_copy.hyps(2)] t_copy.hyps(3) by simp
next
  case (t_release d H st z st')
  obtain e where e: "(d, e) \<in> set (concat (ht_table st))" "ht_node st d = Some e"
    "hn_refcount e \<noteq> 0" "0 < unat (hn_refcount e)"
    using tinv_held[OF t_release.prems t_release.hyps(1)] by metis
  note u = rc_unref_live[OF e(4)]
  have z: "z = (unat (hn_refcount e) = 1)" and st': "st' = ht_set_count d (hn_refcount e - 1) st"
    using t_release.hyps(2) e(2) u(1) by (simp_all add: ht_unref_dec_def)
  have cH: "unat (hn_refcount e) = count H (Held d)" and cP: "count H (Pending d) = 0"
    using tinv_node(4,5)[OF t_release.prems e(1)] e(3) by simp_all
  have "(hn_refcount e - 1 = 0) = (unat (hn_refcount e) = 1)" using u(1) by (simp add: rc_unref_def)
  then have z0: "hn_refcount e - 1 = 0 \<longleftrightarrow> z" using z by simp
  let ?H' = "(if z then add_mset (Pending d) else id) (H - {#Held d#})"
  have "tinv (ht_set_count d (hn_refcount e - 1) st, ?H')"
  proof (rule tinv_set_count_live[OF t_release.prems e(1,3)])
    show "unat (hn_refcount e - 1) = count ?H' (Held d)" using u(2) cH by simp
    show "count ?H' (Pending d) = (if hn_refcount e - 1 = 0 then 1 else 0)" using z0 cP by simp
    show "size ?H' < 2 ^ 32 - 1"
      using t_release.prems t_release.hyps(1) size_Diff1_le[of H "Held d"]
      by (auto simp: tinv_iff size_Diff_singleton)
    show "x \<in># H \<or> tname_addr x = d" if "x \<in># ?H'" for x
      using that by (cases z) (auto dest: in_diffD)
  qed auto
  then show ?case using st' by simp
next
  case (t_unlink d H st st')
  then show ?case using tinv_unlink by blast
qed

lemma tinv_init: "tinv (ht_empty, {#})"
  unfolding tinv_iff using ht_ok_empty by (simp add: ht_ok_def ht_empty_def live_first_def)

lemma treach_tinv: "treach C \<Longrightarrow> tinv C"
  by (induction rule: treach.induct) (simp_all add: tinv_init tstep_tinv)

lemma tinv_empty_table: "tinv (st, {#}) \<Longrightarrow> concat (ht_table st) = []"
proof (rule ccontr)
  assume inv: "tinv (st, {#})" and "concat (ht_table st) \<noteq> []"
  then obtain x where "x \<in> set (concat (ht_table st))" by (metis list.set_sel(1))
  then have m: "(fst x, snd x) \<in> set (concat (ht_table st))" by simp
  show False using tinv_node(4,5)[OF inv m] by (simp add: unat_eq_zero split: if_splits)
qed

lemma tinv_drain: "tinv (st, H) \<Longrightarrow> \<exists>st'. tstep\<^sup>*\<^sup>* (st, H) (st', {#})"
proof (induction "sum_mset (image_mset tweight H)" arbitrary: st H rule: less_induct)
  case less
  show ?case
  proof (cases "H = {#}")
    case False
    then obtain x M where H: "H = add_mset x M" by (metis multiset_cases)
    then have x: "x \<in># H" by simp
    obtain C' where step: "tstep (st, H) C'" and w: "sum_mset (image_mset tweight (snd C')) < sum_mset (image_mset tweight H)"
    proof (cases x)
      case (Held d)
      obtain e where e: "ht_node st d = Some e" "0 < unat (hn_refcount e)"
        using tinv_held[OF less.prems x[unfolded Held]] by metis
      let ?z = "unat (hn_refcount e) = 1"
      have "ht_unref_dec d st = Some (?z, ht_set_count d (hn_refcount e - 1) st)"
        using e rc_unref_live(1)[OF e(2)] by (simp add: ht_unref_dec_def)
      from t_release[OF x[unfolded Held] this] show ?thesis using that H Held by (cases ?z) auto
    next
      case (Pending d)
      obtain e where "ht_node st d = Some e" using tinv_pending[OF less.prems x[unfolded Pending]] by metis
      then have "ht_unlink d st = Some (st\<lparr>ht_table := (ht_table st)[hn_idx e := filter (\<lambda>(a, _). a \<noteq> d) (ht_table st ! hn_idx e)]\<rparr>)"
        by (simp add: ht_unlink_def)
      from t_unlink[OF x[unfolded Pending] this] show ?thesis using that H Pending by auto
    qed
    obtain st' H' where C': "C' = (st', H')" by (cases C')
    have "tinv (st', H')" using tstep_tinv[OF step less.prems] C' by simp
    then obtain st'' where "tstep\<^sup>*\<^sup>* (st', H') (st'', {#})" using less.hyps w C' by fastforce
    then show ?thesis using step C' by (blast intro: converse_rtranclp_into_rtranclp)
  qed auto
qed

section \<open>Two threads naming one text\<close>

lemma t_run_one:
  "treach (\<lparr>next_addr = 2, ht_table = (replicate STRING_TABLE_LEN [])[1542 :=
      [(1, \<lparr>hn_name = [97], hn_refcount = 1, hn_hash = 177670, hn_idx = 1542\<rparr>)]]\<rparr>, {#Held 1#})"
proof -
  have "ht_from_string [97] ht_empty =
        (Some 1, \<lparr>next_addr = 2, ht_table = (replicate STRING_TABLE_LEN [])[1542 :=
           [(1, \<lparr>hn_name = [97], hn_refcount = 1, hn_hash = 177670, hn_idx = 1542\<rparr>)]]\<rparr>)"
    by (simp add: ht_from_string_def ht_empty_def string_hash_def bucket_of_def STRING_TABLE_MASK_def
        STRING_TABLE_LEN_def STRING_TABLE_BITS_def ht_link_def memnew_def)
  from treach_step[OF treach_init t_create[OF _ _ this]] show ?thesis by (simp add: name_limit_def)
qed

lemma t_run_two:
  "treach (ht_set_count 1 2 \<lparr>next_addr = 2, ht_table = (replicate STRING_TABLE_LEN [])[1542 :=
      [(1, \<lparr>hn_name = [97], hn_refcount = 1, hn_hash = 177670, hn_idx = 1542\<rparr>)]]\<rparr>, {#Held 1, Held 1#})"
proof -
  have "ht_from_string [97] \<lparr>next_addr = 2, ht_table = (replicate STRING_TABLE_LEN [])[1542 :=
           [(1, \<lparr>hn_name = [97], hn_refcount = 1, hn_hash = 177670, hn_idx = 1542\<rparr>)]]\<rparr> =
        (Some 1, ht_set_count 1 2 \<lparr>next_addr = 2, ht_table = (replicate STRING_TABLE_LEN [])[1542 :=
           [(1, \<lparr>hn_name = [97], hn_refcount = 1, hn_hash = 177670, hn_idx = 1542\<rparr>)]]\<rparr>)"
    by (simp add: ht_from_string_def string_hash_def bucket_of_def STRING_TABLE_MASK_def
        STRING_TABLE_LEN_def STRING_TABLE_BITS_def rc_ref_def)
  from treach_step[OF t_run_one t_create[OF _ _ this]] show ?thesis by (simp add: name_limit_def)
qed

section \<open>Properties of the shared table\<close>

text \<open>
  C18 (names of one text share a node under any interleaving): in every configuration the
  threads reach, with creation and its unlink under the table mutex and the count's ref and
  decrement lock-free, every name a thread holds reads back a text, and the glue's
  \<open>operator_Equals\<close> on two held names, \<open>(MonoBoolean)\<close> of the pointer comparison, is 1 exactly
  when their texts are equal: the conditional increment never revives a node whose count
  reached 0, so a dying node is never shared.
\<close>

theorem threads_equal_by_value:
  assumes "treach (st, H)" "Held d1 \<in># H" "Held d2 \<in># H"
  shows "ht_to_string (Some d1) st \<noteq> None \<and>
         mono_boolean_of (string_name_eq (Some d1) (Some d2)) =
           (if ht_to_string (Some d1) st = ht_to_string (Some d2) st then 1 else 0)"
proof -
  have inv: "tinv (st, H)" by (rule treach_tinv[OF assms(1)])
  obtain e1 where e1: "(d1, e1) \<in> set (concat (ht_table st))" "ht_node st d1 = Some e1" "hn_refcount e1 \<noteq> 0"
    using tinv_held[OF inv assms(2)] by metis
  obtain e2 where e2: "(d2, e2) \<in> set (concat (ht_table st))" "ht_node st d2 = Some e2" "hn_refcount e2 \<noteq> 0"
    using tinv_held[OF inv assms(3)] by metis
  have bo: "ht_buckets_ok (ht_table st)" and dist: "distinct (map fst (concat (ht_table st)))"
    and lf: "\<forall>b \<in> set (ht_table st). live_first b" using inv by (simp_all add: tinv_iff)
  have "d1 = d2" if n: "hn_name e1 = hn_name e2"
  proof -
    note b1 = buckets_ok_node[OF bo e1(1)] and b2 = buckets_ok_node[OF bo e2(1)]
    have "hn_idx e1 = hn_idx e2" using b1 b2 n by simp
    then have m2: "(d2, e2) \<in> set (ht_table st ! hn_idx e1)" using b2 by simp
    have bm: "ht_table st ! hn_idx e1 \<in> set (ht_table st)" using b1 by simp
    have m1: "(d1, e1) \<in> set (ht_table st ! hn_idx e1)" using b1 by simp
    show ?thesis using live_unique[OF _ distinct_bucket[OF dist bm] m1 m2 n e1(3) e2(3)] lf bm by blast
  qed
  then show ?thesis using e1(2) e2(2)
    by (auto simp: ht_to_string_def string_name_eq_def mono_boolean_of_def)
qed

text \<open>
  C20 (no node outlives its names): in every configuration the threads reach in which no
  name is held and no unlink is pending, the table is empty.
\<close>

theorem threads_quiescent_empty: "treach (st, {#}) \<Longrightarrow> concat (ht_table st) = []"
  by (rule tinv_empty_table[OF treach_tinv])

text \<open>
  C19 (the threads can always finish): from every configuration the threads reach, releasing
  each held name and performing each pending unlink is always possible and reaches a
  configuration with no names and an empty table; no interleaving leaves the table stuck.
\<close>

theorem threads_can_drain:
  "treach C \<Longrightarrow> \<exists>st'. tstep\<^sup>*\<^sup>* C (st', {#}) \<and> concat (ht_table st') = []"
proof -
  assume r: "treach C"
  obtain st H where C: "C = (st, H)" by (cases C)
  then obtain st' where s: "tstep\<^sup>*\<^sup>* C (st', {#})" using tinv_drain treach_tinv[OF r] by blast
  have "treach (st', {#})" using s r by (induction rule: rtranclp_induct) (auto intro: treach_step)
  then show ?thesis using s tinv_empty_table[OF treach_tinv] by blast
qed

theorem threads_equal_by_value_witness:
  "treach (ht_set_count 1 2 \<lparr>next_addr = 2, ht_table = (replicate STRING_TABLE_LEN [])[1542 :=
      [(1, \<lparr>hn_name = [97], hn_refcount = 1, hn_hash = 177670, hn_idx = 1542\<rparr>)]]\<rparr>, {#Held 1, Held 1#}) \<and>
   Held 1 \<in># {#Held 1, Held (1 :: addr)#} \<and>
   ht_to_string (Some 1) (ht_set_count 1 2 \<lparr>next_addr = 2, ht_table = (replicate STRING_TABLE_LEN [])[1542 :=
      [(1, \<lparr>hn_name = [97], hn_refcount = 1, hn_hash = 177670, hn_idx = 1542\<rparr>)]]\<rparr>) \<noteq> None \<and>
   mono_boolean_of (string_name_eq (Some 1) (Some 1)) = 1"
  using threads_equal_by_value[OF t_run_two, of 1 1] t_run_two by simp

theorem threads_quiescent_empty_witness:
  "treach (ht_empty, {#}) \<and> concat (ht_table ht_empty) = []"
  using threads_quiescent_empty[OF treach_init] treach_init by simp

theorem threads_can_drain_witness:
  "treach (ht_set_count 1 2 \<lparr>next_addr = 2, ht_table = (replicate STRING_TABLE_LEN [])[1542 :=
      [(1, \<lparr>hn_name = [97], hn_refcount = 1, hn_hash = 177670, hn_idx = 1542\<rparr>)]]\<rparr>, {#Held 1, Held 1#}) \<and>
   (\<exists>st'. tstep\<^sup>*\<^sup>* (ht_set_count 1 2 \<lparr>next_addr = 2, ht_table = (replicate STRING_TABLE_LEN [])[1542 :=
      [(1, \<lparr>hn_name = [97], hn_refcount = 1, hn_hash = 177670, hn_idx = 1542\<rparr>)]]\<rparr>, {#Held 1, Held 1#}) (st', {#}) \<and>
      concat (ht_table st') = [])"
  using threads_can_drain[OF t_run_two] t_run_two by blast

end
