(* ===== verification/Spec2Isabelle.thy ===== *)
theory Spec2Isabelle
  imports Owner_Runs StringName_Threads
begin

text \<open>
  A verification of the Mono glue of Godot's \<open>StringName\<close>,
  \<open>src/glue/string_name_glue.h\<close> and \<open>src/glue/string_name_glue.cpp\<close>.

  \<^bold>\<open>The program and its parts.\<close> The glue is six native entry points and a
  registration routine. The managed class \<open>Godot.StringName\<close> (C#, not in this
  repository) declares six \<open>extern\<close> methods; \<open>godot_register_stringname_icalls\<close>
  (cpp 63-70) binds each method's name to its entry point with
  \<open>GDMonoUtils::add_internal_call\<close>; when managed code calls the method, the runtime
  finds the entry point by that name and calls it with a pointer to a native
  \<open>StringName\<close> object. The entry points (cpp 37-61) allocate, copy and destroy such
  objects with \<open>memnew\<close>/\<open>memdelete\<close>, convert between the managed UTF-16 string and the
  engine's \<open>String\<close> with \<open>GDMonoMarshal\<close>, and compare two names with
  \<open>StringName::operator==\<close>. The \<open>StringName\<close> interning table, the marshaling
  helpers, the allocator and the managed class are outside the repository; they are
  modelled from the spec's words (the manifest marks them spec-modelled) in the shape
  the glue needs.

  \<^bold>\<open>Theories.\<close>
  \<^item> \<open>Prelude\<close>: the types crossing the boundary (addresses with \<open>nullptr = 0\<close>, code
    points as \<open>32 word\<close>, UTF-16 units as \<open>16 word\<close>, \<open>MonoBoolean\<close> as \<open>8 word\<close>), the
    allocator \<open>memnew\<close> as a counter on an extensible record, the count of the holders of
    a value in a partial map, and the lemmas on maps, association lists and words the
    components share.
  \<^item> \<open>Marshal\<close>: \<open>utf16_decode\<close>/\<open>utf16_encode\<close> and \<open>mono_string_to_godot\<close>/
    \<open>mono_string_from_godot\<close>. Lemmas: decode after encode and encode after decode are
    the identity on scalar values and on well-formed UTF-16; the round trip through
    the engine is the identity on strings without U+0000; an embedded U+0000 cuts the
    string and a lone surrogate reads as the empty text; every converted text satisfies
    \<open>text_ok\<close> (scalar values, no U+0000). This is the conversion of a build with a
    four-byte \<open>CharType\<close>, which passes through UTF-8; a two-byte \<open>CharType\<close> build
    (\<open>wchar_t\<close> on Windows) copies the UTF-16 units as they are, with no cut at U+0000 and
    no empty text for a lone surrogate, and is not modelled.
  \<^item> \<open>StringName\<close>: the interning table as a list of \<open>(node, data)\<close> entries on
    \<open>sn_state\<close>, with \<open>string_name_from_string\<close> (lookup, share or create),
    \<open>string_name_copy\<close>, \<open>string_name_unref\<close> (unlink at count zero),
    \<open>string_name_to_string\<close>, \<open>string_name_eq\<close> (pointer equality of \<open>_data\<close>). Lemmas:
    each operation on each branch; the invariant \<open>sn_table_ok\<close> (distinct nodes and
    texts, nodes below the allocator, non-empty texts, positive counts) is kept; the
    multiset \<open>sn_interned\<close> of interned texts changes by one occurrence per operation
    (\<open>interned_from_string\<close>, \<open>interned_copy\<close>, \<open>interned_unref\<close>), and the count of a
    text in it is the count of the one node holding it (\<open>count_interned\<close>).
  \<^item> \<open>Glue\<close>: the world (table, heap \<open>sn_heap\<close> of \<open>StringName\<close> objects, log of
    \<open>ERR_FAIL_NULL\<close> reports), undefined behaviour as a \<open>fault\<close>, and one definition per
    entry point: \<open>godot_icall_StringName_Ctor\<close>, \<open>_String_Ctor\<close>, \<open>_StringName_Ctor\<close>,
    \<open>_Dtor\<close>, \<open>_operator_String\<close>, \<open>_operator_Equals\<close>, composed from \<open>memnew\<close>,
    \<open>construct_at\<close>, \<open>deref\<close>, \<open>memdelete\<close> and \<open>err_fail_null\<close> in the order the C++
    calls them. The invariant \<open>wf_world\<close> adds to \<open>sn_table_ok\<close> that every live object
    is below the allocator and names a node, and that every node's count is the number
    of live objects naming it; every entry point keeps it, and \<open>handle_text\<close> (live
    object to its text) is the abstract view each entry point is proved against
    (the \<open>*_step\<close> lemmas). Claims: the text round trip in both directions, copy and
    value equality; the
    equivalence of the pointer comparison of \<open>operator==\<close> with the by-value reference
    \<open>equals_by_value\<close>; sharing of the node of an interned text; the error paths (null
    copy source, null destroy, double destroy, the unguarded to-text and equality,
    ill-formed managed text read as empty); the default value. The world is closed: it
    starts from the empty table of \<open>init_world\<close> and holds only the objects the glue
    creates, so the \<open>StringName\<close>s the engine holds itself are not in it, and an empty
    table in this model means that no node created through the glue remains.
  \<^item> \<open>StringName_Table\<close>: the engine's table as the engine builds it: 4096 chains
    indexed by \<open>String::hash\<close> (djb2 on 32-bit words, \<open>string_hash\<close>) masked by
    \<open>STRING_TABLE_MASK\<close>, nodes caching hash and index, and the 32-bit \<open>SafeRefCount\<close>
    (\<open>rc_ref\<close>, \<open>rc_unref\<close>), with \<open>ht_from_string\<close>, \<open>ht_copy\<close>, \<open>ht_unref\<close>,
    \<open>ht_to_string\<close>. \<open>ht_abs\<close> concatenates the chains into the single chain of
    \<open>StringName\<close>. Claims: while no count is at 2^32-1, every operation refines the
    single-chain one (lookup-or-create up to the order of the nodes), which justifies the
    merged chain the glue is verified on; \<open>ht_ok\<close> is kept; at count 2^32-1 the count
    wraps, a second node of the same text appears, and the glue's equality returns 0 for
    two names of one text.
  \<^item> \<open>StringName_Threads\<close>: threads sharing that table, with the engine's lock discipline:
    creation and the unlink half of \<open>unref()\<close> under the table mutex, the copy's \<open>ref()\<close> and
    the decrement of \<open>unref()\<close> lock-free (\<open>ht_unref_dec\<close>, \<open>ht_unlink\<close>; together
    \<open>ht_unref\<close>). The inductive \<open>tstep\<close> is one atomic step of any thread on the table and
    the multiset of held and pending names; \<open>treach\<close> covers every interleaving. By rule
    induction every reachable configuration satisfies \<open>tinv\<close> (counts are the numbers of
    held names, a count of 0 has its unlink pending, in each chain every node of a text
    after the first has count 0). Claims: two held names of one text share a node, so the
    glue's pointer equality is by value under any interleaving; a quiescent table is
    empty; from every reachable configuration the threads can finish (liveness, by
    induction on a weight of the pending work).
  \<^item> \<open>Registry\<close>: the entry points as the datatype \<open>icall\<close>, managed values as
    \<open>icall_value\<close>, the call through the C signature \<open>invoke_icall\<close>, the registration
    and the call by name \<open>call_internal\<close>; the contract \<open>spec_call\<close> and precondition
    \<open>spec_pre\<close> on the abstract view; the \<open>#ifdef MONO_GLUE_ENABLED\<close> around the glue as
    \<open>register_stringname_glue\<close>. Lemmas: every returning call keeps \<open>wf_world\<close> and
    meets \<open>spec_call\<close> (refinement), every call meeting \<open>spec_pre\<close> returns (progress),
    and the registration binds the six names. An argument list that does not fit the C
    signature gives \<open>Signature_Mismatch\<close>: the managed \<open>extern\<close> declarations exclude such
    a call and neither the header nor the runtime checks for it, so this branch is the
    model's value for a call that cannot be written, and no property rests on it.
  \<^item> \<open>Ownership\<close>: the managed owner the spec describes, holding an ownership token per
    managed object and calling the glue by the \<open>extern\<close> names through the registry;
    \<open>owner_exec\<close> is one operation, the inductive \<open>owner_reach\<close> the reachable states.
    By rule induction every reachable state satisfies \<open>owner_inv\<close> (well-formed world,
    live native objects exactly the live tokens, no object owned twice); hence no
    program of the owner ever faults natively, and releasing every token frees every
    object and empties the table (of the nodes the glue created: the world is closed). On the view \<open>owner_view\<close> of objects as texts, every
    returning operation meets \<open>owner_spec\<close>, the spec's table of operations
    (refinement); and from every reachable state the owner can reach a state with every
    token released and the table empty (liveness, by induction on the number of live
    native objects, finite by the invariant). Every reachable view holds only
    \<open>text_ok\<close> texts, so reading a text and creating a new object from it gives back
    the same text (round trip through the owner).
  \<^item> \<open>Owner_Runs\<close>: programs of the owner. \<open>owner_run\<close> runs a list of operations in
    order, catching managed errors and ending with \<open>None\<close> on a native fault; the abstract
    state \<open>owner_abs\<close> maps each object to unknown, released or the text of its live name,
    and \<open>abs_exec\<close>/\<open>abs_run\<close> are the specification of one operation and of a program on
    it. Lemmas: each operation from an \<open>owner_inv\<close> state is \<open>abs_exec\<close> on the
    abstract state, errors included (\<open>owner_exec_abs\<close>); every program from a reachable
    state returns, and its run is \<open>abs_run\<close> (refinement); \<open>abs_exec\<close> reads and writes only the objects an operation
    names (\<open>op_objs\<close>), so two threads whose programs name disjoint objects,
    interleaved call by call (the inductive \<open>interleaving\<close>), give each thread its
    results alone and the abstract state of running one thread after the other. The
    native worlds of the two orders differ only in the addresses handed out, which
    \<open>owner_abs\<close> forgets.
  \<^item> This theory: the end-to-end property, a call by a registered name.

  \<^bold>\<open>Choices of the model.\<close> Addresses come from a counter and are never reused, so
  every use of a destroyed object is visible as a missing heap cell (the real allocator
  may reuse the storage, which makes such a use silent rather than safe). Reference
  counts of the single chain are naturals; the 32-bit count is modelled in
  \<open>StringName_Table\<close>, where the refinement to naturals holds while no count is at
  2^32-1 (\<open>ht_no_wrap\<close>), i.e. below 2^32-1 live references to one text. The glue's calls are atomic steps of one sequential state: the
  spec makes every shim call synchronous and inherits thread safety from the table.
  The table's own concurrency is modelled in \<open>StringName_Threads\<close>, at the granularity of
  its mutex and its atomics, with fewer than \<open>name_limit\<close> = 2^32-2 live names so that no
  count wraps; concurrency of managed threads is modelled one level up, as interleavings
  of owner calls. All functions are total and structurally recursive; no loop
  of the program needs fuel. A run of the owner is option-valued only because a native
  fault ends the process; that it returns \<open>Some\<close> from a reachable owner is part of the
  refinement \<open>owner_run_refines\<close>.

  \<^bold>\<open>Not modelled.\<close> The license banners, include directives and include guards of
  the two files (no behaviour), the static C-string names of \<open>StringName\<close>
  (the glue never creates one), the \<open>configured\<close> flag of \<open>StringName::setup()\<close> (the
  glue runs after setup), the mutex's own implementation (its
  effect, mutual exclusion of the locked steps, is the atomicity of those steps), threads sharing one managed object (the managed side does not
  synchronise its ownership tokens and the spec leaves this case out), the text of the
  error message beyond its function and parameter, and the garbage collector's
  finaliser thread of the managed side (the owner's release is one of its operations).
\<close>

section \<open>Calls by name through the registered bindings\<close>

text \<open>
  C4 (end to end): once \<open>godot_register_stringname_icalls\<close> has run, a managed call of
  one of the six registered names with arguments that fit its signature and name live
  handles returns, keeps the world well formed, and meets the contract of its entry point.
\<close>

theorem internal_call_contract:
  assumes w: "wf_world w" and pre: "spec_pre f args (handle_text w)"
    and n: "map_of stringname_icall_bindings n = Some f"
  shows "\<exists>r w'. call_internal (godot_register_stringname_icalls reg) n args w = Inr (r, w') \<and>
                wf_world w' \<and> spec_call f args (handle_text w) r (handle_text w')"
proof -
  have "godot_register_stringname_icalls reg n = Some f"
    using n by (simp add: register_eq map_add_find_right)
  moreover obtain r w' where r: "invoke_icall f args w = Inr (r, w')"
    using invoke_progress[OF w pre] by blast
  ultimately show ?thesis using invoke_wf[OF w r] invoke_spec[OF w r] by (auto simp: call_internal_def)
qed

theorem internal_call_contract_witness:
  "wf_world init_world \<and> spec_pre I_Ctor [] (handle_text init_world) \<and>
   map_of stringname_icall_bindings ''Godot.StringName::godot_icall_StringName_Ctor'' = Some I_Ctor \<and>
   (\<exists>r w'. call_internal (godot_register_stringname_icalls Map.empty)
              ''Godot.StringName::godot_icall_StringName_Ctor'' [] init_world = Inr (r, w') \<and>
      wf_world w' \<and> spec_call I_Ctor [] (handle_text init_world) r (handle_text w'))"
proof -
  have n: "map_of stringname_icall_bindings ''Godot.StringName::godot_icall_StringName_Ctor'' = Some I_Ctor"
    by (simp add: stringname_icall_bindings_def)
  have pre: "spec_pre I_Ctor [] (handle_text init_world)" by simp
  show ?thesis using internal_call_contract[OF wf_init pre n, of Map.empty] wf_init pre n by blast
qed

end
